(* ===== verification/Prelude.thy ===== *)
theory Prelude
  imports Main "HOL-Library.Word" "HOL-Library.List_Lexorder"
begin

unbundle bit_operations_syntax

text \<open>
  Shared vocabulary of the development: the machine types of the C++ code, the ways a run of it
  can go wrong, the result type every fallible operation returns, checked vector accesses, and
  the generic lemmas on lists, results and words the components share.
\<close>

section \<open>Machine types\<close>

type_synonym u8 = "8 word"
type_synonym u16 = "16 word"
type_synonym u32 = "32 word"
type_synonym u64 = "64 word"

text \<open>\<open>Bytes\<close> of \<open>inc/type.h\<close> derives from \<open>std::vector<uint8_t>\<close>; so do the hash and key types.\<close>

type_synonym bytes = "u8 list"

section \<open>Collections of facts\<close>

named_theorems result_simps \<open>how results propagate through sequencing\<close>
named_theorems bit_list_simps \<open>words built from and read back as lists of bits\<close>

section \<open>Results\<close>

text \<open>
  What the C++ code does when it leaves its intended paths. \<open>OutOfBounds\<close>, \<open>NullDeref\<close>,
  \<open>MissingReturn\<close> and \<open>SignedOverflow\<close> are undefined behaviour of the language, which the model
  makes an error of its own; \<open>AssertFailed\<close> aborts; \<open>Thrown\<close> is a C++ exception that leaves
  the operation; \<open>Stuck\<close> is a call that never comes back.
\<close>

datatype cxx_error =
    OutOfBounds
  | NullDeref
  | MissingReturn
  | SignedOverflow
  | AssertFailed
  | Thrown string
  | Stuck

type_synonym 'a result = "cxx_error + 'a"

definition bindR :: "'a result \<Rightarrow> ('a \<Rightarrow> 'b result) \<Rightarrow> 'b result" where
  "bindR m f = (case m of Inl e \<Rightarrow> Inl e | Inr x \<Rightarrow> f x)"

definition assertR :: "bool \<Rightarrow> cxx_error \<Rightarrow> unit result" where
  "assertR b e = (if b then Inr () else Inl e)"

fun foldR :: "('x \<Rightarrow> 's \<Rightarrow> 's result) \<Rightarrow> 'x list \<Rightarrow> 's \<Rightarrow> 's result" where
  "foldR f [] s = Inr s"
| "foldR f (x # xs) s = bindR (f x s) (foldR f xs)"

fun mapR :: "('x \<Rightarrow> 'y result) \<Rightarrow> 'x list \<Rightarrow> 'y list result" where
  "mapR f [] = Inr []"
| "mapR f (x # xs) = bindR (f x) (\<lambda>y. bindR (mapR f xs) (\<lambda>ys. Inr (y # ys)))"

fun filterR :: "('x \<Rightarrow> bool result) \<Rightarrow> 'x list \<Rightarrow> 'x list result" where
  "filterR p [] = Inr []"
| "filterR p (x # xs) =
     bindR (p x) (\<lambda>b. bindR (filterR p xs) (\<lambda>ys. Inr (if b then x # ys else ys)))"

text \<open>
  Several functions of the code have a result type but no \<open>return\<close> statement on some path. The
  project is built without optimisation, so such a call comes back with an indeterminate value: the
  model returns \<open>None\<close> for it, a caller that ignores the value goes on, and one that looks at it
  has undefined behaviour.
\<close>

definition used :: "'a option \<Rightarrow> 'a result" where
  "used r = (case r of Some x \<Rightarrow> Inr x | None \<Rightarrow> Inl MissingReturn)"

lemma used_simps [simp, result_simps]: "used (Some x) = Inr x" "used None = Inl MissingReturn"
  by (simp_all add: used_def)

text \<open>Element access of \<open>std::vector\<close>: the code never checks, the model does.\<close>

definition vec_get :: "'a list \<Rightarrow> nat \<Rightarrow> 'a result" where
  "vec_get xs i = (if i < length xs then Inr (xs ! i) else Inl OutOfBounds)"

definition vec_set :: "'a list \<Rightarrow> nat \<Rightarrow> 'a \<Rightarrow> 'a list result" where
  "vec_set xs i v = (if i < length xs then Inr (xs[i := v]) else Inl OutOfBounds)"

lemma bindR_Inl [simp, result_simps]: "bindR (Inl e) f = Inl e"
  by (simp add: bindR_def)

lemma bindR_Inr [simp, result_simps]: "bindR (Inr x) f = f x"
  by (simp add: bindR_def)

lemma bindR_eq_Inr [result_simps]: "bindR m f = Inr y \<longleftrightarrow> (\<exists>x. m = Inr x \<and> f x = Inr y)"
  by (cases m) auto

lemma bindR_assoc: "bindR (bindR m f) g = bindR m (\<lambda>x. bindR (f x) g)"
  by (cases m) auto

lemma bindR_cong [fundef_cong]:
  assumes "m = m'" and "\<And>x. m' = Inr x \<Longrightarrow> f x = g x"
  shows "bindR m f = bindR m' g"
  using assms by (cases m') auto

lemma assertR_eq_Inr [simp, result_simps]: "assertR b e = Inr u \<longleftrightarrow> b"
  by (simp add: assertR_def)

lemma assertR_True [simp]: "assertR True e = Inr ()"
  by (simp add: assertR_def)

lemma assertR_False [simp]: "assertR False e = Inl e"
  by (simp add: assertR_def)

lemma vec_get_ok [simp]: "i < length xs \<Longrightarrow> vec_get xs i = Inr (xs ! i)"
  by (simp add: vec_get_def)

lemma vec_get_out [simp]: "length xs \<le> i \<Longrightarrow> vec_get xs i = Inl OutOfBounds"
  by (simp add: vec_get_def)

lemma vec_get_eq_Inr [result_simps]: "vec_get xs i = Inr x \<longleftrightarrow> i < length xs \<and> x = xs ! i"
  by (auto simp: vec_get_def)

lemma vec_set_ok [simp]: "i < length xs \<Longrightarrow> vec_set xs i v = Inr (xs[i := v])"
  by (simp add: vec_set_def)

lemma vec_set_out [simp]: "length xs \<le> i \<Longrightarrow> vec_set xs i v = Inl OutOfBounds"
  by (simp add: vec_set_def)

lemma vec_set_eq_Inr [result_simps]:
  "vec_set xs i v = Inr ys \<longleftrightarrow> i < length xs \<and> ys = xs[i := v]"
  by (auto simp: vec_set_def)

lemma foldR_append: "foldR f (xs @ ys) s = bindR (foldR f xs s) (foldR f ys)"
  by (induction xs arbitrary: s) (simp_all add: bindR_assoc bindR_def split: sum.splits)

text \<open>A loop keeps what each of its rounds keeps.\<close>

lemma foldR_invariant:
  assumes "foldR f xs s = Inr s'" and "I s"
    and "\<And>x t t'. x \<in> set xs \<Longrightarrow> I t \<Longrightarrow> f x t = Inr t' \<Longrightarrow> I t'"
  shows "I s'"
  using assms
proof (induction xs arbitrary: s)
  case (Cons x xs)
  then obtain t where t: "f x s = Inr t" "foldR f xs t = Inr s'"
    by (auto simp: bindR_eq_Inr)
  with Cons.prems have "I t" by auto
  with Cons t show ?case by auto
qed simp

text \<open>A loop none of whose rounds fails is a fold.\<close>

lemma foldR_total:
  "(\<And>x t. x \<in> set xs \<Longrightarrow> f x t = Inr (g x t)) \<Longrightarrow> foldR f xs s = Inr (fold g xs s)"
  by (induction xs arbitrary: s) auto

lemma mapR_total: "(\<And>x. x \<in> set xs \<Longrightarrow> f x = Inr (g x)) \<Longrightarrow> mapR f xs = Inr (map g xs)"
  by (induction xs) auto

lemma mapR_eq_Inr: "mapR f xs = Inr ys \<longleftrightarrow> list_all2 (\<lambda>x y. f x = Inr y) xs ys"
  by (induction xs arbitrary: ys) (auto simp: bindR_eq_Inr list_all2_Cons1)

lemma filterR_total:
  "(\<And>x. x \<in> set xs \<Longrightarrow> p x = Inr (q x)) \<Longrightarrow> filterR p xs = Inr (filter q xs)"
  by (induction xs) auto

text \<open>Changing one element of a list changes a sum over the list by as much.\<close>

lemma sum_list_map_update:
  "c < length xs \<Longrightarrow> f y + d = f (xs ! c) \<Longrightarrow> sum_list (map f (xs[c := y])) + d = sum_list (map f xs)"
  for f :: "'a \<Rightarrow> nat"
proof (induction xs arbitrary: c)
  case (Cons x xs)
  then show ?case by (cases c) auto
qed simp

section \<open>Bits and words\<close>

text \<open>\<open>(u << 1) | b\<close>, the step of every loop of the code that packs bits.\<close>

definition shift_in :: "'a::len word \<Rightarrow> bool \<Rightarrow> 'a word" where
  "shift_in u b = push_bit 1 u OR of_bool b"

text \<open>The most significant bit first.\<close>

definition word_of_bits :: "bool list \<Rightarrow> 'a::len word" where
  "word_of_bits bs = foldl shift_in 0 bs"

lemma bit_shift_in [bit_list_simps]:
  "bit (shift_in u b :: 'a::len word) n \<longleftrightarrow>
     (if n = 0 then b else n < LENGTH('a) \<and> bit u (n - 1))"
  unfolding shift_in_def bit_or_iff bit_push_bit_iff bit_of_bool_iff by auto

lemma word_of_bits_Nil [simp]: "word_of_bits [] = 0"
  by (simp add: word_of_bits_def)

lemma word_of_bits_snoc [bit_list_simps]:
  "word_of_bits (bs @ [b]) = shift_in (word_of_bits bs) b"
  by (simp add: word_of_bits_def)

lemma bit_word_of_bits [bit_list_simps]:
  "bit (word_of_bits bs :: 'a::len word) n \<longleftrightarrow> n < LENGTH('a) \<and> n < length bs \<and> rev bs ! n"
proof (induction bs arbitrary: n rule: rev_induct)
  case (snoc b bs)
  show ?case
  proof (cases n)
    case (Suc m)
    show ?thesis unfolding word_of_bits_snoc bit_shift_in snoc.IH Suc by auto
  qed (simp add: word_of_bits_snoc bit_shift_in)
qed simp

lemma bit_word_of_bits_index:
  assumes "k < length bs" and "length bs \<le> LENGTH('a::len)"
  shows "bit (word_of_bits bs :: 'a word) (length bs - 1 - k) \<longleftrightarrow> bs ! k"
  using assms by (auto simp: bit_word_of_bits rev_nth)

lemma word_of_bits_Cons_False: "word_of_bits (False # bs) = word_of_bits bs"
  by (simp add: word_of_bits_def shift_in_def)

text \<open>The bytes a loop has completed after \<open>bs\<close>: one for each full group of eight bits.\<close>

function full_bytes :: "bool list \<Rightarrow> bytes" where
  "full_bytes bs =
     (if length bs < 8 then [] else word_of_bits (take 8 bs) # full_bytes (drop 8 bs))"
  by pat_completeness auto
termination
  by (relation "measure length") auto

declare full_bytes.simps [simp del]

lemma full_bytes_short [simp]: "length bs < 8 \<Longrightarrow> full_bytes bs = []"
  by (simp add: full_bytes.simps)

lemma full_bytes_long:
  "8 \<le> length bs \<Longrightarrow> full_bytes bs = word_of_bits (take 8 bs) # full_bytes (drop 8 bs)"
  by (simp add: full_bytes.simps)

lemma length_full_bytes [simp]: "length (full_bytes bs) = length bs div 8"
proof (induction bs rule: full_bytes.induct)
  case (1 bs)
  then show ?case by (cases "length bs < 8") (simp_all add: le_div_geq full_bytes_long)
qed

lemma full_bytes_nth:
  "j < length bs div 8 \<Longrightarrow> full_bytes bs ! j = word_of_bits (take 8 (drop (8 * j) bs))"
proof (induction bs arbitrary: j rule: full_bytes.induct)
  case (1 bs)
  from "1.prems" have long: "8 \<le> length bs" by (cases "length bs < 8") auto
  show ?case
  proof (cases j)
    case (Suc k)
    with long "1.prems" have "k < length (drop 8 bs) div 8" by (simp add: le_div_geq)
    with long Suc "1.IH" [of k] show ?thesis by (simp add: add.commute full_bytes_long)
  qed (use long in \<open>simp add: full_bytes_long\<close>)
qed

lemma bit_full_bytes:
  assumes "i < 8 * (length bs div 8)"
  shows "bit (full_bytes bs ! (i div 8)) (7 - i mod 8) \<longleftrightarrow> bs ! i"
proof -
  let ?c = "take 8 (drop (8 * (i div 8)) bs)"
  from assms have j: "i div 8 < length bs div 8" by (simp add: div_less_iff_less_mult mult.commute)
  then have len: "length ?c = 8" by simp
  have i: "8 * (i div 8) + i mod 8 = i" by simp
  from len have "bit (word_of_bits ?c :: u8) (7 - i mod 8) \<longleftrightarrow> ?c ! (i mod 8)"
    using bit_word_of_bits_index [of "i mod 8" ?c, where 'a = 8] by simp
  also have "?c ! (i mod 8) = bs ! i"
    using j len by (simp add: i)
  finally show ?thesis unfolding full_bytes_nth [OF j] .
qed

lemma xor_eq_0_iff: "x XOR y = 0 \<longleftrightarrow> x = y" for x y :: "'a::len word"
proof
  assume "x XOR y = 0"
  then have "(x XOR y) XOR y = 0 XOR y" by (rule arg_cong)
  then show "x = y" by (simp add: xor.assoc)
qed simp

lemma xor_cancel_iff: "x XOR y = x \<longleftrightarrow> y = 0" for x y :: "'a::len word"
proof
  assume "x XOR y = x"
  then have "x XOR (x XOR y) = x XOR x" by (rule arg_cong)
  then show "y = 0" by (simp add: xor.assoc [symmetric])
qed simp

lemma sint_word_of_int_small:
  "- 128 \<le> k \<Longrightarrow> k < 128 \<Longrightarrow> sint (word_of_int k :: u8) = k"
  unfolding sint_sbintrunc' by (rule signed_take_bit_int_eq_self) simp_all

lemma sint_ucast_small:
  fixes p :: u64
  assumes "unat p < 2 ^ 31"
  shows "sint (ucast p :: u32) = int (unat p)"
proof -
  obtain n where n: "unat p = n" "uint p = int n" using uint_nat by blast
  have "uint (ucast p :: u32) = take_bit 32 (uint p)" by (simp add: unsigned_ucast_eq)
  also have "\<dots> = int n" using assms unfolding n by (simp add: take_bit_int_eq_self)
  finally have "uint (ucast p :: u32) = int n" .
  moreover have "signed_take_bit 31 (int n) = int n"
    by (rule signed_take_bit_int_eq_self) (use assms n(1) in simp_all)
  ultimately show ?thesis unfolding n(1) sint_uint by simp
qed

lemma drop_bit_of_small: "take_bit n x = x \<Longrightarrow> drop_bit n x = 0" for x :: "'a::len word"
  by (metis drop_bit_take_bit diff_self_eq_0 take_bit_0)

text \<open>The number a list of words spells, the least significant first.\<close>

fun value_of :: "nat \<Rightarrow> u8 list \<Rightarrow> nat" where
  "value_of w [] = 0"
| "value_of w (x # xs) = unat x + 2 ^ w * value_of w xs"

lemma value_of_bytes_less: "value_of 8 b < 2 ^ (8 * length b)"
proof (induction b)
  case (Cons x b)
  have "unat x < 2 ^ 8" using unsigned_less [of x] by simp
  moreover have "value_of 8 b \<le> 2 ^ (8 * length b) - 1" using Cons by linarith
  then have "2 ^ 8 * value_of 8 b \<le> 2 ^ 8 * (2 ^ (8 * length b) - 1)" by (rule mult_left_mono) simp
  moreover have "(2::nat) ^ 8 * (2 ^ (8 * length b) - 1) = 2 ^ (8 * length (x # b)) - 2 ^ 8"
    by (simp add: right_diff_distrib' power_add)
  moreover have "(2::nat) ^ 8 \<le> 2 ^ (8 * length (x # b))" by (rule power_increasing) simp_all
  ultimately show ?case by simp
qed simp

end
