(* ===== verification/Bech32.thy ===== *)
theory Bech32
  imports Prelude
begin

text \<open>
  The checksummed base-32 strings of \<open>src/segwit_addr.cc\<close>: \<open>bech32_polymod_step\<close>,
  \<open>bech32_encode\<close> and \<open>bech32_decode\<close>. A C string is the list of its bytes without the
  terminating NUL; \<open>char\<close> is signed, so a \<open>char\<close> promoted to \<open>int\<close> is the \<open>sint\<close> of its byte.
\<close>

section \<open>Checksum step and character tables\<close>

text \<open>
  The masks are computed in \<open>unsigned long\<close> and the result is returned as \<open>uint32_t\<close>; no constant
  exceeds 32 bits, so the model computes in 32 bits.
\<close>

definition bech32_polymod_step :: "u32 \<Rightarrow> u32" where
  "bech32_polymod_step pre =
     (let b = (ucast (drop_bit 25 pre) :: u8) in
      push_bit 5 (pre AND 0x1FFFFFF) XOR
      (- ucast (drop_bit 0 b AND 1) AND 0x3b6a57b2) XOR
      (- ucast (drop_bit 1 b AND 1) AND 0x26508e6d) XOR
      (- ucast (drop_bit 2 b AND 1) AND 0x1ea119fa) XOR
      (- ucast (drop_bit 3 b AND 1) AND 0x3d4233dd) XOR
      (- ucast (drop_bit 4 b AND 1) AND 0x2a1462b3))"

definition charset :: "u8 list" where
  "charset = map of_char ''qpzry9x8gf2tvdw0s3jn54khce6mua7l''"

definition charset_rev :: "int list" where
  "charset_rev = [
    -1, -1, -1, -1, -1, -1, -1, -1, -1, -1, -1, -1, -1, -1, -1, -1,
    -1, -1, -1, -1, -1, -1, -1, -1, -1, -1, -1, -1, -1, -1, -1, -1,
    -1, -1, -1, -1, -1, -1, -1, -1, -1, -1, -1, -1, -1, -1, -1, -1,
    15, -1, 10, 17, 21, 20, 26, 30,  7,  5, -1, -1, -1, -1, -1, -1,
    -1, 29, -1, 24, 13, 25,  9,  8, 23, -1, 18, 22, 31, 27, 19, -1,
     1,  0,  3, 16, 11, 28, 12, 14,  6,  4,  2, -1, -1, -1, -1, -1,
    -1, 29, -1, 24, 13, 25,  9,  8, 23, -1, 18, 22, 31, 27, 19, -1,
     1,  0,  3, 16, 11, 28, 12, 14,  6,  4,  2, -1, -1, -1, -1, -1]"

abbreviation sep :: u8 where "sep \<equiv> 49"

section \<open>Encoder\<close>

text \<open>First pass over the human readable part: reject control characters, absorb the high bits.\<close>

fun enc_hrp_high :: "u8 list \<Rightarrow> u32 \<Rightarrow> u32 option" where
  "enc_hrp_high [] chk = Some chk"
| "enc_hrp_high (c # hrp) chk =
     (if drop_bit 5 (sint c) = 0 then None
      else enc_hrp_high hrp (bech32_polymod_step chk XOR word_of_int (drop_bit 5 (sint c))))"

text \<open>Second pass: absorb the low bits (the characters are copied out as they are).\<close>

fun hrp_low :: "u8 list \<Rightarrow> u32 \<Rightarrow> u32" where
  "hrp_low [] chk = chk"
| "hrp_low (c # hrp) chk =
     hrp_low hrp (bech32_polymod_step chk XOR word_of_int (sint c AND 0x1f))"

text \<open>The data loop: what it has written, and the checksum unless it returned 0.\<close>

fun enc_data :: "u8 list \<Rightarrow> u32 \<Rightarrow> u8 list \<Rightarrow> u8 list \<times> u32 option" where
  "enc_data [] chk out = (out, Some chk)"
| "enc_data (d # data) chk out =
     (if drop_bit 5 d \<noteq> 0 then (out, None)
      else enc_data data (bech32_polymod_step chk XOR ucast d) (out @ [charset ! unat d]))"

definition polymod_pad :: "u32 \<Rightarrow> u32" where
  "polymod_pad chk = (bech32_polymod_step ^^ 6) chk"

definition checksum_chars :: "u32 \<Rightarrow> u8 list" where
  "checksum_chars chk =
     map (\<lambda>i. charset ! unat (drop_bit ((5 - i) * 5) chk AND 0x1f)) [0..<6]"

text \<open>The bytes written to \<open>output\<close>, and whether the function returned 1.\<close>

definition bech32_encode :: "u8 list \<Rightarrow> u8 list \<Rightarrow> u8 list \<times> bool" where
  "bech32_encode hrp data =
     (case enc_hrp_high hrp 1 of
        None \<Rightarrow> ([], False)
      | Some chk1 \<Rightarrow>
          let chk2 = hrp_low hrp (bech32_polymod_step chk1) in
          (case enc_data data chk2 (hrp @ [sep]) of
             (out, None) \<Rightarrow> (out, False)
           | (out, Some chk3) \<Rightarrow>
               let chk4 = polymod_pad chk3 XOR 1 in
               (out @ checksum_chars chk4 @ [0], True)))"

section \<open>Decoder\<close>

text \<open>\<open>*data_len\<close> after the first loop: the characters behind the last separator.\<close>

function dec_sep :: "u8 list \<Rightarrow> nat \<Rightarrow> nat" where
  "dec_sep input n =
     (if n < length input \<and> input ! (length input - 1 - n) \<noteq> sep then dec_sep input (n + 1) else n)"
  by pat_completeness auto
termination
  by (relation "measure (\<lambda>(input, n). length input - n)") auto

declare dec_sep.simps [simp del]

text \<open>
  The loop over the human readable part. The state is what has been written to \<open>hrp\<close>, the
  checksum and the two case flags; \<open>None\<close> is the return of 0. A store at or past the buffer's
  capacity \<open>cap\<close> is out of bounds.
\<close>

fun dec_hrp :: "nat \<Rightarrow> u8 list \<Rightarrow> u8 list \<Rightarrow> u32 \<Rightarrow> bool \<Rightarrow> bool \<Rightarrow>
    (u8 list \<times> u32 \<times> bool \<times> bool) option result" where
  "dec_hrp cap [] hrp chk lower upper = Inr (Some (hrp, chk, lower, upper))"
| "dec_hrp cap (c # cs) hrp chk lower upper =
     (let ch = sint c in
      if ch < 33 \<or> ch > 126 then Inr None
      else
        let is_lower = (97 \<le> ch \<and> ch \<le> 122); is_upper = (65 \<le> ch \<and> ch \<le> 90);
            ch' = (if \<not> is_lower \<and> is_upper then (ch - 65) + 97 else ch) in
        if length hrp < cap
        then dec_hrp cap cs (hrp @ [word_of_int ch'])
               (bech32_polymod_step chk XOR word_of_int (drop_bit 5 ch'))
               (lower \<or> is_lower) (upper \<or> is_upper)
        else Inl OutOfBounds)"

text \<open>
  The loop over data and checksum characters; \<open>i + 6 < input_len\<close> says that more than six
  characters are left.
\<close>

definition char_value :: "u8 \<Rightarrow> int" where
  "char_value c = (if c AND 0x80 \<noteq> 0 then - 1 else charset_rev ! unat c)"

fun dec_data :: "nat \<Rightarrow> u8 list \<Rightarrow> u32 \<Rightarrow> bool \<Rightarrow> bool \<Rightarrow> u8 list \<Rightarrow>
    (u32 \<times> bool \<times> bool \<times> u8 list) option result" where
  "dec_data cap [] chk lower upper data = Inr (Some (chk, lower, upper, data))"
| "dec_data cap (c # cs) chk lower upper data =
     (let v = char_value c;
          lower' = (lower \<or> 97 \<le> sint c \<and> sint c \<le> 122);
          upper' = (upper \<or> 65 \<le> sint c \<and> sint c \<le> 90) in
      if v = - 1 then Inr None
      else
        let chk' = bech32_polymod_step chk XOR word_of_int v in
        if 6 < length (c # cs) then
          if length data < cap
          then dec_data cap cs chk' lower' upper' (data @ [word_of_int v])
          else Inl OutOfBounds
        else dec_data cap cs chk' lower' upper' data)"

text \<open>
  \<open>bech32_decode\<close> with the capacities of the caller's two buffers. \<open>hrp_len\<close> is a \<open>size_t\<close>: when
  the string holds no separator, \<open>input_len - (1 + *data_len)\<close> wraps around to \<open>2 ^ 64 - 1\<close>, and the
  loop over the human readable part is stopped by the terminating NUL.
\<close>

definition hrp_length :: "u8 list \<Rightarrow> nat \<Rightarrow> nat" where
  "hrp_length input n = (if n < length input then length input - (1 + n) else 2 ^ 64 - 1)"

definition bech32_decode :: "nat \<Rightarrow> nat \<Rightarrow> u8 list \<Rightarrow> (u8 list \<times> u8 list) option result" where
  "bech32_decode hrp_cap data_cap input =
     (let input_len = length input in
      if input_len < 8 \<or> 90 < input_len then Inr None
      else
        let data_len = dec_sep input 0; hrp_len = hrp_length input data_len in
        if hrp_len < 1 \<or> data_len < 6 then Inr None
        else bindR (dec_hrp hrp_cap (take hrp_len (input @ [0])) [] 1 False False) (\<lambda>r.
          case r of None \<Rightarrow> Inr None
          | Some (hrp, chk1, lower, upper) \<Rightarrow>
              bindR (assertR (length hrp < hrp_cap) OutOfBounds) (\<lambda>_.
                let chk2 = hrp_low (take hrp_len input) (bech32_polymod_step chk1) in
                bindR (dec_data data_cap (drop (hrp_len + 1) input) chk2 lower upper []) (\<lambda>r.
                  case r of None \<Rightarrow> Inr None
                  | Some (chk3, lower', upper', data) \<Rightarrow>
                      if lower' \<and> upper' then Inr None
                      else if chk3 = 1 then Inr (Some (hrp, data)) else Inr None))))"

end
