(* ===== verification/Bech32_Checksum.thy ===== *)
theory Bech32_Checksum
  imports Bech32
begin

text \<open>
  The algebra of the checksum. \<open>bech32_polymod_step\<close> is linear over XOR and injective on 30-bit
  values; absorbing a list of values therefore splits into the effect of the start value and the
  effect of the list, six symbols that spell a value cancel it, and a changed symbol never cancels.
\<close>

section \<open>The step\<close>

definition gen_term :: "nat \<Rightarrow> u32 \<Rightarrow> u32 \<Rightarrow> u32" where
  "gen_term k g x = (if bit x k then g else 0)"

lemma neg_bit_mask:
  "k < 5 \<Longrightarrow> - ucast (drop_bit k (ucast (drop_bit 25 pre) :: u8) AND 1) AND g
     = gen_term (25 + k) g (pre :: u32)"
proof -
  assume k: "k < 5"
  have "drop_bit k (ucast (drop_bit 25 pre) :: u8) AND 1 = of_bool (bit pre (25 + k))"
    using k by (intro bit_word_eqI) (auto simp: bit_simps)
  then show ?thesis by (simp add: gen_term_def)
qed

lemma step_eq:
  "bech32_polymod_step x = push_bit 5 (take_bit 25 x) XOR gen_term 25 0x3b6a57b2 x XOR
     gen_term 26 0x26508e6d x XOR gen_term 27 0x1ea119fa x XOR gen_term 28 0x3d4233dd x XOR
     gen_term 29 0x2a1462b3 x"
proof -
  have "x AND 0x1FFFFFF = take_bit 25 x"
    by (simp add: take_bit_eq_mask mask_numeral mask_eq_exp_minus_1)
  then show ?thesis
    by (simp only: bech32_polymod_step_def Let_def neg_bit_mask) (simp add: neg_bit_mask [of 0, simplified]
        neg_bit_mask [of 1, simplified] neg_bit_mask [of 2, simplified]
        neg_bit_mask [of 3, simplified] neg_bit_mask [of 4, simplified])
qed

lemma gen_term_xor: "gen_term k g (x XOR y) = gen_term k g x XOR gen_term k g y"
  by (simp add: gen_term_def bit_xor_iff)

lemma step_xor: "bech32_polymod_step (x XOR y) = bech32_polymod_step x XOR bech32_polymod_step y"
  unfolding step_eq gen_term_xor take_bit_xor push_bit_xor
  by (simp only: xor.assoc xor.left_commute xor.commute)

lemma step_0 [simp]: "bech32_polymod_step 0 = 0"
  by (simp add: step_eq gen_term_def)

lemma take_bit_gen_term: "take_bit 30 g = g \<Longrightarrow> take_bit 30 (gen_term k g x) = gen_term k g x"
  by (simp add: gen_term_def)

lemma step_fits: "take_bit 30 (bech32_polymod_step x) = bech32_polymod_step x"
  unfolding step_eq take_bit_xor
  by (simp add: take_bit_gen_term take_bit_push_bit)

lemma step_small:
  assumes "take_bit 25 x = x"
  shows "bech32_polymod_step x = push_bit 5 x"
proof -
  have "\<not> bit x k" if "25 \<le> k" for k
    using that bit_take_bit_iff [of 25 x k] assms by simp
  then show ?thesis using assms by (simp add: step_eq gen_term_def)
qed

lemma step_zero_imp:
  assumes "bech32_polymod_step x = 0"
  shows "take_bit 30 x = 0"
proof -
  have b: "bit (bech32_polymod_step x) n = False" for n using assms by simp
  have e: "\<not> bit x 25" "\<not> bit x 26" "\<not> bit x 27" "\<not> bit x 28" "\<not> bit x 29"
    using b [of 0] b [of 1] b [of 2] b [of 3] b [of 4]
    by (auto simp: step_eq gen_term_def bit_xor_iff bit_push_bit_iff split: if_splits)
  from e assms have p: "push_bit 5 (take_bit 25 x) = 0" by (simp add: step_eq gen_term_def)
  have "\<not> bit x n" if "n < 30" for n
  proof (cases "n < 25")
    case True
    have "bit (push_bit 5 (take_bit 25 x)) (n + 5) = bit x n"
      using True by (simp add: bit_push_bit_iff bit_take_bit_iff)
    with p show ?thesis by simp
  next
    case False
    with that have "n \<in> {25, 26, 27, 28, 29}" by auto
    with e show ?thesis by auto
  qed
  then show ?thesis by (intro bit_word_eqI) (auto simp: bit_take_bit_iff)
qed

section \<open>Absorbing values\<close>

definition absorb :: "u32 list \<Rightarrow> u32 \<Rightarrow> u32" where
  "absorb vs chk = foldl (\<lambda>c v. bech32_polymod_step c XOR v) chk vs"

lemma absorb_simps [simp]:
  "absorb [] chk = chk"
  "absorb (v # vs) chk = absorb vs (bech32_polymod_step chk XOR v)"
  by (simp_all add: absorb_def)

lemma absorb_append: "absorb (vs @ ws) chk = absorb ws (absorb vs chk)"
  by (simp add: absorb_def)

lemma steps_xor:
  "(bech32_polymod_step ^^ n) (x XOR y) = (bech32_polymod_step ^^ n) x XOR (bech32_polymod_step ^^ n) y"
  by (induction n arbitrary: x y) (simp_all add: step_xor)

lemma absorb_xor: "absorb vs (x XOR y) = absorb vs x XOR (bech32_polymod_step ^^ length vs) y"
proof (induction vs arbitrary: x y)
  case (Cons v vs)
  have "bech32_polymod_step (x XOR y) XOR v = (bech32_polymod_step x XOR v) XOR bech32_polymod_step y"
    by (simp add: step_xor xor.assoc xor.commute xor.left_commute)
  then have "absorb (v # vs) (x XOR y) =
      absorb vs ((bech32_polymod_step x XOR v) XOR bech32_polymod_step y)" by simp
  also have "\<dots> = absorb vs (bech32_polymod_step x XOR v) XOR
      (bech32_polymod_step ^^ length vs) (bech32_polymod_step y)" by (rule Cons.IH)
  finally show ?case by (simp add: funpow_swap1)
qed simp

lemma absorb_split: "absorb vs chk = absorb vs 0 XOR (bech32_polymod_step ^^ length vs) chk"
  using absorb_xor [of vs 0 chk] by simp

text \<open>Six five-bit symbols, most significant first, are absorbed from 0 to the value they spell.\<close>

definition spell :: "u32 \<Rightarrow> u32 list" where
  "spell x = map (\<lambda>i. take_bit 5 (drop_bit ((5 - i) * 5) x)) [0..<6]"

lemma spell_step:
  assumes "take_bit 30 x = (x :: u32)"
  shows "bech32_polymod_step (drop_bit (5 * Suc j) x) XOR take_bit 5 (drop_bit (5 * j) x)
    = drop_bit (5 * j) x"
proof -
  have "take_bit 25 (drop_bit (5 * Suc j) x) = drop_bit (5 * Suc j) x"
  proof (rule bit_word_eqI)
    fix n assume "n < LENGTH(32)"
    show "bit (take_bit 25 (drop_bit (5 * Suc j) x)) n = bit (drop_bit (5 * Suc j) x) n"
      using bit_take_bit_iff [of 30 x "n + 5 * Suc j"] assms
      by (auto simp: bit_take_bit_iff bit_drop_bit_eq add.commute)
  qed
  then have "bech32_polymod_step (drop_bit (5 * Suc j) x) = push_bit 5 (drop_bit (5 * Suc j) x)"
    by (rule step_small)
  moreover have "push_bit 5 (drop_bit (5 * Suc j) x) XOR take_bit 5 (drop_bit (5 * j) x)
      = drop_bit (5 * j) x"
    by (intro bit_word_eqI) (auto simp: bit_simps)
  ultimately show ?thesis by simp
qed

lemma absorb_spell:
  assumes "take_bit 30 x = x"
  shows "absorb (spell x) 0 = x"
proof -
  have "drop_bit 30 x = 0"
    using assms by (metis drop_bit_take_bit diff_self_eq_0 take_bit_0)
  then have "absorb (spell x) (drop_bit (5 * 6) x) = drop_bit (5 * 0) x"
    using spell_step [OF assms, of 5] spell_step [OF assms, of 4] spell_step [OF assms, of 3]
      spell_step [OF assms, of 2] spell_step [OF assms, of 1] spell_step [OF assms, of 0]
    by (simp add: spell_def upt_rec numeral_eq_Suc)
  with \<open>drop_bit 30 x = 0\<close> show ?thesis by simp
qed

text \<open>The checksum the encoder appends drives the checksum of the whole string to 1.\<close>

lemma checksum_closes: "absorb (spell (polymod_pad chk XOR 1)) chk = 1"
proof -
  let ?p = "polymod_pad chk"
  have "(bech32_polymod_step ^^ 6) chk = bech32_polymod_step ((bech32_polymod_step ^^ 5) chk)"
    by (simp add: numeral_eq_Suc)
  then have "take_bit 30 ?p = ?p" by (simp only: polymod_pad_def step_fits)
  then have "take_bit 30 (?p XOR 1) = ?p XOR 1" by (simp add: take_bit_xor)
  then have "absorb (spell (?p XOR 1)) 0 = ?p XOR 1" by (rule absorb_spell)
  moreover have "length (spell (?p XOR 1)) = 6" by (simp add: spell_def)
  ultimately show ?thesis
    using absorb_split [of "spell (?p XOR 1)" chk]
    by (simp add: polymod_pad_def [symmetric] xor.assoc xor.commute xor.left_commute)
qed

text \<open>A difference of at most thirty bits survives any number of steps.\<close>

lemma steps_nonzero:
  "take_bit 30 x = x \<Longrightarrow> x \<noteq> 0 \<Longrightarrow> (bech32_polymod_step ^^ n) x \<noteq> 0"
proof (induction n)
  case (Suc n)
  have "take_bit 30 ((bech32_polymod_step ^^ n) x) = (bech32_polymod_step ^^ n) x"
    using Suc.prems by (cases n) (simp_all add: step_fits)
  with Suc step_zero_imp [of "(bech32_polymod_step ^^ n) x"] show ?case by auto
qed simp

lemma absorb_update:
  assumes "j < length vs"
  shows "absorb (vs[j := w]) chk =
    absorb vs chk XOR (bech32_polymod_step ^^ (length vs - Suc j)) (vs ! j XOR w)"
proof -
  let ?c = "bech32_polymod_step (absorb (take j vs) chk)"
  have "absorb (vs[j := w]) chk = absorb (drop (Suc j) vs) ((?c XOR vs ! j) XOR (vs ! j XOR w))"
    using assms by (simp add: upd_conv_take_nth_drop absorb_append xor.assoc)
  also have "\<dots> = absorb (drop (Suc j) vs) (?c XOR vs ! j) XOR
      (bech32_polymod_step ^^ (length vs - Suc j)) (vs ! j XOR w)"
    by (simp add: absorb_xor)
  also have "absorb (drop (Suc j) vs) (?c XOR vs ! j) = absorb vs chk"
    using id_take_nth_drop [OF assms] by (metis absorb_append absorb_simps(2))
  finally show ?thesis .
qed

lemma absorb_update_differs:
  assumes "j < length vs" and "take_bit 5 w = w" and "take_bit 5 (vs ! j) = vs ! j" and "w \<noteq> vs ! j"
  shows "absorb (vs[j := w]) chk \<noteq> absorb vs chk"
proof -
  let ?d = "vs ! j XOR w"
  have d: "take_bit 5 ?d = ?d" using assms(2,3) by (simp add: take_bit_xor)
  have "take_bit 30 (take_bit 5 ?d) = take_bit 5 ?d"
    unfolding take_bit_take_bit by (simp only: min.absorb2)
  then have "take_bit 30 ?d = ?d" by (simp only: d)
  moreover have "?d \<noteq> 0" using assms(4) by (simp add: xor_eq_0_iff)
  ultimately have "(bech32_polymod_step ^^ (length vs - Suc j)) ?d \<noteq> 0" by (rule steps_nonzero)
  with absorb_update [OF assms(1), of w chk] show ?thesis by (simp add: xor_cancel_iff)
qed

end
