(* ===== verification/Bech32_Field.thy ===== *)
theory Bech32_Field
  imports Bech32_Checksum
begin

text \<open>
  The thirty bits of a checksum state of \<open>src/segwit_addr.cc\<close> are six symbols of five bits, elements
  of the field of 32 elements. \<open>bech32_polymod_step\<close> commutes with the multiplication of all six
  symbols by a field element, so what one wrong symbol leaves in the state \<open>n\<close> steps later is, up to
  such a factor, row \<open>n\<close> of one table; the table is checked row by row.
\<close>

section \<open>Multiplication of the symbols\<close>

text \<open>
  Every symbol times the generator \<open>2\<close> of the field: a shift within the symbol, and the carry out
  of bit 4 comes back as bits 0 and 3 (\<open>x ^ 5 = x ^ 3 + 1\<close>).
\<close>

definition dbl :: "u32 \<Rightarrow> u32" where
  "dbl x = push_bit 1 (x AND 0x1EF7BDEF) XOR (drop_bit 4 x AND 0x02108421)
     XOR push_bit 3 (drop_bit 4 x AND 0x02108421)"

lemma dbl_xor: "dbl (x XOR y) = dbl x XOR dbl y"
  by (rule bit_eqI) (auto simp: dbl_def bit_simps)

lemma dbl_0 [simp]: "dbl 0 = 0"
  by (simp add: dbl_def)

lemmas dbl_eval = dbl_def [of 1] dbl_def [of "numeral n" for n]

text \<open>Two maps that respect XOR agree on 30 bits when they agree on the thirty powers of two.\<close>

definition additive :: "(u32 \<Rightarrow> u32) \<Rightarrow> bool" where
  "additive f \<longleftrightarrow> (\<forall>x y. f (x XOR y) = f x XOR f y)"

lemma take_bit_Suc_xor:
  "take_bit (Suc n) (x :: u32) = take_bit n x XOR (if bit x n then push_bit n 1 else 0)"
  by (rule bit_eqI) (auto simp: bit_simps less_Suc_eq)

lemma additive_eqI:
  assumes "additive f" and "additive g"
    and basis: "list_all (\<lambda>b. f b = g b) (map (\<lambda>n. push_bit n 1) [0..<30])"
    and x: "take_bit 30 x = x"
  shows "f x = g x"
proof -
  have zero: "h 0 = 0" if "additive h" for h :: "u32 \<Rightarrow> u32"
    using that unfolding additive_def by (metis xor_self_eq)
  have "f (take_bit n x) = g (take_bit n x)" if "n \<le> 30" for n
    using that
  proof (induction n)
    case 0
    then show ?case using zero [OF assms(1)] zero [OF assms(2)] by simp
  next
    case (Suc n)
    then have "n \<in> {0..<30}" by simp
    then have "f (push_bit n 1) = g (push_bit n 1)"
      using basis unfolding list_all_iff by fastforce
    then show ?case
      using Suc assms(1,2) zero [OF assms(1)] zero [OF assms(2)]
      by (simp add: take_bit_Suc_xor additive_def)
  qed
  from this [of 30] x show ?thesis by simp
qed

lemma basis_list:
  "map (\<lambda>n. push_bit n 1) [0..<30] = ([1, 2, 4, 8, 16, 32, 64, 128, 256, 512, 1024, 2048, 4096, 8192, 16384, 32768,
     65536, 131072, 262144, 524288, 1048576, 2097152, 4194304, 8388608, 16777216, 33554432, 67108864, 134217728, 268435456, 536870912] :: u32 list)"
  by (simp add: upt_rec)

lemmas additive_step = additive_def dbl_xor step_xor xor.assoc xor.left_commute xor.commute

lemma step_dbl:
  assumes "take_bit 30 x = x"
  shows "bech32_polymod_step (dbl x) = dbl (bech32_polymod_step x)"
proof (rule additive_eqI [OF _ _ _ assms])
  show "list_all (\<lambda>b. bech32_polymod_step (dbl b) = dbl (bech32_polymod_step b))
      (map (\<lambda>n. push_bit n 1) [0..<30])"
    unfolding basis_list by (simp add: step_eq gen_term_def dbl_eval)
qed (simp_all add: additive_step)

lemma dbl_5:
  assumes "take_bit 30 x = x"
  shows "dbl (dbl (dbl (dbl (dbl x)))) = dbl (dbl (dbl x)) XOR x"
proof (rule additive_eqI [OF _ _ _ assms])
  show "list_all (\<lambda>b. dbl (dbl (dbl (dbl (dbl b)))) = dbl (dbl (dbl b)) XOR b)
      (map (\<lambda>n. push_bit n 1) [0..<30])"
    unfolding basis_list by (simp add: dbl_eval)
qed (simp_all add: additive_step)

lemma dbl_drop_bit:
  assumes "take_bit 30 x = x"
  shows "dbl (drop_bit 5 x) = drop_bit 5 (dbl x)"
proof (rule additive_eqI [OF _ _ _ assms])
  show "list_all (\<lambda>b. dbl (drop_bit 5 b) = drop_bit 5 (dbl b)) (map (\<lambda>n. push_bit n 1) [0..<30])"
    unfolding basis_list by (simp add: dbl_eval)
qed (simp_all add: additive_step)

lemma dbl_take_bit:
  assumes "take_bit 30 x = x"
  shows "dbl (take_bit 5 x) = take_bit 5 (dbl x)"
proof (rule additive_eqI [OF _ _ _ assms])
  show "list_all (\<lambda>b. dbl (take_bit 5 b) = take_bit 5 (dbl b)) (map (\<lambda>n. push_bit n 1) [0..<30])"
    unfolding basis_list by (simp add: dbl_eval)
qed (simp_all add: additive_step)

lemma dbl_fits: "take_bit 30 (dbl x) = dbl x"
  unfolding dbl_def take_bit_xor take_bit_push_bit take_bit_and
  by (simp add: take_bit_eq_mask mask_numeral and.assoc)

lemma dbl_eq_0: "take_bit 30 x = x \<Longrightarrow> dbl x = 0 \<longleftrightarrow> x = 0"
  using dbl_5 [of x] by auto

lemma dbls_fit: "take_bit 30 x = x \<Longrightarrow> take_bit 30 ((dbl ^^ k) x) = (dbl ^^ k) x"
  by (cases k) (simp_all add: dbl_fits)

lemma dbls_eq_0: "take_bit 30 x = x \<Longrightarrow> (dbl ^^ k) x = 0 \<longleftrightarrow> x = 0"
  by (induction k) (simp_all add: dbl_eq_0 dbls_fit)

lemma dbls_xor: "(dbl ^^ k) (x XOR y) = (dbl ^^ k) x XOR (dbl ^^ k) y"
  by (induction k) (simp_all add: dbl_xor)

lemma take_bit_xor_fits:
  "take_bit n (x :: u32) = x \<Longrightarrow> take_bit n y = y \<Longrightarrow> take_bit n (x XOR y) = x XOR y"
  by (simp add: take_bit_xor)

lemma dbls_inj:
  assumes "take_bit 30 x = x" and "take_bit 30 y = y" and "(dbl ^^ k) x = (dbl ^^ k) y"
  shows "x = y"
proof -
  have "(dbl ^^ k) (x XOR y) = 0" using assms(3) by (simp add: dbls_xor)
  then show ?thesis
    using dbls_eq_0 [OF take_bit_xor_fits [OF assms(1,2)]] by (simp add: xor_eq_0_iff)
qed

lemma step_dbls:
  "take_bit 30 x = x \<Longrightarrow> bech32_polymod_step ((dbl ^^ k) x) = (dbl ^^ k) (bech32_polymod_step x)"
  by (induction k) (simp_all add: step_dbl dbls_fit)

lemma drop_dbls:
  "take_bit 30 x = x \<Longrightarrow> drop_bit 5 ((dbl ^^ k) x) = (dbl ^^ k) (drop_bit 5 x)"
  by (induction k) (simp_all add: dbl_drop_bit [symmetric] dbls_fit)

text \<open>Every symbol times the field element \<open>c\<close>.\<close>

definition scale :: "u32 \<Rightarrow> u32 \<Rightarrow> u32" where
  "scale c x = (if bit c 0 then x else 0) XOR (if bit c 1 then dbl x else 0) XOR
     (if bit c 2 then dbl (dbl x) else 0) XOR (if bit c 3 then dbl (dbl (dbl x)) else 0) XOR
     (if bit c 4 then dbl (dbl (dbl (dbl x))) else 0)"

lemma five_bit_cases:
  assumes "take_bit 5 c = (c :: u32)"
  shows "c \<in> {0, 1, 2, 3, 4, 5, 6, 7, 8, 9, 10, 11, 12, 13, 14, 15, 16, 17, 18, 19, 20, 21, 22, 23,
    24, 25, 26, 27, 28, 29, 30, 31}"
proof -
  have "unat c = take_bit 5 (unat c)" using assms by (metis unsigned_take_bit_eq)
  then have "unat c < 32" using take_bit_nat_less_exp [of 5 "unat c"] by simp
  then have "unat c \<in> set [0..<32]" by simp
  then have "of_nat (unat c) \<in> (of_nat ` set [0..<32] :: u32 set)" by (rule imageI)
  then show ?thesis by (simp add: upt_rec)
qed

lemma scale_dbl:
  assumes "take_bit 5 c = c" and "take_bit 30 x = x"
  shows "scale (dbl c) x = dbl (scale c x)"
  using five_bit_cases [OF assms(1)]
  by (elim insertE emptyE) (simp_all add: scale_def dbl_eval dbl_xor dbl_5 assms(2)
      xor.assoc xor.left_commute xor.commute)

lemma take_bit_30_5:
  assumes "take_bit 5 c = (c :: u32)"
  shows "take_bit 30 c = c"
proof -
  have "take_bit 30 (take_bit 5 c) = take_bit 5 c"
    unfolding take_bit_take_bit by (simp only: min.absorb2)
  then show ?thesis by (simp only: assms)
qed

lemma dbls_scale:
  assumes "take_bit 30 x = x"
  shows "(dbl ^^ k) x = scale ((dbl ^^ k) 1) x"
proof (induction k)
  case (Suc k)
  have "take_bit 5 ((dbl ^^ k) 1) = (dbl ^^ k) 1" for k
    by (induction k) (simp_all add: dbl_take_bit [symmetric] dbls_fit)
  with Suc show ?case by (simp add: scale_dbl assms)
qed (simp add: scale_def)

section \<open>The tables\<close>

text \<open>The nonzero field elements are the powers of the generator.\<close>

fun doubling :: "u32 list \<Rightarrow> bool" where
  "doubling (x # y # zs) \<longleftrightarrow> y = dbl x \<and> doubling (y # zs)"
| "doubling zs \<longleftrightarrow> True"

lemma doubling_power: "doubling (x # zs) \<Longrightarrow> y \<in> set (x # zs) \<Longrightarrow> \<exists>k. y = (dbl ^^ k) x"
proof (induction zs arbitrary: x)
  case (Cons z zs)
  show ?case
  proof (cases "y = x")
    case True
    then show ?thesis by (intro exI [of _ 0]) simp
  next
    case False
    with Cons obtain k where "y = (dbl ^^ k) (dbl x)" by auto
    then show ?thesis by (intro exI [of _ "Suc k"]) (simp add: funpow_swap1)
  qed
qed (auto intro: exI [of _ 0])

definition field_powers :: "u32 list" where
  "field_powers = [
    1, 2, 4, 8, 16, 9, 18, 13, 26, 29, 19, 15, 30, 21, 3, 6, 12, 24, 25, 27, 31, 23, 7, 14,
     28, 17, 11, 22, 5, 10, 20]"

lemma five_bit_power:
  assumes "take_bit 5 c = c" and "c \<noteq> 0"
  shows "\<exists>k. c = (dbl ^^ k) 1"
proof (rule doubling_power)
  show "doubling (1 # tl field_powers)" by (simp add: field_powers_def dbl_eval)
  show "c \<in> set (1 # tl field_powers)"
    using five_bit_cases [OF assms(1)] assms(2) by (simp add: field_powers_def) blast
qed

text \<open>
  Row \<open>n\<close> is what a wrong symbol leaves in the state \<open>n\<close> steps later, divided by the first nonzero
  symbol above the last one; \<open>row_factors\<close> holds the divisor of each row.
\<close>

definition rows :: "u32 list" where
  "rows = [
    1, 32, 1024, 32768, 1048576, 33554432, 60538917, 406213695, 104636468, 695292990,
     311223336, 63544364, 612770878, 629152811, 313919529, 320695349, 662330406, 456101933,
     1031501877, 7217208, 349965344, 11350053, 83730464, 105225253, 276278321, 463525930,
     1031574570, 10464317, 754719776, 645393445, 1012158512, 207803446, 638926894,
     386443304, 20058150, 396144672, 94672933, 1005954095, 915532859, 550473781, 51708942,
     607395894, 971718714, 767600697, 987462698, 1060938793, 558304318, 314619942,
     126057507, 1059294261, 186837042, 32080901, 223608864, 1017902117, 270575678,
     824574980, 450587710, 589973549, 528870440, 85650486, 551010355, 161620011, 528186418,
     770609203, 709111857, 864653358, 630620205, 590992440, 211908662, 366460974, 782922807,
     340565045, 931350585, 402807842, 212021310, 386500671, 28993591, 366791712, 191868965,
     1036824629, 593141816, 307623990, 149536810, 293520431, 519951398, 835886132,
     443117608, 757845039]"

definition row_factors :: "u32 list" where
  "row_factors = [
    1, 1, 1, 1, 1, 29, 24, 14, 26, 4, 11, 17, 24, 13, 10, 22, 29, 1, 2, 24, 13, 5, 19, 11,
     15, 6, 29, 29, 9, 30, 7, 10, 21, 24, 6, 16, 22, 22, 30, 25, 19, 16, 30, 16, 19, 3, 11,
     5, 13, 31, 18, 5, 28, 18, 13, 15, 18, 5, 23, 5, 6, 4, 13, 26, 22, 24, 11, 16, 10, 3, 3,
     24, 28, 19, 2, 15, 23, 13, 23, 2, 16, 21, 5, 17, 25, 31, 4]"

fun linked :: "u32 list \<Rightarrow> u32 list \<Rightarrow> bool" where
  "linked (x # y # zs) (c # cs) \<longleftrightarrow>
     bech32_polymod_step x = scale c y \<and> c \<noteq> 0 \<and> take_bit 5 c = c \<and> linked (y # zs) cs"
| "linked zs cs \<longleftrightarrow> True"

lemma linked_nth:
  "linked xs cs \<Longrightarrow> p < length cs \<Longrightarrow> Suc p < length xs \<Longrightarrow>
     \<exists>c. c \<noteq> 0 \<and> take_bit 5 c = c \<and> bech32_polymod_step (xs ! p) = scale c (xs ! Suc p)"
proof (induction xs cs arbitrary: p rule: linked.induct)
  case (1 x y zs c cs)
  then show ?case by (cases p) auto
qed auto

lemmas step_eval = step_eq [of 1] step_eq [of "numeral n" for n]

lemma rows_linked: "linked rows row_factors"
  by (simp add: rows_def row_factors_def step_eval gen_term_def scale_def dbl_eval)

lemma rows_fit: "\<forall>v \<in> set rows. take_bit 30 v = v"
  by (simp add: rows_def)

lemma length_rows: "length rows = 88" "length row_factors = 87"
  by (simp_all add: rows_def row_factors_def)

text \<open>The lowest nonzero symbol.\<close>

primrec lead :: "nat \<Rightarrow> u32 \<Rightarrow> u32" where
  "lead 0 x = 0"
| "lead (Suc n) x = (if take_bit 5 x = 0 then lead n (drop_bit 5 x) else take_bit 5 x)"

lemma lead_0 [simp]: "lead n 0 = 0"
  by (induction n) simp_all

lemma lead_numeral:
  "lead (numeral n) x =
     (if take_bit 5 x = 0 then lead (pred_numeral n) (drop_bit 5 x) else take_bit 5 x)"
  by (simp add: numeral_eq_Suc)

definition above :: "nat \<Rightarrow> u32" where
  "above p = drop_bit 5 (rows ! p)"

lemma rows_lead: "\<forall>v \<in> set (tl rows). lead 5 (drop_bit 5 v) = 1"
  by (simp add: rows_def lead_numeral)

lemma rows_above:
  "map (\<lambda>v. uint (drop_bit 5 v)) (tl rows) = [
    1, 32, 1024, 32768, 1048576, 1891841, 12694177, 3269889, 21727905, 9725729, 1985761,
     19149089, 19661025, 9809985, 10021729, 20697825, 14253185, 32234433, 225537, 10936417,
     354689, 2616577, 3288289, 8633697, 14485185, 32236705, 327009, 23584993, 20168545,
     31629953, 6493857, 19966465, 12076353, 626817, 12379521, 2958529, 31436065, 28610401,
     17202305, 1615904, 18981121, 30366209, 23987521, 30858209, 33154337, 17447009, 9831873,
     3939297, 33102945, 5838657, 1002528, 6987777, 31809441, 8455489, 25767968, 14080865,
     18436673, 16527201, 2676577, 17219073, 5050625, 16505825, 24081537, 22159745, 27020417,
     19706881, 18468513, 6622145, 11451905, 24466337, 10642657, 29104705, 12587745, 6625665,
     12078145, 906049, 11462241, 5995905, 32400769, 18535681, 9613249, 4673025, 9172513,
     16248481, 26121441, 13847425, 23682657]"
  by (simp add: rows_def)

lemma rows_distinct: "distinct (map (\<lambda>v. uint (drop_bit 5 v)) (tl rows))"
  unfolding rows_above by simp
end
