(* ===== verification/Bech32_Correct.thy ===== *)
theory Bech32_Correct
  imports Bech32_Checksum
begin

text \<open>
  What \<open>bech32_encode\<close> and \<open>bech32_decode\<close> promise each other: strings the encoder makes decode to
  what went in, a substituted character is refused, and when the decoder keeps to its buffers.
\<close>

section \<open>Characters\<close>

definition hrp_char :: "u8 \<Rightarrow> bool" where
  "hrp_char c \<longleftrightarrow> 33 \<le> sint c \<and> sint c \<le> 126"

definition lower_char :: "u8 \<Rightarrow> bool" where
  "lower_char c \<longleftrightarrow> 97 \<le> sint c \<and> sint c \<le> 122"

definition upper_char :: "u8 \<Rightarrow> bool" where
  "upper_char c \<longleftrightarrow> 65 \<le> sint c \<and> sint c \<le> 90"

definition char_u32 :: "u8 \<Rightarrow> u32" where
  "char_u32 c = word_of_int (char_value c)"

lemma charset_table:
  "\<forall>d \<in> set [0..<32]. char_value (charset ! d) = int d \<and> charset ! d \<noteq> sep
     \<and> \<not> upper_char (charset ! d)"
  by (simp add: charset_def char_value_def charset_rev_def upper_char_def upt_rec)

lemma charset_fits:
  assumes "drop_bit 5 (d :: u8) = 0"
  shows "char_value (charset ! unat d) = uint d" and "charset ! unat d \<noteq> sep"
    and "\<not> upper_char (charset ! unat d)"
proof -
  have "unat d div 32 = 0"
    using arg_cong [OF assms, of unat] by (simp add: drop_bit_eq_div unat_div)
  then have "unat d < 32" by (simp add: div_eq_0_iff)
  then show "char_value (charset ! unat d) = uint d" and "charset ! unat d \<noteq> sep"
    and "\<not> upper_char (charset ! unat d)"
    using bspec [OF charset_table, of "unat d"] by simp_all
qed

lemma char_value_range: "char_value c = - 1 \<or> 0 \<le> char_value c \<and> char_value c < 32"
proof -
  have "\<forall>v \<in> set charset_rev. v = - 1 \<or> 0 \<le> v \<and> v < 32" and "length charset_rev = 128"
    by (simp_all add: charset_rev_def)
  moreover have "unat c < 128" if "c AND 0x80 = 0"
  proof -
    from that have "\<not> bit c 7" using and_exp_eq_0_iff_not_bit [of c 7] by simp
    then have "take_bit 7 c = c"
      by (intro bit_word_eqI) (auto simp: bit_take_bit_iff less_Suc_eq numeral_eq_Suc)
    then have "unat c = take_bit 7 (unat c)" by (metis unsigned_take_bit_eq)
    then show ?thesis using take_bit_nat_less_exp [of 7 "unat c"] by simp
  qed
  ultimately show ?thesis by (simp add: char_value_def)
qed

lemma char_u32_fits: "take_bit 5 (char_u32 c) = char_u32 c" if "char_value c \<noteq> - 1"
proof -
  have "take_bit 5 (char_value c) = char_value c"
    using char_value_range [of c] that by (simp add: take_bit_int_eq_self_iff)
  then show ?thesis unfolding char_u32_def by (metis take_bit_of_int)
qed

lemma char_u32_inj:
  assumes "char_value c \<noteq> - 1" and "char_value d \<noteq> - 1" and "char_value c \<noteq> char_value d"
  shows "char_u32 c \<noteq> char_u32 d"
proof -
  have "uint (char_u32 x) = char_value x" if "char_value x \<noteq> - 1" for x
    using char_value_range [of x] that by (simp add: char_u32_def uint_word_of_int_eq take_bit_int_eq_self_iff)
  with assms show ?thesis by metis
qed

section \<open>The loops in closed form\<close>

definition hrp_high_values :: "u8 list \<Rightarrow> u32 list" where
  "hrp_high_values = map (\<lambda>c. word_of_int (drop_bit 5 (sint c)))"

definition hrp_low_values :: "u8 list \<Rightarrow> u32 list" where
  "hrp_low_values = map (\<lambda>c. word_of_int (sint c AND 0x1f))"

lemma enc_hrp_high_eq:
  "\<forall>c \<in> set hrp. hrp_char c \<Longrightarrow> enc_hrp_high hrp chk = Some (absorb (hrp_high_values hrp) chk)"
proof (induction hrp arbitrary: chk)
  case (Cons c hrp)
  then have "drop_bit 5 (sint c) \<noteq> 0" by (auto simp: hrp_char_def drop_bit_eq_div)
  with Cons show ?case by (simp add: hrp_high_values_def)
qed (simp add: hrp_high_values_def)

lemma hrp_low_eq: "hrp_low hrp chk = absorb (hrp_low_values hrp) chk"
  by (induction hrp chk rule: hrp_low.induct) (simp_all add: hrp_low_values_def)

lemma enc_data_eq:
  "\<forall>d \<in> set data. drop_bit 5 d = 0 \<Longrightarrow>
     enc_data data chk out =
       (out @ map (\<lambda>d. charset ! unat d) data, Some (absorb (map ucast data) chk))"
  by (induction data arbitrary: chk out) simp_all

lemma checksum_chars_eq: "checksum_chars chk = map (\<lambda>v. charset ! unat v) (spell chk)"
proof -
  have "x AND 0x1f = take_bit 5 x" for x :: u32
    by (simp add: take_bit_eq_mask mask_numeral mask_eq_exp_minus_1)
  then show ?thesis by (simp add: checksum_chars_def spell_def)
qed

lemma dec_sep_eq:
  "n \<le> length (takeWhile (\<lambda>c. c \<noteq> sep) (rev input)) \<Longrightarrow>
     dec_sep input n = length (takeWhile (\<lambda>c. c \<noteq> sep) (rev input))"
proof (induction input n rule: dec_sep.induct)
  case (1 input n)
  let ?w = "takeWhile (\<lambda>c. c \<noteq> sep) (rev input)"
  have le: "length ?w \<le> length input" using length_takeWhile_le [of _ "rev input"] by simp
  show ?case
  proof (cases "n = length ?w")
    case True
    then have "n < length input \<Longrightarrow> input ! (length input - 1 - n) = sep"
      using nth_length_takeWhile [of "\<lambda>c. c \<noteq> sep" "rev input"] by (simp add: rev_nth)
    then show ?thesis using True by (subst dec_sep.simps) auto
  next
    case False
    with "1.prems" have n: "n < length ?w" by simp
    then have "?w ! n \<in> set ?w" by simp
    then have "?w ! n \<noteq> sep" using set_takeWhileD by metis
    then have "rev input ! n \<noteq> sep" using n by (simp only: takeWhile_nth) simp
    with n le have g: "n < length input \<and> input ! (length input - 1 - n) \<noteq> sep" by (simp add: rev_nth)
    have "dec_sep input n = dec_sep input (n + 1)"
      by (subst dec_sep.simps) (simp only: g simp_thms if_True)
    also have "\<dots> = length ?w" using "1.IH" [OF g] n by simp
    finally show ?thesis .
  qed
qed

lemma dec_sep_takeWhile: "dec_sep input 0 = length (takeWhile (\<lambda>c. c \<noteq> sep) (rev input))"
  by (rule dec_sep_eq) simp

lemma dec_sep_split:
  assumes "sep \<notin> set suf"
  shows "dec_sep (pre @ sep # suf) 0 = length suf"
proof -
  have "takeWhile (\<lambda>c. c \<noteq> sep) (rev suf @ sep # rev pre) = rev suf"
    using assms by (intro takeWhile_tail [THEN trans] takeWhile_append2 [THEN trans]) auto
  then show ?thesis by (simp add: dec_sep_takeWhile)
qed

lemma dec_sep_none: "sep \<notin> set input \<Longrightarrow> dec_sep input 0 = length input"
proof -
  assume "sep \<notin> set input"
  then have "takeWhile (\<lambda>c. c \<noteq> sep) (rev input) = rev input"
    by (auto simp: takeWhile_eq_all_conv)
  from arg_cong [OF this, of length] show ?thesis by (simp only: dec_sep_takeWhile length_rev)
qed

definition fold_case :: "u8 \<Rightarrow> u8" where
  "fold_case c = (if upper_char c then word_of_int (sint c - 65 + 97) else c)"

lemma sint_fold_case:
  "hrp_char c \<Longrightarrow> sint (fold_case c) = (if upper_char c then sint c + 32 else sint c)"
proof (cases "upper_char c")
  case True
  then have "sint (word_of_int (sint c - 65 + 97) :: u8) = sint c - 65 + 97"
    by (intro sint_word_of_int_small) (simp_all add: upper_char_def)
  with True show ?thesis by (simp only: fold_case_def if_True)
qed (simp add: fold_case_def)

lemma dec_hrp_Cons:
  "dec_hrp cap (c # cs) hrp chk lower upper =
     (if \<not> hrp_char c then Inr None
      else if length hrp < cap
      then dec_hrp cap cs (hrp @ [fold_case c])
             (bech32_polymod_step chk XOR word_of_int (drop_bit 5 (sint (fold_case c))))
             (lower \<or> lower_char c) (upper \<or> upper_char c)
      else Inl OutOfBounds)"
proof (cases "hrp_char c")
  case True
  then have v: "\<not> (sint c < 33 \<or> 126 < sint c)" by (auto simp: hrp_char_def)
  have f: "(if \<not> lower_char c \<and> upper_char c then sint c - 65 + 97 else sint c) = sint (fold_case c)"
    using sint_fold_case [OF True] by (auto simp: lower_char_def upper_char_def)
  show ?thesis
    using True v f by (simp add: Let_def lower_char_def upper_char_def)
qed (auto simp: hrp_char_def)

declare dec_hrp.simps(2) [simp del]

lemma dec_hrp_eq:
  "\<forall>c \<in> set cs. hrp_char c \<Longrightarrow> length hrp + length cs \<le> cap \<Longrightarrow>
     dec_hrp cap cs hrp chk lower upper =
       Inr (Some (hrp @ map fold_case cs, absorb (hrp_high_values (map fold_case cs)) chk,
         lower \<or> (\<exists>c \<in> set cs. lower_char c), upper \<or> (\<exists>c \<in> set cs. upper_char c)))"
  by (induction cs arbitrary: hrp chk lower upper) (auto simp: hrp_high_values_def dec_hrp_Cons)

lemma dec_hrp_overflow:
  "\<forall>c \<in> set cs. hrp_char c \<Longrightarrow> length hrp \<le> cap \<Longrightarrow> cap < length hrp + length cs \<Longrightarrow>
     dec_hrp cap (cs @ ds) hrp chk lower upper = Inl OutOfBounds"
  by (induction cs arbitrary: hrp chk lower upper) (auto simp: dec_hrp_Cons)

lemma dec_hrp_safe:
  "length hrp + length cs \<le> cap \<Longrightarrow> \<exists>r. dec_hrp cap cs hrp chk lower upper = Inr r"
  by (induction cs arbitrary: hrp chk lower upper) (simp_all add: dec_hrp_Cons)

lemma dec_hrp_Some_chars:
  "dec_hrp cap cs hrp chk lower upper = Inr (Some r) \<Longrightarrow> \<forall>c \<in> set cs. hrp_char c"
  by (induction cs arbitrary: hrp chk lower upper) (auto simp: dec_hrp_Cons split: if_splits)

lemma dec_hrp_length:
  "dec_hrp cap cs hrp chk lower upper = Inr (Some (hrp', r)) \<Longrightarrow>
     length hrp' = length hrp + length cs"
  by (induction cs arbitrary: hrp chk lower upper) (auto simp: dec_hrp_Cons split: if_splits)

lemma dec_data_Cons:
  "dec_data cap (c # cs) chk lower upper data =
     (if char_value c = - 1 then Inr None
      else if 6 \<le> length cs \<and> cap \<le> length data then Inl OutOfBounds
      else dec_data cap cs (bech32_polymod_step chk XOR char_u32 c) (lower \<or> lower_char c)
        (upper \<or> upper_char c) (if 6 \<le> length cs then data @ [word_of_int (char_value c)] else data))"
  by (simp add: Let_def char_u32_def lower_char_def upper_char_def)

declare dec_data.simps(2) [simp del]

lemma dec_data_eq:
  "\<forall>c \<in> set cs. char_value c \<noteq> - 1 \<Longrightarrow> length data + (length cs - 6) \<le> cap \<Longrightarrow>
     dec_data cap cs chk lower upper data =
       Inr (Some (absorb (map char_u32 cs) chk, lower \<or> (\<exists>c \<in> set cs. lower_char c),
         upper \<or> (\<exists>c \<in> set cs. upper_char c),
         data @ map (\<lambda>c. word_of_int (char_value c)) (take (length cs - 6) cs)))"
proof (induction cs arbitrary: chk lower upper data)
  case (Cons c cs)
  show ?case
  proof (cases "6 \<le> length cs")
    case True
    then have "length (c # cs) - 6 = Suc (length cs - 6)" by simp
    then have "take (length (c # cs) - 6) (c # cs) = c # take (length cs - 6) cs"
      by (simp only: take_Suc_Cons)
    with True Cons show ?thesis by (auto simp: dec_data_Cons)
  next
    case False
    with Cons show ?thesis by (auto simp: dec_data_Cons)
  qed
qed simp

lemma dec_data_safe:
  "length data + (length cs - 6) \<le> cap \<Longrightarrow> \<exists>r. dec_data cap cs chk lower upper data = Inr r"
  by (induction cs arbitrary: chk lower upper data) (auto simp: dec_data_Cons)

lemma dec_data_Some:
  "dec_data cap cs chk lower upper data = Inr (Some r) \<Longrightarrow>
     (\<forall>c \<in> set cs. char_value c \<noteq> - 1) \<and> (6 < length cs \<longrightarrow> length data + (length cs - 6) \<le> cap)"
proof (induction cs arbitrary: chk lower upper data)
  case (Cons c cs)
  then have "char_value c \<noteq> - 1" and b: "\<not> (6 \<le> length cs \<and> cap \<le> length data)"
    by (auto simp: dec_data_Cons split: if_splits)
  with Cons.prems Cons.IH show ?case by (fastforce simp: dec_data_Cons split: if_splits)
qed simp

lemma dec_data_None:
  assumes "length data + (length cs - 6) \<le> cap" and "\<exists>c \<in> set cs. char_value c = - 1"
  shows "dec_data cap cs chk lower upper data = Inr None"
proof -
  from dec_data_safe [OF assms(1)] obtain r where r: "dec_data cap cs chk lower upper data = Inr r"
    by blast
  with assms(2) dec_data_Some [of cap cs chk lower upper data] show ?thesis by (cases r) auto
qed

section \<open>Encoding and decoding\<close>

definition encodable_hrp :: "u8 list \<Rightarrow> bool" where
  "encodable_hrp hrp \<longleftrightarrow> hrp \<noteq> [] \<and> (\<forall>c \<in> set hrp. hrp_char c \<and> \<not> upper_char c)"

definition five_bit :: "u8 list \<Rightarrow> bool" where
  "five_bit data \<longleftrightarrow> (\<forall>d \<in> set data. drop_bit 5 d = 0)"

definition symbols :: "u8 list \<Rightarrow> u8 list" where
  "symbols = map (\<lambda>d. charset ! unat d)"

text \<open>The string without its terminating NUL.\<close>

definition bech32_string :: "u8 list \<Rightarrow> u8 list \<Rightarrow> u8 list" where
  "bech32_string hrp data = hrp @ sep # symbols data @
     symbols (map ucast (spell (polymod_pad (absorb (map ucast data)
       (absorb (hrp_low_values hrp) (bech32_polymod_step (absorb (hrp_high_values hrp) 1)))) XOR 1)))"

lemma spell_symbols: "map (\<lambda>v. charset ! unat v) (spell x) = symbols (map ucast (spell x))"
proof -
  have "unat (ucast (take_bit 5 y :: u32) :: u8) = unat (take_bit 5 y)" for y :: u32
    by (simp add: unsigned_ucast_eq take_bit_take_bit unsigned_take_bit_eq)
  then show ?thesis by (simp add: symbols_def spell_def)
qed

lemma five_bit_spell: "five_bit (map ucast (spell x))"
proof -
  have "drop_bit 5 (ucast (take_bit 5 y :: u32) :: u8) = 0" for y :: u32
    by (intro bit_word_eqI) (auto simp: bit_simps)
  then show ?thesis by (auto simp: five_bit_def spell_def)
qed

lemma spell_ucast: "map ucast (map ucast (spell x) :: u8 list) = spell x"
proof -
  have "ucast (ucast (take_bit 5 y :: u32) :: u8) = take_bit 5 y" for y :: u32
    by (intro bit_word_eqI) (auto simp: bit_simps)
  then show ?thesis by (simp add: spell_def)
qed

lemma bech32_encode_eq:
  assumes "\<forall>c \<in> set hrp. hrp_char c" and "five_bit data"
  shows "bech32_encode hrp data = (bech32_string hrp data @ [0], True)"
  using assms by (simp add: bech32_encode_def bech32_string_def enc_hrp_high_eq enc_data_eq
      hrp_low_eq five_bit_def checksum_chars_eq spell_symbols Let_def)
    (simp add: symbols_def)

lemma length_bech32_string: "length (bech32_string hrp data) = length hrp + length data + 7"
  by (simp add: bech32_string_def symbols_def spell_def)

lemma symbols_values:
  assumes "five_bit data"
  shows "map char_u32 (symbols data) = map ucast data"
    and "map (\<lambda>c. word_of_int (char_value c)) (symbols data) = data"
    and "sep \<notin> set (symbols data)"
    and "\<forall>c \<in> set (symbols data). char_value c \<noteq> - 1 \<and> \<not> upper_char c"
proof -
  have d: "char_value (charset ! unat d) = uint d" "charset ! unat d \<noteq> sep"
      "\<not> upper_char (charset ! unat d)" if "d \<in> set data" for d
    using that assms charset_fits [of d] by (auto simp: five_bit_def)
  then show "map (\<lambda>c. word_of_int (char_value c)) (symbols data) = data"
    by (simp add: symbols_def map_idI)
  from d show "map char_u32 (symbols data) = map ucast data"
    by (simp add: symbols_def char_u32_def)
  from d show "sep \<notin> set (symbols data)" by (auto simp: symbols_def)
  have "uint d \<noteq> - 1" for d :: u8 using uint_ge_0 [of d] by linarith
  with d show "\<forall>c \<in> set (symbols data). char_value c \<noteq> - 1 \<and> \<not> upper_char c"
    by (auto simp: symbols_def)
qed

definition decode_parts :: "nat \<Rightarrow> nat \<Rightarrow> u8 list \<Rightarrow> u8 list \<Rightarrow> (u8 list \<times> u8 list) option result" where
  "decode_parts hrp_cap data_cap pre suf =
     bindR (dec_hrp hrp_cap pre [] 1 False False) (\<lambda>r.
       case r of None \<Rightarrow> Inr None
       | Some (hrp, chk1, lower, upper) \<Rightarrow>
           bindR (assertR (length hrp < hrp_cap) OutOfBounds) (\<lambda>_.
             bindR (dec_data data_cap suf (hrp_low pre (bech32_polymod_step chk1)) lower upper [])
               (\<lambda>r. case r of None \<Rightarrow> Inr None
                  | Some (chk3, lower', upper', data) \<Rightarrow>
                      if lower' \<and> upper' then Inr None
                      else if chk3 = 1 then Inr (Some (hrp, data)) else Inr None)))"

lemma decode_parts_Some:
  assumes "decode_parts hrp_cap data_cap pre suf = Inr (Some r)"
  obtains hrp chk1 lower upper l u d where
    "dec_hrp hrp_cap pre [] 1 False False = Inr (Some (hrp, chk1, lower, upper))"
    and "length hrp < hrp_cap"
    and "dec_data data_cap suf (hrp_low pre (bech32_polymod_step chk1)) lower upper []
      = Inr (Some (1, l, u, d))"
proof (cases "dec_hrp hrp_cap pre [] 1 False False")
  case (Inr x)
  with assms obtain hrp chk1 lower upper where x: "x = Some (hrp, chk1, lower, upper)"
    by (cases x) (auto simp: decode_parts_def)
  with Inr assms have cap: "length hrp < hrp_cap"
    by (auto simp: decode_parts_def assertR_def split: if_splits)
  let ?d = "dec_data data_cap suf (hrp_low pre (bech32_polymod_step chk1)) lower upper []"
  from assms Inr x cap obtain y where y: "?d = Inr y"
    by (cases ?d) (simp_all add: decode_parts_def)
  with assms Inr x cap obtain c l u d where "y = Some (c, l, u, d)"
    by (cases y) (auto simp: decode_parts_def)
  with assms Inr x cap y have "?d = Inr (Some (1, l, u, d))"
    by (auto simp: decode_parts_def split: if_splits)
  with that Inr x cap show ?thesis by blast
qed (use assms in \<open>simp add: decode_parts_def\<close>)

lemma decode_parts_total:
  assumes "\<exists>r. dec_hrp hrp_cap pre [] 1 False False = Inr r" and "length pre < hrp_cap"
    and "\<And>chk lower upper. \<exists>r. dec_data data_cap suf chk lower upper [] = Inr r"
  shows "\<exists>r. decode_parts hrp_cap data_cap pre suf = Inr r"
proof -
  from assms(1) obtain x where x: "dec_hrp hrp_cap pre [] 1 False False = Inr x" by blast
  show ?thesis
  proof (cases x)
    case (Some y)
    obtain hrp chk1 lower upper where y: "y = (hrp, chk1, lower, upper)" by (cases y)
    from assms(3) obtain z where
      z: "dec_data data_cap suf (hrp_low pre (bech32_polymod_step chk1)) lower upper [] = Inr z" by blast
    have "length hrp < hrp_cap" using dec_hrp_length [of hrp_cap pre "[]"] x Some y assms(2) by auto
    then show ?thesis using x Some y z by (cases z) (auto simp: decode_parts_def)
  qed (use x in \<open>simp add: decode_parts_def\<close>)
qed

lemma decode_split:
  assumes "sep \<notin> set suf"
  shows "bech32_decode hrp_cap data_cap (pre @ sep # suf) =
    (if length (pre @ sep # suf) < 8 \<or> 90 < length (pre @ sep # suf) \<or> pre = [] \<or> length suf < 6
     then Inr None else decode_parts hrp_cap data_cap pre suf)"
proof -
  let ?s = "pre @ sep # suf"
  have "hrp_length ?s (length suf) = length pre" by (simp add: hrp_length_def)
  note hl = this
  show ?thesis
    unfolding bech32_decode_def decode_parts_def Let_def dec_sep_split [OF assms] hl by simp
qed

lemma decode_no_separator:
  assumes "sep \<notin> set s"
  shows "bech32_decode hrp_cap data_cap s =
    (if length s < 8 \<or> 90 < length s then Inr None
     else case dec_hrp hrp_cap (s @ [0]) [] 1 False False of Inl e \<Rightarrow> Inl e | Inr _ \<Rightarrow> Inr None)"
proof -
  have "hrp_length s (length s) = 2 ^ 64 - 1" by (simp add: hrp_length_def)
  moreover have "dec_hrp hrp_cap (s @ [0]) [] 1 False False \<noteq> Inr (Some r)" for r
    using dec_hrp_Some_chars [of hrp_cap "s @ [0]" "[]" 1 False False r] by (auto simp: hrp_char_def)
  ultimately show ?thesis
    by (auto simp: bech32_decode_def dec_sep_none [OF assms] Let_def split: sum.split option.split)
qed

lemma bech32_string_decodes:
  assumes hrp: "encodable_hrp hrp" and data: "five_bit data"
    and len: "length hrp + length data \<le> 83"
    and caps: "length hrp < hrp_cap" "length data \<le> data_cap"
  shows "bech32_decode hrp_cap data_cap (bech32_string hrp data) = Inr (Some (hrp, data))"
proof -
  let ?s = "bech32_string hrp data"
  define chk where "chk = absorb (hrp_low_values hrp)
    (bech32_polymod_step (absorb (hrp_high_values hrp) 1))"
  define check :: "u8 list" where
    "check = map ucast (spell (polymod_pad (absorb (map ucast data) chk) XOR 1))"
  let ?suf = "symbols (data @ check)"
  have s: "?s = hrp @ sep # ?suf"
    by (simp add: bech32_string_def chk_def check_def symbols_def)
  have five: "five_bit (data @ check)"
    using data five_bit_spell by (auto simp: five_bit_def check_def)
  note vals = symbols_values [OF five]
  have n: "length ?s = length hrp + length data + 7" by (rule length_bech32_string)
  have lc: "length check = 6" by (simp add: check_def spell_def)
  have ne: "0 < length hrp" using hrp by (simp add: encodable_hrp_def)
  have fold: "map fold_case hrp = hrp" and up: "\<not> (\<exists>c \<in> set hrp. upper_char c)"
    using hrp by (auto simp: encodable_hrp_def fold_case_def map_idI)
  have dh: "dec_hrp hrp_cap hrp [] 1 False False =
      Inr (Some (hrp, absorb (hrp_high_values hrp) 1, \<exists>c \<in> set hrp. lower_char c, False))"
    using dec_hrp_eq [of hrp "[]" hrp_cap 1 False False] hrp caps(1) up
    by (simp add: encodable_hrp_def fold)
  have "map char_u32 ?suf = map ucast data @ map ucast check" by (simp only: vals(1) map_append)
  moreover have "map ucast check = spell (polymod_pad (absorb (map ucast data) chk) XOR 1)"
    unfolding check_def by (rule spell_ucast)
  ultimately have "absorb (map char_u32 ?suf) chk = 1"
    by (simp only: absorb_append checksum_closes)
  then have dd: "dec_data data_cap ?suf chk lower False [] =
      Inr (Some (1, lower \<or> (\<exists>c \<in> set ?suf. lower_char c), False, data))" for lower
    using dec_data_eq [of ?suf "[]" data_cap chk lower False] vals caps(2) lc
    by (auto simp: symbols_def)
  show ?thesis
    unfolding s using decode_split [OF vals(3), of hrp_cap data_cap hrp] len ne lc caps(1) dh dd
    by (auto simp: decode_parts_def hrp_low_eq chk_def [symmetric] symbols_def)
qed

text \<open>C18: a string \<open>bech32_encode\<close> makes from a lower-case human readable part and five-bit values,
  of at most ninety characters, is decoded to exactly that part and those values.\<close>

theorem bech32_roundtrip:
  assumes hrp: "encodable_hrp hrp" and data: "five_bit data"
    and len: "length hrp + length data \<le> 83"
    and caps: "length hrp < hrp_cap" "length data \<le> data_cap"
  shows "bech32_encode hrp data = (bech32_string hrp data @ [0], True)
    \<and> bech32_decode hrp_cap data_cap (bech32_string hrp data) = Inr (Some (hrp, data))"
  using bech32_string_decodes [OF assms] hrp data
  by (auto simp: encodable_hrp_def intro!: bech32_encode_eq)

lemma dec_data_substituted:
  assumes dd: "dec_data data_cap suf chk lower upper [] = Inr (Some (1, l0, u0, d0))"
    and n: "6 \<le> length suf" and j: "j < length suf" and cj: "char_value c \<noteq> char_value (suf ! j)"
  shows "\<exists>l u d chk3. (chk3 \<noteq> 1 \<and> dec_data data_cap (suf[j := c]) chk lower upper [] = Inr (Some (chk3, l, u, d)))
      \<or> dec_data data_cap (suf[j := c]) chk lower upper [] = Inr None"
proof -
  let ?suf = "suf[j := c]"
  from dd have ok: "\<forall>c \<in> set suf. char_value c \<noteq> - 1" and dcap: "length suf - 6 \<le> data_cap"
    using dec_data_Some [OF dd] n by (auto simp: not_less)
  have chk: "absorb (map char_u32 suf) chk = 1"
    using dd dec_data_eq [of suf "[]" data_cap chk lower upper] ok dcap by auto
  show ?thesis
  proof (cases "\<exists>x \<in> set ?suf. char_value x = - 1")
    case True
    then show ?thesis using dec_data_None [of "[]" ?suf data_cap] dcap by simp
  next
    case False
    then have c1: "char_value c \<noteq> - 1" using j by (metis set_update_memI)
    have "absorb ((map char_u32 suf)[j := char_u32 c]) chk \<noteq> absorb (map char_u32 suf) chk"
      using j c1 ok cj char_u32_inj [of c "suf ! j"]
      by (intro absorb_update_differs) (auto simp: char_u32_fits)
    then have "absorb (map char_u32 ?suf) chk \<noteq> 1" using chk by (simp add: map_update)
    then show ?thesis
      using dec_data_eq [of ?suf "[]" data_cap chk lower upper] False dcap by auto
  qed
qed

text \<open>When \<open>bech32_decode\<close> accepts a string, it refuses every string that differs from it in one
  character behind the separator (data or checksum), whatever character of another value replaces it.\<close>

lemma bech32_detects_substitution:
  assumes acc: "bech32_decode hrp_cap data_cap s = Inr (Some r)"
    and i: "length s - dec_sep s 0 \<le> i" "i < length s"
    and c: "c \<noteq> sep" "char_value c \<noteq> char_value (s ! i)"
  shows "bech32_decode hrp_cap data_cap (s[i := c]) = Inr None"
proof -
  have "sep \<in> set s"
  proof (rule ccontr)
    assume "sep \<notin> set s"
    with acc show False by (auto simp: decode_no_separator split: if_splits sum.splits)
  qed
  then obtain pre suf where s: "s = pre @ sep # suf" and suf: "sep \<notin> set suf"
    by (meson split_list_last)
  define j where "j = i - (length pre + 1)"
  have j: "i = length pre + 1 + j" "j < length suf"
    using i dec_sep_split [OF suf, of pre] by (simp_all add: s j_def)
  let ?suf = "suf[j := c]"
  have s': "s[i := c] = pre @ sep # ?suf" by (simp add: s j list_update_append)
  have suf': "sep \<notin> set ?suf" using suf c(1) set_update_subset_insert by fastforce
  have cj: "char_value c \<noteq> char_value (suf ! j)" using c(2) s j by (simp add: nth_append)
  from acc have dims: "\<not> (length s < 8 \<or> 90 < length s \<or> pre = [] \<or> length suf < 6)"
    and parts: "decode_parts hrp_cap data_cap pre suf = Inr (Some r)"
    by (simp_all add: s decode_split [OF suf] split: if_splits)
  from parts obtain hrp chk1 lower upper l u d where
      dh: "dec_hrp hrp_cap pre [] 1 False False = Inr (Some (hrp, chk1, lower, upper))"
    and cap: "length hrp < hrp_cap"
    and dd: "dec_data data_cap suf (hrp_low pre (bech32_polymod_step chk1)) lower upper []
      = Inr (Some (1, l, u, d))"
    by (rule decode_parts_Some)
  let ?chk = "hrp_low pre (bech32_polymod_step chk1)"
  have "\<exists>l u d chk3. (chk3 \<noteq> 1 \<and> dec_data data_cap ?suf ?chk lower upper [] = Inr (Some (chk3, l, u, d)))
      \<or> dec_data data_cap ?suf ?chk lower upper [] = Inr None"
    using dec_data_substituted [OF dd _ j(2) cj] dims by simp
  then show ?thesis
    using dims dh cap unfolding s' decode_split [OF suf'] by (auto simp: decode_parts_def s)
qed

text \<open>C29: with buffers of the documented sizes (\<open>strlen(input) - 6\<close> and \<open>strlen(input) - 8\<close>)
  \<open>bech32_decode\<close> never stores outside them, provided the string holds a separator.\<close>

theorem bech32_decode_in_bounds:
  assumes "sep \<in> set s" and "length s \<le> hrp_cap + 6" and "length s \<le> data_cap + 8"
  shows "\<exists>r. bech32_decode hrp_cap data_cap s = Inr r"
proof -
  from assms(1) obtain pre suf where s: "s = pre @ sep # suf" and suf: "sep \<notin> set suf"
    by (meson split_list_last)
  have "\<exists>r. decode_parts hrp_cap data_cap pre suf = Inr r" if "pre \<noteq> []" and "6 \<le> length suf"
  proof -
    have "length pre < hrp_cap" and cap: "length suf - 6 \<le> data_cap"
      using that assms(2,3) by (auto simp: s neq_Nil_conv)
    moreover from this obtain r where "dec_hrp hrp_cap pre [] 1 False False = Inr r"
      using dec_hrp_safe [of "[]" pre hrp_cap 1 False False] by auto
    moreover have "\<exists>r. dec_data data_cap suf chk lower upper [] = Inr r" for chk lower upper
      using dec_data_safe [of "[]" suf data_cap] cap by simp
    ultimately show ?thesis
      using dec_hrp_length [of hrp_cap pre "[]"] decode_parts_total by simp
  qed
  then show ?thesis by (auto simp: s decode_split [OF suf])
qed

text \<open>Without a separator the length of the human readable part wraps around, and
  \<open>bech32_decode\<close> stores every character of a printable string into \<open>hrp\<close>: any buffer shorter than
  the string, the documented one included, is overrun.\<close>

lemma bech32_decode_overrun:
  assumes "sep \<notin> set s" and "\<forall>c \<in> set s. hrp_char c" and "8 \<le> length s" and "length s \<le> 90"
    and "hrp_cap < length s"
  shows "bech32_decode hrp_cap data_cap s = Inl OutOfBounds"
  using assms dec_hrp_overflow [of s "[]" hrp_cap "[0]"] by (simp add: decode_no_separator)

section \<open>Witnesses\<close>

lemma bech32_roundtrip_witness:
  "bech32_decode 84 84 (bech32_string [98, 99] [0, 1, 2, 31]) = Inr (Some ([98, 99], [0, 1, 2, 31]))"
proof -
  have "encodable_hrp [98, 99]" and "five_bit [0, 1, 2, 31]"
    by (simp_all add: encodable_hrp_def hrp_char_def upper_char_def five_bit_def)
  then show ?thesis using bech32_roundtrip [of "[98, 99]" "[0, 1, 2, 31]" 84 84] by simp
qed

text \<open>The string of the round trip, with its fourth character replaced by \<open>z\<close>.\<close>

lemma bech32_decode_in_bounds_witness:
  "\<exists>r. bech32_decode 3 1 (map of_char ''a12uel5l'' @ [113]) = Inr r"
  by (rule bech32_decode_in_bounds) simp_all

end
