(* ===== verification/Bech32_Distance.thy ===== *)
theory Bech32_Distance
  imports Bech32_Field Bech32_Correct
begin

text \<open>
  The distance of the checksum of \<open>src/segwit_addr.cc\<close>: the rows of \<open>Bech32_Field\<close> are independent
  of each other and of the last symbol. Up to three wrong symbols among the 88 a decodable string can
  have behind its separator therefore never cancel, and \<open>bech32_decode\<close> refuses the string.
\<close>

section \<open>Independence of the rows\<close>

lemma rows_0: "rows ! 0 = 1"
  by (simp add: rows_def)

lemma row_fits: "p < 88 \<Longrightarrow> take_bit 30 (rows ! p) = rows ! p"
  using rows_fit length_rows by simp

lemma drop_bit_fits:
  assumes "take_bit 30 x = (x :: u32)"
  shows "take_bit 30 (drop_bit 5 x) = drop_bit 5 x"
proof -
  have "bit (drop_bit 5 x) n \<Longrightarrow> n < 30" for n
    using assms by (metis bit_drop_bit_eq bit_take_bit_iff comp_apply not_add_less2 add_lessD1 add.commute)
  then show ?thesis by (intro bit_eqI) (auto simp: bit_take_bit_iff)
qed

lemma above_fits: "p < 88 \<Longrightarrow> take_bit 30 (above p) = above p"
  unfolding above_def by (intro drop_bit_fits row_fits)

lemma tl_rows: "0 < p \<Longrightarrow> p < 88 \<Longrightarrow> rows ! p = tl rows ! (p - 1) \<and> p - 1 < length (tl rows)"
  using length_rows by (simp add: nth_tl)

lemma lead_above: "0 < p \<Longrightarrow> p < 88 \<Longrightarrow> lead 5 (above p) = 1"
  using rows_lead tl_rows [of p] unfolding above_def by simp

lemma above_inj:
  assumes "0 < p" "p < 88" "0 < q" "q < 88" "above p = above q"
  shows "p = q"
proof -
  have "map (\<lambda>v. uint (drop_bit 5 v)) (tl rows) ! (p - 1) = map (\<lambda>v. uint (drop_bit 5 v)) (tl rows) ! (q - 1)"
    using assms tl_rows [of p] tl_rows [of q] by (simp add: above_def)
  then have "p - 1 = q - 1"
    using rows_distinct tl_rows [of p] tl_rows [of q] assms by (simp only: nth_eq_iff_index_eq length_map)
  with assms show ?thesis by simp
qed

lemma lead_dbl: "take_bit 30 x = x \<Longrightarrow> lead n (dbl x) = dbl (lead n x)"
proof (induction n arbitrary: x)
  case (Suc n)
  have "take_bit 30 (take_bit 5 x) = take_bit 5 x" by (rule take_bit_30_5) simp
  then have "take_bit 5 (dbl x) = 0 \<longleftrightarrow> take_bit 5 x = 0"
    using Suc.prems dbl_eq_0 by (simp add: dbl_take_bit [symmetric])
  with Suc show ?case by (simp add: dbl_take_bit [symmetric] dbl_drop_bit [symmetric] drop_bit_fits)
qed simp

lemma lead_dbls: "take_bit 30 x = x \<Longrightarrow> lead n ((dbl ^^ k) x) = (dbl ^^ k) (lead n x)"
  by (induction k) (simp_all add: lead_dbl dbls_fit)

lemma above_nonzero:
  assumes "0 < p" and "p < 88"
  shows "(dbl ^^ k) (above p) \<noteq> 0"
  using lead_above [OF assms] above_fits [OF assms(2)] dbls_eq_0 [of "above p" k] by force

lemma above_independent:
  assumes p: "0 < p" "p < 88" and q: "0 < q" "q < 88" and "p \<noteq> q"
  shows "(dbl ^^ k) (above p) \<noteq> (dbl ^^ l) (above q)"
proof
  assume eq: "(dbl ^^ k) (above p) = (dbl ^^ l) (above q)"
  then have "lead 5 ((dbl ^^ k) (above p)) = lead 5 ((dbl ^^ l) (above q))" by simp
  then have "(dbl ^^ k) 1 = (dbl ^^ l) 1"
    using p q by (simp add: lead_dbls above_fits lead_above)
  then have "(dbl ^^ l) (above q) = (dbl ^^ k) (above q)"
    using dbls_scale [OF above_fits, of q] q by simp
  with eq have "above p = above q"
    using dbls_inj [of "above p" "above q" k] above_fits p q by simp
  with above_inj [OF p q] assms(5) show False by simp
qed

lemma steps_row:
  assumes c: "take_bit 5 c = c" "c \<noteq> 0" and "p < 88"
  shows "\<exists>k. (bech32_polymod_step ^^ p) c = (dbl ^^ k) (rows ! p)"
  using assms(3)
proof (induction p)
  case 0
  then show ?case using five_bit_power [OF c] by (simp add: rows_0)
next
  case (Suc p)
  then obtain k where k: "(bech32_polymod_step ^^ p) c = (dbl ^^ k) (rows ! p)" by auto
  obtain d where d: "d \<noteq> 0" "take_bit 5 d = d" "bech32_polymod_step (rows ! p) = scale d (rows ! Suc p)"
    using linked_nth [OF rows_linked, of p] length_rows Suc.prems by auto
  then obtain l where "d = (dbl ^^ l) 1" using five_bit_power by blast
  with d have "bech32_polymod_step (rows ! p) = (dbl ^^ l) (rows ! Suc p)"
    using dbls_scale [OF row_fits [OF Suc.prems]] by simp
  with k have "(bech32_polymod_step ^^ Suc p) c = (dbl ^^ (k + l)) (rows ! Suc p)"
    using Suc.prems by (simp add: step_dbls row_fits funpow_add)
  then show ?case ..
qed

lemma steps_above:
  assumes "take_bit 5 c = c" "c \<noteq> 0" "p < 88"
  shows "\<exists>k. drop_bit 5 ((bech32_polymod_step ^^ p) c) = (dbl ^^ k) (above p)"
proof -
  obtain k where "(bech32_polymod_step ^^ p) c = (dbl ^^ k) (rows ! p)" using steps_row [OF assms] ..
  then have "drop_bit 5 ((bech32_polymod_step ^^ p) c) = (dbl ^^ k) (above p)"
    using assms(3) by (simp add: drop_dbls row_fits above_def)
  then show ?thesis ..
qed

lemma drop_symbol: "take_bit 5 c = c \<Longrightarrow> drop_bit 5 c = (0 :: u32)"
  by (metis bits_ident drop_bit_take_bit take_bit_0 diff_self_eq_0)

lemma two_terms:
  assumes "take_bit 5 a = a" "a \<noteq> 0" "take_bit 5 b = b" "0 < p" "p < 88"
  shows "(bech32_polymod_step ^^ p) a XOR b \<noteq> 0"
proof
  assume "(bech32_polymod_step ^^ p) a XOR b = 0"
  then have "drop_bit 5 ((bech32_polymod_step ^^ p) a) XOR drop_bit 5 b = 0" by (metis drop_bit_xor drop_bit_of_0)
  moreover obtain k where "drop_bit 5 ((bech32_polymod_step ^^ p) a) = (dbl ^^ k) (above p)"
    using steps_above assms by blast
  ultimately show False using above_nonzero assms by (simp add: drop_symbol)
qed

lemma three_terms:
  assumes "take_bit 5 a = a" "a \<noteq> 0" "take_bit 5 b = b" "b \<noteq> 0" "take_bit 5 c = c"
    and "0 < p" "p < q" "q < 88"
  shows "(bech32_polymod_step ^^ q) a XOR ((bech32_polymod_step ^^ p) b XOR c) \<noteq> 0"
proof
  let ?A = "(bech32_polymod_step ^^ q) a" and ?B = "(bech32_polymod_step ^^ p) b"
  assume "?A XOR (?B XOR c) = 0"
  then have "drop_bit 5 ?A XOR (drop_bit 5 ?B XOR drop_bit 5 c) = 0" by (metis drop_bit_xor drop_bit_of_0)
  moreover obtain k where "drop_bit 5 ?A = (dbl ^^ k) (above q)" using steps_above assms by blast
  moreover obtain l where "drop_bit 5 ?B = (dbl ^^ l) (above p)"
    using steps_above [of b p] assms by auto
  ultimately have "(dbl ^^ k) (above q) = (dbl ^^ l) (above p)"
    using assms(5) by (simp add: drop_symbol xor_eq_0_iff)
  with above_independent [of q p k l] assms show False by simp
qed

section \<open>Wrong symbols in a list\<close>

definition weight :: "u32 list \<Rightarrow> nat" where
  "weight vs = length (filter (\<lambda>v. v \<noteq> 0) vs)"

lemma weight_0: "weight vs = 0 \<Longrightarrow> absorb vs 0 = 0"
  by (induction vs) (auto simp: weight_def split: if_splits)

lemma weight_Suc:
  assumes "weight vs = Suc n"
  obtains v ws where "v \<noteq> 0" "v \<in> set vs" "set ws \<subseteq> set vs" "length ws < length vs" "weight ws = n"
    "absorb vs 0 = (bech32_polymod_step ^^ length ws) v XOR absorb ws 0"
proof -
  have "\<exists>v ws. v \<noteq> 0 \<and> v \<in> set vs \<and> set ws \<subseteq> set vs \<and> length ws < length vs \<and> weight ws = n
      \<and> absorb vs 0 = (bech32_polymod_step ^^ length ws) v XOR absorb ws 0"
    using assms
  proof (induction vs)
    case (Cons x xs)
    show ?case
    proof (cases "x = 0")
      case True
      with Cons.prems have "weight xs = Suc n" by (simp add: weight_def)
      with Cons.IH obtain v ws where "v \<noteq> 0 \<and> v \<in> set xs \<and> set ws \<subseteq> set xs
          \<and> length ws < length xs \<and> weight ws = n
          \<and> absorb xs 0 = (bech32_polymod_step ^^ length ws) v XOR absorb ws 0" by blast
      with True show ?thesis by (intro exI [of _ v] exI [of _ ws]) auto
    next
      case False
      with Cons.prems absorb_split [of xs x] show ?thesis
        by (intro exI [of _ x] exI [of _ xs]) (auto simp: weight_def xor.commute)
    qed
  qed (simp add: weight_def)
  then show thesis using that by blast
qed

lemma steps_add:
  "p \<le> q \<Longrightarrow> (bech32_polymod_step ^^ q) a = (bech32_polymod_step ^^ p) ((bech32_polymod_step ^^ (q - p)) a)"
  by (metis comp_apply funpow_add le_add_diff_inverse)

lemma symbol_fits: "take_bit 5 c = c \<Longrightarrow> take_bit 30 ((bech32_polymod_step ^^ p) c) = (bech32_polymod_step ^^ p) c"
  by (cases p) (simp_all add: step_fits take_bit_30_5)

lemma absorb_few_errors:
  assumes w: "weight vs \<in> {1, 2, 3}" and n: "length vs \<le> 88" and fits: "\<forall>v \<in> set vs. take_bit 5 v = v"
  shows "absorb vs 0 \<noteq> 0"
proof -
  let ?S = "\<lambda>p. bech32_polymod_step ^^ p"
  obtain m where m: "weight vs = Suc m" using w by fastforce
  obtain a as where a: "a \<noteq> 0" "a \<in> set vs" "set as \<subseteq> set vs" "length as < length vs" "weight as = m"
    and va: "absorb vs 0 = ?S (length as) a XOR absorb as 0"
    by (rule weight_Suc [OF m])
  show ?thesis
  proof (cases m)
    case 0
    with a va weight_0 fits steps_nonzero [OF take_bit_30_5] show ?thesis by auto
  next
    case (Suc k)
    with a have "weight as = Suc k" by simp
    then obtain b bs where b: "b \<noteq> 0" "b \<in> set as" "set bs \<subseteq> set as" "length bs < length as" "weight bs = k"
      and vb: "absorb as 0 = ?S (length bs) b XOR absorb bs 0"
      by (rule weight_Suc)
    have ab: "take_bit 5 a = a" "take_bit 5 b = b" using a b fits by auto
    show ?thesis
    proof (cases k)
      case 0
      let ?d = "?S (length as - length bs) a XOR b"
      have "?d \<noteq> 0" using a b ab n by (intro two_terms) auto
      moreover have "take_bit 30 ?d = ?d" by (simp add: take_bit_xor symbol_fits take_bit_30_5 ab)
      ultimately have "?S (length bs) ?d \<noteq> 0" by (intro steps_nonzero)
      with 0 b va vb weight_0 show ?thesis by (simp add: steps_xor steps_add [of "length bs" "length as"])
    next
      case (Suc l)
      with b have "weight bs = Suc l" by simp
      then obtain c cs where c: "c \<noteq> 0" "c \<in> set bs" "length cs < length bs" "weight cs = l"
        and vc: "absorb bs 0 = ?S (length cs) c XOR absorb cs 0"
        by (rule weight_Suc)
      have l: "l = 0" using w m Suc \<open>m = Suc k\<close> by auto
      have cf: "take_bit 5 c = c" using a b c fits by auto
      let ?d = "?S (length as - length cs) a XOR (?S (length bs - length cs) b XOR c)"
      have "?d \<noteq> 0" using a b c ab cf n by (intro three_terms) auto
      moreover have "take_bit 30 ?d = ?d" by (simp add: take_bit_xor symbol_fits take_bit_30_5 ab cf)
      ultimately have "?S (length cs) ?d \<noteq> 0" by (intro steps_nonzero)
      then show ?thesis using l b c va vb vc weight_0
        by (simp add: steps_xor steps_add [of "length cs" "length as"] steps_add [of "length cs" "length bs"])
    qed
  qed
qed

lemma absorb_difference:
  "length vs = length ws \<Longrightarrow> absorb (map2 (XOR) vs ws) (x XOR y) = absorb vs x XOR absorb ws y"
proof (induction vs ws arbitrary: x y rule: list_induct2)
  case (Cons v vs w ws)
  have "bech32_polymod_step (x XOR y) XOR (v XOR w)
      = (bech32_polymod_step x XOR v) XOR (bech32_polymod_step y XOR w)"
    by (simp add: step_xor xor.assoc xor.left_commute)
  with Cons show ?case by simp
qed simp

lemma dec_data_altered:
  assumes dd: "dec_data data_cap suf chk lower upper [] = Inr (Some (1, l0, u0, d0))"
    and n: "6 \<le> length suf" "length suf \<le> 88" and len: "length suf' = length suf"
    and errs: "card {j. j < length suf \<and> char_value (suf' ! j) \<noteq> char_value (suf ! j)} \<in> {1, 2, 3}"
  shows "\<exists>l u d chk3. (chk3 \<noteq> 1 \<and> dec_data data_cap suf' chk lower upper [] = Inr (Some (chk3, l, u, d)))
      \<or> dec_data data_cap suf' chk lower upper [] = Inr None"
proof -
  from dd have ok: "\<forall>c \<in> set suf. char_value c \<noteq> - 1" and dcap: "length suf - 6 \<le> data_cap"
    using dec_data_Some [OF dd] n by (auto simp: not_less)
  have chk: "absorb (map char_u32 suf) chk = 1"
    using dd dec_data_eq [of suf "[]" data_cap chk lower upper] ok dcap by auto
  show ?thesis
  proof (cases "\<exists>x \<in> set suf'. char_value x = - 1")
    case True
    then show ?thesis using dec_data_None [of "[]" suf' data_cap] dcap len by simp
  next
    case False
    let ?e = "map2 (XOR) (map char_u32 suf') (map char_u32 suf)"
    have "char_u32 (suf' ! j) XOR char_u32 (suf ! j) = 0 \<longleftrightarrow> char_value (suf' ! j) = char_value (suf ! j)"
      if "j < length suf" for j
    proof -
      have "char_value (suf' ! j) \<noteq> - 1" and "char_value (suf ! j) \<noteq> - 1"
        using that False ok len by auto
      then show ?thesis using char_u32_inj [of "suf' ! j" "suf ! j"] by (auto simp: xor_eq_0_iff char_u32_def)
    qed
    then have "{j. j < length ?e \<and> ?e ! j \<noteq> 0}
        = {j. j < length suf \<and> char_value (suf' ! j) \<noteq> char_value (suf ! j)}"
      using len by auto
    then have "weight ?e \<in> {1, 2, 3}"
      using errs unfolding weight_def length_filter_conv_card by simp
    moreover have "\<forall>v \<in> set ?e. take_bit 5 v = v"
      using False ok by (auto simp: set_zip take_bit_xor char_u32_fits len)
    ultimately have "absorb ?e 0 \<noteq> 0" using n len by (intro absorb_few_errors) simp_all
    then have "absorb (map char_u32 suf') chk \<noteq> absorb (map char_u32 suf) chk"
      using absorb_difference [of "map char_u32 suf'" "map char_u32 suf" chk chk] len by force
    then show ?thesis
      using dec_data_eq [of suf' "[]" data_cap chk lower upper] False dcap len chk by auto
  qed
qed

text \<open>C19: when \<open>bech32_decode\<close> accepts a string, it refuses every string that has the same human
  readable part and differs from it in one, two or three characters behind the separator (data or
  checksum), whatever characters of other values replace them. The decoder's own bound of
  90 characters limits what follows the separator to the 88 rows of the table.\<close>

theorem bech32_detects_three_errors:
  assumes acc: "bech32_decode hrp_cap data_cap s = Inr (Some r)"
    and len: "length t = length s"
    and hrp: "take (length s - dec_sep s 0) t = take (length s - dec_sep s 0) s"
    and tail: "sep \<notin> set (drop (length s - dec_sep s 0) t)"
    and errs: "card {i. i < length s \<and> char_value (t ! i) \<noteq> char_value (s ! i)} \<in> {1, 2, 3}"
  shows "bech32_decode hrp_cap data_cap t = Inr None"
proof -
  have "sep \<in> set s"
  proof (rule ccontr)
    assume "sep \<notin> set s"
    with acc show False by (auto simp: decode_no_separator split: if_splits sum.splits)
  qed
  then obtain pre suf where s: "s = pre @ sep # suf" and suf: "sep \<notin> set suf"
    by (meson split_list_last)
  define suf' where "suf' = drop (Suc (length pre)) t"
  have n: "length s - dec_sep s 0 = Suc (length pre)"
    using dec_sep_split [OF suf, of pre] by (simp add: s)
  have "t = take (Suc (length pre)) t @ suf'" by (simp add: suf'_def)
  also have "take (Suc (length pre)) t = pre @ [sep]" using hrp unfolding n by (simp add: s)
  finally have t: "t = pre @ sep # suf'" by simp
  have suf': "sep \<notin> set suf'" "length suf' = length suf"
    using tail len unfolding n by (simp_all add: suf'_def [symmetric]) (simp add: suf'_def s)
  have "{i. i < length s \<and> char_value (t ! i) \<noteq> char_value (s ! i)}
      = (\<lambda>j. Suc (length pre) + j) ` {j. j < length suf \<and> char_value (suf' ! j) \<noteq> char_value (suf ! j)}"
    (is "?I = ?f ` ?J")
  proof
    show "?I \<subseteq> ?f ` ?J"
    proof
      fix i assume i: "i \<in> ?I"
      then have "Suc (length pre) \<le> i"
        by (auto simp: s t nth_append nth_Cons' not_less_eq_eq split: if_splits)
      then obtain j where "i = ?f j" by (metis le_iff_add)
      with i show "i \<in> ?f ` ?J" by (auto simp: s t nth_append)
    qed
  qed (auto simp: s t nth_append)
  moreover have "card (?f ` ?J) = card ?J" by (rule card_image) (simp add: inj_on_def)
  ultimately have errs': "card ?J \<in> {1, 2, 3}" using errs by simp
  from acc have dims: "\<not> (length s < 8 \<or> 90 < length s \<or> pre = [] \<or> length suf < 6)"
    and parts: "decode_parts hrp_cap data_cap pre suf = Inr (Some r)"
    by (simp_all add: s decode_split [OF suf] split: if_splits)
  from parts obtain hrp chk1 lower upper l u d where
      dh: "dec_hrp hrp_cap pre [] 1 False False = Inr (Some (hrp, chk1, lower, upper))"
    and cap: "length hrp < hrp_cap"
    and dd: "dec_data data_cap suf (hrp_low pre (bech32_polymod_step chk1)) lower upper []
      = Inr (Some (1, l, u, d))"
    by (rule decode_parts_Some)
  have "length suf \<le> 88" using dims by (cases pre) (auto simp: s)
  then show ?thesis
    using dec_data_altered [OF dd _ _ suf'(2) errs'] dims dh cap suf'(2)
    unfolding t decode_split [OF suf'(1)] by (auto simp: decode_parts_def s)
qed

text \<open>The string of the round trip, with its first three data characters \<open>qpz\<close> replaced by \<open>zqp\<close>.\<close>

lemma bech32_detects_three_errors_witness:
  "bech32_decode 84 84 ((bech32_string [98, 99] [0, 1, 2, 31])[3 := 122, 4 := 113, 5 := 112]) = Inr None"
proof -
  let ?s = "bech32_string [98, 99] [0, 1, 2, 31]"
  let ?t = "?s[3 := 122, 4 := 113, 5 := 112]"
  have e: "encodable_hrp [98, 99]" and f: "five_bit [0, 1, 2, 31]"
    by (simp_all add: encodable_hrp_def hrp_char_def upper_char_def five_bit_def)
  then have acc: "bech32_decode 84 84 ?s = Inr (Some ([98, 99], [0, 1, 2, 31]))"
    using bech32_string_decodes [of "[98, 99]" "[0, 1, 2, 31]" 84 84] by simp
  define check where "check = spell (polymod_pad (absorb (map ucast ([0, 1, 2, 31] :: u8 list))
       (absorb (hrp_low_values [98, 99]) (bech32_polymod_step (absorb (hrp_high_values [98, 99]) 1)))) XOR 1)"
  have s: "?s = [98, 99] @ sep # symbols ([0, 1, 2, 31] @ map ucast check)"
    by (simp add: bech32_string_def check_def symbols_def)
  have fb: "five_bit ([0, 1, 2, 31] @ map ucast check)"
    using f five_bit_spell by (auto simp: five_bit_def check_def)
  then have "dec_sep ?s 0 = length (symbols ([0, 1, 2, 31] @ map ucast check))"
    unfolding s by (intro dec_sep_split symbols_values)
  then have n: "length ?s - dec_sep ?s 0 = 3"
    by (simp add: length_bech32_string symbols_def check_def spell_def)
  have s3: "?s ! 3 = 113" "?s ! 4 = 112" "?s ! 5 = 122" and s0: "take 3 ?s = [98, 99, sep]"
    by (simp_all add: s symbols_def charset_def)
  have tail: "sep \<notin> set (drop 3 ?t)"
    using symbols_values(3) [OF fb] by (simp add: s symbols_def)
  have "char_value 112 = 1" "char_value 113 = 0" "char_value 122 = 2"
    by (simp_all add: char_value_def charset_rev_def)
  then have "char_value (?t ! i) \<noteq> char_value (?s ! i) \<longleftrightarrow> i \<in> {3, 4, 5}" if "i < length ?s" for i
    using that s3 by (cases "i \<in> {3, 4, 5}") (auto simp: length_bech32_string)
  moreover have "{3, 4, 5} \<subseteq> {i. i < length ?s}" by (simp add: length_bech32_string)
  ultimately have "{i. i < length ?s \<and> char_value (?t ! i) \<noteq> char_value (?s ! i)} = {3, 4, 5}"
    by blast
  then have errs: "card {i. i < length ?s \<and> char_value (?t ! i) \<noteq> char_value (?s ! i)} \<in> {1, 2, 3}"
    by simp
  show ?thesis
    using n tail errs by (intro bech32_detects_three_errors [OF acc]) simp_all
qed

end
