(* ===== verification/Segwit.thy ===== *)
theory Segwit
  imports Bech32_Correct
begin

text \<open>
  \<open>convert_bits\<close>, \<open>segwit_addr_encode\<close> and \<open>segwit_addr_decode\<close> of \<open>src/segwit_addr.cc\<close>:
  regrouping of a bit stream between bytes and five-bit values, and addresses made of a version and
  a program. Output buffers carry their capacity.
\<close>

section \<open>Regrouping\<close>

text \<open>\<open>out[(*outlen)++] = x\<close>\<close>

definition push_out :: "nat \<Rightarrow> u8 list \<Rightarrow> u8 \<Rightarrow> u8 list result" where
  "push_out cap out x = (if length out < cap then Inr (out @ [x]) else Inl OutOfBounds)"

text \<open>The inner loop. It is only entered with \<open>outbits\<close> 5 or 8; with 0 the code would not stop.\<close>

function cb_emit :: "nat \<Rightarrow> nat \<Rightarrow> u32 \<Rightarrow> nat \<Rightarrow> u8 list \<Rightarrow> (nat \<times> u8 list) result" where
  "cb_emit cap outbits val bits out =
     (if outbits = 0 then Inl Stuck
      else if outbits \<le> bits then
        let bits' = bits - outbits in
        bindR (push_out cap out (ucast (drop_bit bits' val AND (push_bit outbits 1 - 1))))
          (\<lambda>out'. cb_emit cap outbits val bits' out')
      else Inr (bits, out))"
  by pat_completeness auto
termination
  by (relation "measure (\<lambda>(cap, outbits, val, bits, out). bits)") auto

declare cb_emit.simps [simp del]

fun cb_loop :: "nat \<Rightarrow> nat \<Rightarrow> nat \<Rightarrow> u8 list \<Rightarrow> u32 \<Rightarrow> nat \<Rightarrow> u8 list \<Rightarrow> (u32 \<times> nat \<times> u8 list) result" where
  "cb_loop cap outbits inbits [] val bits out = Inr (val, bits, out)"
| "cb_loop cap outbits inbits (x # xs) val bits out =
     (let val' = push_bit inbits val OR ucast x in
      bindR (cb_emit cap outbits val' (bits + inbits) out)
        (\<lambda>(bits', out'). cb_loop cap outbits inbits xs val' bits' out'))"

definition convert_bits ::
  "nat \<Rightarrow> nat \<Rightarrow> u8 list \<Rightarrow> nat \<Rightarrow> bool \<Rightarrow> (u8 list \<times> bool) result" where
  "convert_bits cap outbits input inbits pad =
     bindR (cb_loop cap outbits inbits input 0 0 []) (\<lambda>(val, bits, out).
       let maxv = push_bit outbits 1 - 1; rest = push_bit (outbits - bits) val AND maxv in
       if pad then
         (if bits \<noteq> 0 then bindR (push_out cap out (ucast rest)) (\<lambda>out'. Inr (out', True))
          else Inr (out, True))
       else if rest \<noteq> 0 \<or> inbits \<le> bits then Inr (out, False)
       else Inr (out, True))"

section \<open>Addresses\<close>

text \<open>\<open>data[65]\<close> leaves 64 elements behind the version byte.\<close>

definition segwit_addr_encode :: "u8 list \<Rightarrow> int \<Rightarrow> u8 list \<Rightarrow> (u8 list \<times> bool) result" where
  "segwit_addr_encode hrp witver witprog =
     (let witprog_len = length witprog in
      if 16 < witver then Inr ([], False)
      else if witver = 0 \<and> witprog_len \<noteq> 20 \<and> witprog_len \<noteq> 32 then Inr ([], False)
      else if witprog_len < 2 \<or> 40 < witprog_len then Inr ([], False)
      else bindR (convert_bits 64 5 witprog 8 True) (\<lambda>(data, _).
        Inr (bech32_encode hrp (word_of_int witver # data))))"

definition segwit_addr_decode :: "u8 list \<Rightarrow> u8 list \<Rightarrow> (int \<times> u8 list) option result" where
  "segwit_addr_decode hrp addr =
     bindR (bech32_decode 84 84 addr) (\<lambda>r.
       case r of None \<Rightarrow> Inr None
       | Some (hrp_actual, data) \<Rightarrow>
           if length data = 0 \<or> 65 < length data then Inr None
           else if take 84 hrp \<noteq> take 84 hrp_actual then Inr None
           else if 16 < uint (data ! 0) then Inr None
           else bindR (convert_bits 40 8 (tl data) 5 False) (\<lambda>(witdata, ok).
             if \<not> ok then Inr None
             else if length witdata < 2 \<or> 40 < length witdata then Inr None
             else if data ! 0 = 0 \<and> length witdata \<noteq> 20 \<and> length witdata \<noteq> 32 then Inr None
             else Inr (Some (uint (data ! 0), witdata))))"

section \<open>Bit streams\<close>

definition bits_of :: "nat \<Rightarrow> 'a::len word \<Rightarrow> bool list" where
  "bits_of n x = map (\<lambda>k. bit x (n - 1 - k)) [0..<n]"

definition stream :: "nat \<Rightarrow> u8 list \<Rightarrow> bool list" where
  "stream w xs = concat (map (bits_of w) xs)"

lemma length_bits_of [simp]: "length (bits_of n x) = n"
  by (simp add: bits_of_def)

lemma bits_of_0 [simp]: "bits_of 0 x = []"
  by (simp add: bits_of_def)


lemma stream_simps [simp]:
  "stream w [] = []" "stream w (x # xs) = bits_of w x @ stream w xs"
  "stream w (xs @ ys) = stream w xs @ stream w ys"
  by (simp_all add: stream_def)

lemma length_stream [simp]: "length (stream w xs) = w * length xs"
  by (induction xs) simp_all







section \<open>The loops regroup the stream\<close>








section \<open>Properties\<close>





text \<open>\<open>segwit_addr_decode\<close> gives \<open>bech32_decode\<close> an 84-character buffer; an address of 85 to 90
  printable characters without a separator overruns it.\<close>

lemma segwit_addr_decode_overrun:
  assumes "sep \<notin> set addr" and "\<forall>c \<in> set addr. hrp_char c" and "84 < length addr" and "length addr \<le> 90"
  shows "segwit_addr_decode hrp addr = Inl OutOfBounds"
proof -
  have "dec_hrp 84 (addr @ [0]) [] 1 False False = Inl OutOfBounds"
    using dec_hrp_overflow [of addr "[]" 84 "[0]"] assms by simp
  then show ?thesis using assms by (simp add: segwit_addr_decode_def decode_no_separator)
qed

text \<open>The encoder checks only the upper bound of the version it stores in a byte, so a negative
  version is encoded as the version 256 above it, and its version 0 skips the length rule.\<close>

lemma segwit_negative_version:
  assumes "0 \<le> ver" and "ver \<le> 16" and "2 \<le> length prog" and "length prog \<le> 40"
  shows "segwit_addr_encode hrp (ver - 256) prog =
    bindR (convert_bits 64 5 prog 8 True) (\<lambda>(data, _). Inr (bech32_encode hrp (word_of_int ver # data)))"
proof -
  have "(word_of_int (ver - 256) :: u8) = word_of_int ver"
    by simp
  then show ?thesis using assms by (simp only: segwit_addr_encode_def Let_def) simp
qed

end
