(* ===== verification/Convert.thy ===== *)
theory Convert
  imports Bech32_Correct
begin

text \<open>
  \<open>bytes_to_bech32\<close> of \<open>inc/convert.h\<close>: a byte vector shown as a bech32 string, its bytes
  regrouped into five-bit values with the least significant bits first.
\<close>

section \<open>The program\<close>

text \<open>
  The regrouping loop, with the \<open>size_t\<close> variables \<open>l\<close>, \<open>r\<close>, \<open>n\<close> and \<open>last\<close>. The accumulator
  stays below \<open>2 ^ 13\<close>, and a byte is only added where \<open>r % 8\<close> is at most 4
  (\<open>regroup_shift\<close>), so neither the sum nor the shift distance leaves the range of \<open>size_t\<close>.
\<close>

function regroup :: "bytes \<Rightarrow> nat \<Rightarrow> nat \<Rightarrow> nat \<Rightarrow> nat \<Rightarrow> u8 list" where
  "regroup b l r n lst =
     (let idl = l div 8; idr = r div 8 in
      if length b \<le> idl then []
      else
        let fresh = (idr \<noteq> lst \<and> idr < length b);
            n' = (if fresh then n + push_bit (5 - r mod 8) (unat (b ! idr)) else n);
            lst' = (if fresh then idr else lst) in
        word_of_nat (n' mod 2 ^ 5) # regroup b (l + 5) (r + 5) (drop_bit 5 n') lst')"
  by pat_completeness auto
termination
  by (relation "measure (\<lambda>(b, l, r, n, lst). 8 * length b - l)") (auto simp: not_le)

declare regroup.simps [simp del]

text \<open>
  The result is a \<open>std::string\<close> of \<open>pre.size() + enc5.size() + 8\<close> characters, first all blanks;
  the return value of \<open>bech32_encode\<close> is not looked at. \<open>&pre[0]\<close> is read up to its first NUL.
\<close>

definition bytes_to_bech32 :: "u8 list \<Rightarrow> bytes \<Rightarrow> u8 list" where
  "bytes_to_bech32 pre b =
     (if length b = 0 then []
      else
        let enc5 = regroup b 0 5 (unat (b ! 0)) 0;
            s = replicate (length pre + length enc5 + 8) 32;
            (written, _) = bech32_encode (takeWhile (\<lambda>c. c \<noteq> 0) pre) enc5 in
        written @ drop (length written) s)"

section \<open>Little-endian values\<close>

lemma take_value_of:
  "j < length b \<Longrightarrow> take_bit (8 * Suc j) (value_of 8 b) =
     take_bit (8 * j) (value_of 8 b) + push_bit (8 * j) (unat (b ! j))"
proof (induction b arbitrary: j)
  case (Cons x b)
  have x: "unat x < 256" using unsigned_less [of x] by simp
  have split: "take_bit (8 + m) (unat x + 256 * v) = unat x + 256 * take_bit m v" for m v :: nat
  proof -
    have "(unat x + 256 * v) mod (256 * 2 ^ m) = 256 * (v mod 2 ^ m) + unat x"
      using mod_mult2_eq [of "unat x + 256 * v" 256 "2 ^ m"] x by simp
    then show ?thesis by (simp add: take_bit_eq_mod power_add)
  qed
  show ?case
  proof (cases j)
    case 0
    have "take_bit 8 (unat x + 256 * value_of 8 b) = unat x"
      using split [of 0 "value_of 8 b"] by simp
    with 0 show ?thesis by simp
  next
    case (Suc k)
    with Cons have IH: "take_bit (8 * Suc k) (value_of 8 b) =
        take_bit (8 * k) (value_of 8 b) + push_bit (8 * k) (unat (b ! k))" by simp
    have "take_bit (8 + 8 * Suc k) (value_of 8 (x # b)) = unat x + 256 * take_bit (8 * Suc k) (value_of 8 b)"
      using split [of "8 * Suc k" "value_of 8 b"] by simp
    also have "\<dots> = take_bit (8 + 8 * k) (value_of 8 (x # b)) + push_bit (8 + 8 * k) (unat (b ! k))"
      unfolding IH using split [of "8 * k" "value_of 8 b"]
      by (simp add: push_bit_eq_mult power_add algebra_simps)
    finally show ?thesis using Suc by (simp add: algebra_simps)
  qed
qed simp

section \<open>The loop computes the digits\<close>

lemma regroup_shift:
  assumes "(l + 5) div 8 \<noteq> l div 8"
  shows "(l + 5) div 8 = Suc (l div 8)" and "(l + 5) mod 8 \<le> 4"
    and "5 - (l + 5) mod 8 = 8 * Suc (l div 8) - l"
proof -
  define q s where "q = l div 8" and "s = l mod 8"
  then have l: "l = 8 * q + s" and "s < 8" by simp_all
  have "3 \<le> s"
  proof (rule ccontr)
    assume "\<not> 3 \<le> s"
    then have "(8 * q + s + 5) div 8 = q" by simp
    with assms show False by (simp add: l \<open>s < 8\<close>)
  qed
  then obtain t where t: "s = t + 3" using le_Suc_ex by (metis add.commute)
  with \<open>s < 8\<close> have "t < 5" by simp
  have l5: "l + 5 = t + 8 * Suc q" by (simp add: l t)
  have "(l + 5) div 8 = Suc q" and "(l + 5) mod 8 = t"
    using \<open>t < 5\<close> unfolding l5 by (simp_all only: mod_mult_self2 div_mult_self2) simp_all
  then show "(l + 5) div 8 = Suc (l div 8)" and "(l + 5) mod 8 \<le> 4"
    and "5 - (l + 5) mod 8 = 8 * Suc (l div 8) - l"
    using \<open>t < 5\<close> by (simp_all flip: q_def add: l t)
qed

definition digit :: "nat \<Rightarrow> nat \<Rightarrow> u8" where
  "digit v l = word_of_nat (drop_bit l v mod 2 ^ 5)"

definition five_count :: "bytes \<Rightarrow> nat" where
  "five_count b = (8 * length b + 4) div 5"

lemma less_five_count: "m < five_count b \<longleftrightarrow> 5 * m div 8 < length b"
  unfolding five_count_def Suc_le_eq [symmetric]
  by (simp add: less_eq_div_iff_mult_less_eq div_less_iff_less_mult Suc_le_eq) arith

text \<open>What \<open>n\<close> and \<open>last\<close> hold at the head of the loop.\<close>

definition acc_at :: "bytes \<Rightarrow> nat \<Rightarrow> nat" where
  "acc_at b l = drop_bit l (take_bit (8 * Suc (l div 8)) (value_of 8 b))"

lemma acc_refill:
  assumes "(l + 5) div 8 \<noteq> l div 8" and "(l + 5) div 8 < length b"
  shows "acc_at b l + push_bit (5 - (l + 5) mod 8) (unat (b ! ((l + 5) div 8)))
    = drop_bit l (take_bit (8 * Suc ((l + 5) div 8)) (value_of 8 b))"
proof -
  let ?j = "l div 8" and ?v = "value_of 8 b"
  note sh = regroup_shift [OF assms(1)]
  have le: "l \<le> 8 * Suc ?j" by simp
  have "take_bit (8 * Suc (Suc ?j)) ?v = take_bit (8 * Suc ?j) ?v + push_bit (8 * Suc ?j) (unat (b ! Suc ?j))"
    using take_value_of [of "Suc ?j" b] assms(2) sh(1) by simp
  moreover have "push_bit (8 * Suc ?j) x = 2 ^ l * push_bit (8 * Suc ?j - l) x" for x :: nat
    using le by (simp only: push_bit_eq_mult power_add [symmetric] mult.assoc [symmetric])
      (simp add: power_add [symmetric] mult.commute mult.left_commute)
  ultimately show ?thesis
    unfolding sh(1) sh(3) acc_at_def by (simp add: drop_bit_eq_div)
qed

lemma acc_digit:
  assumes "l + 5 \<le> 8 * j \<or> length b \<le> j"
  shows "drop_bit l (take_bit (8 * j) (value_of 8 b)) mod 2 ^ 5 = drop_bit l (value_of 8 b) mod 2 ^ 5"
  using assms
proof
  assume "l + 5 \<le> 8 * j"
  then have "min (8 * j - l) 5 = 5" by simp
  then have "take_bit 5 (drop_bit l (take_bit (8 * j) (value_of 8 b))) = take_bit 5 (drop_bit l (value_of 8 b))"
    by (metis drop_bit_take_bit min.commute take_bit_take_bit)
  then show ?thesis by (simp add: take_bit_eq_mod)
next
  assume "length b \<le> j"
  then have "(2::nat) ^ (8 * length b) \<le> 2 ^ (8 * j)" by (intro power_increasing) simp_all
  with value_of_bytes_less [of b] have "value_of 8 b < 2 ^ (8 * j)" by (rule less_le_trans)
  then have "take_bit (8 * j) (value_of 8 b) = value_of 8 b" by (rule take_bit_nat_eq_self)
  then show ?thesis by simp
qed

lemma regroup_digits:
  assumes "5 * m div 8 < length b \<Longrightarrow> lst = 5 * m div 8 \<and> n = acc_at b (5 * m)"
  shows "regroup b (5 * m) (5 * m + 5) n lst =
    map (\<lambda>k. digit (value_of 8 b) (5 * k)) [m..<five_count b]"
  using assms
proof (induction "five_count b - m" arbitrary: m n lst)
  case 0
  then have "five_count b \<le> m" and "length b \<le> 5 * m div 8"
    using less_five_count [of m b] by simp_all
  then show ?case by (subst regroup.simps) (simp add: Let_def)
next
  case (Suc d)
  let ?l = "5 * m" and ?v = "value_of 8 b"
  from Suc.hyps(2) have m: "m < five_count b" by simp
  then have in_b: "?l div 8 < length b" by (simp add: less_five_count)
  with Suc.prems have lst: "lst = ?l div 8" and n: "n = acc_at b ?l" by simp_all
  let ?r = "(?l + 5) div 8" and ?fresh = "(?l + 5) div 8 \<noteq> ?l div 8 \<and> (?l + 5) div 8 < length b"
  let ?n' = "if ?fresh then n + push_bit (5 - (?l + 5) mod 8) (unat (b ! ?r)) else n"
  let ?lst' = "if ?fresh then ?r else lst"
  define j where "j = (if ?fresh then Suc ?r else Suc (?l div 8))"
  have n': "?n' = drop_bit ?l (take_bit (8 * j) ?v)"
    using acc_refill [of ?l b] n by (simp add: j_def acc_at_def)
  have "?l + 5 \<le> 8 * j \<or> length b \<le> j"
    using regroup_shift [of ?l] in_b unfolding j_def by (cases "?r = ?l div 8") auto
  then have digit: "word_of_nat (?n' mod 2 ^ 5) = digit ?v ?l"
    unfolding n' digit_def by (simp only: acc_digit)
  have inv: "?lst' = 5 * (m + 1) div 8 \<and> drop_bit 5 ?n' = acc_at b (5 * (m + 1))"
    if "5 * (m + 1) div 8 < length b"
  proof -
    have r: "5 * (m + 1) div 8 = ?r" by simp
    have "?lst' = ?r" and "j = Suc ?r" using that lst unfolding r j_def by auto
    then show ?thesis unfolding n' acc_at_def r by (simp add: add.commute)
  qed
  have e: "5 * (m + 1) = ?l + 5" by simp
  have "\<not> length b \<le> ?l div 8" using in_b by simp
  then have "regroup b ?l (?l + 5) n lst = word_of_nat (?n' mod 2 ^ 5) #
      regroup b (?l + 5) (?l + 5 + 5) (drop_bit 5 ?n') ?lst'"
    by (subst regroup.simps) (simp only: Let_def if_False lst)
  also have "regroup b (?l + 5) (?l + 5 + 5) (drop_bit 5 ?n') ?lst'
      = map (\<lambda>k. digit ?v (5 * k)) [m + 1..<five_count b]"
    using Suc.hyps(1) [of "m + 1" ?lst' "drop_bit 5 ?n'"] Suc.hyps(2) inv unfolding e by simp
  finally have "regroup b ?l (?l + 5) n lst = map (\<lambda>k. digit ?v (5 * k)) (m # [m + 1..<five_count b])"
    by (simp only: digit list.map)
  then show ?case using m by (simp add: upt_conv_Cons)
qed

definition digits5 :: "bytes \<Rightarrow> u8 list" where
  "digits5 b = map (\<lambda>k. digit (value_of 8 b) (5 * k)) [0..<five_count b]"

lemma regroup_start:
  assumes "b \<noteq> []"
  shows "regroup b 0 5 (unat (b ! 0)) 0 = digits5 b"
proof -
  have "take_bit 8 (value_of 8 b) = unat (b ! 0)"
    using take_value_of [of 0 b] assms by simp
  then have "acc_at b (5 * 0) = unat (b ! 0)" by (simp add: acc_at_def)
  then show ?thesis using regroup_digits [of 0 b 0 "unat (b ! 0)"] by (simp add: digits5_def)
qed

lemma length_digits5 [simp]: "length (digits5 b) = five_count b"
  by (simp add: digits5_def)

lemma unat_digit: "unat (digit v l) = take_bit 5 (drop_bit l v)"
proof -
  have "take_bit 5 (drop_bit l v) < 2 ^ 8" using take_bit_nat_less_exp [of 5 "drop_bit l v"] by simp
  then show ?thesis
    by (simp add: digit_def unat_of_nat take_bit_eq_mod)
qed

lemma five_bit_digits5: "five_bit (digits5 b)"
proof -
  have "drop_bit 5 (digit v l) = 0" for v l
  proof (rule drop_bit_of_small, rule bit_word_eqI)
    fix n
    have "bit (digit v l) n \<longleftrightarrow> bit (unat (digit v l)) n" for n by (simp add: bit_unsigned_iff)
    then show "bit (take_bit 5 (digit v l)) n = bit (digit v l) n"
      by (auto simp: bit_take_bit_iff unat_digit)
  qed
  then show ?thesis by (auto simp: five_bit_def digits5_def)
qed

lemma value_of_digits:
  "value_of 5 (map (\<lambda>k. digit v (5 * k)) [m..<m + c]) = take_bit (5 * c) (drop_bit (5 * m) v)"
proof (induction c arbitrary: m)
  case (Suc c)
  have "value_of 5 (map (\<lambda>k. digit v (5 * k)) [m..<m + Suc c])
      = unat (digit v (5 * m)) + 2 ^ 5 * value_of 5 (map (\<lambda>k. digit v (5 * k)) [Suc m..<Suc m + c])"
    by (simp add: upt_conv_Cons del: upt_Suc)
  also have "\<dots> = take_bit 5 (drop_bit (5 * m) v) + push_bit 5 (take_bit (5 * c) (drop_bit 5 (drop_bit (5 * m) v)))"
    by (simp only: Suc.IH unat_digit push_bit_eq_mult drop_bit_drop_bit) (simp add: add.commute mult.commute)
  also have "push_bit 5 (take_bit (5 * c) (drop_bit 5 x)) = push_bit 5 (drop_bit 5 (take_bit (5 * Suc c) x))" for x :: nat
    by (simp add: drop_bit_take_bit)
  also have "take_bit 5 x + push_bit 5 (drop_bit 5 (take_bit (5 * Suc c) x)) = take_bit (5 * Suc c) x" for x :: nat
    using bits_ident [of 5 "take_bit (5 * Suc c) x"] by (simp add: take_bit_take_bit add.commute)
  finally show ?case .
qed simp

lemma value_of_digits5: "value_of 5 (digits5 b) = value_of 8 b"
proof -
  have "8 * length b \<le> 5 * five_count b" by (simp add: five_count_def)
  then have "(2::nat) ^ (8 * length b) \<le> 2 ^ (5 * five_count b)" by (intro power_increasing) simp_all
  with value_of_bytes_less [of b] have "value_of 8 b < 2 ^ (5 * five_count b)" by (rule less_le_trans)
  then have "take_bit (5 * five_count b) (value_of 8 b) = value_of 8 b" by (rule take_bit_nat_eq_self)
  then show ?thesis using value_of_digits [of "value_of 8 b" 0 "five_count b"] by (simp add: digits5_def)
qed

section \<open>Properties\<close>

text \<open>The regrouping loop turns a byte vector into \<open>(8 * size + 4) / 5\<close> five-bit values that spell
  the same little-endian number, so no bit of the bytes is lost.\<close>

lemma regroup_correct:
  assumes "b \<noteq> []"
  shows "five_bit (regroup b 0 5 (unat (b ! 0)) 0)
    \<and> length (regroup b 0 5 (unat (b ! 0)) 0) = (8 * length b + 4) div 5
    \<and> value_of 5 (regroup b 0 5 (unat (b ! 0)) 0) = value_of 8 b"
  using assms five_bit_digits5 [of b] value_of_digits5 [of b]
  by (simp add: regroup_start five_count_def)

lemma bytes_to_bech32_eq:
  assumes "encodable_hrp pre" and "b \<noteq> []"
  shows "bytes_to_bech32 pre b = bech32_string pre (digits5 b) @ [0]"
proof -
  have "c \<noteq> 0" if "c \<in> set pre" for c
    using that assms(1) by (auto simp: encodable_hrp_def hrp_char_def)
  then have tw: "takeWhile (\<lambda>c. c \<noteq> 0) pre = pre" by (simp add: takeWhile_eq_all_conv)
  have enc: "bech32_encode pre (digits5 b) = (bech32_string pre (digits5 b) @ [0], True)"
    using assms(1) five_bit_digits5 by (intro bech32_encode_eq) (auto simp: encodable_hrp_def)
  show ?thesis
    using assms(2) by (simp add: bytes_to_bech32_def regroup_start Let_def length_bech32_string tw enc)
qed

text \<open>The text shown for a byte vector is a valid bech32 string followed by a NUL character; while
  it has at most ninety characters, \<open>bech32_decode\<close> reads back the prefix and values that spell the
  bytes.\<close>

lemma bytes_to_bech32_decodes:
  assumes "encodable_hrp pre" and "b \<noteq> []" and "length pre + (8 * length b + 4) div 5 \<le> 83"
  shows "\<exists>s d. bytes_to_bech32 pre b = s @ [0] \<and> bech32_decode 84 82 s = Inr (Some (pre, d))
    \<and> length d = (8 * length b + 4) div 5 \<and> value_of 5 d = value_of 8 b"
proof -
  let ?d = "digits5 b"
  have ne: "0 < length pre" using assms(1) by (simp add: encodable_hrp_def)
  have n: "length ?d = (8 * length b + 4) div 5" by (simp add: five_count_def)
  have "length pre + length ?d \<le> 83" using assms(3) by (simp only: n)
  then have "bech32_decode 84 82 (bech32_string pre ?d) = Inr (Some (pre, ?d))"
    using bech32_string_decodes [of pre ?d 84 82] assms(1) five_bit_digits5 [of b] ne by simp
  then show ?thesis
    using bytes_to_bech32_eq [OF assms(1,2)] value_of_digits5 [of b] n by blast
qed

text \<open>A vector of 52 bytes or more, a 64-byte secret signing key for one, is shown as a string
  longer than ninety characters, which \<open>bech32_decode\<close> refuses.\<close>

lemma bytes_to_bech32_too_long:
  assumes "encodable_hrp pre" and "52 \<le> length b"
  shows "\<exists>s. bytes_to_bech32 pre b = s @ [0] \<and> bech32_decode hrp_cap data_cap s = Inr None"
proof -
  from assms have "b \<noteq> []" and "0 < length pre" by (auto simp: encodable_hrp_def)
  moreover have "83 < five_count b"
    using assms(2) by (simp add: less_five_count)
  ultimately have "90 < length (bech32_string pre (digits5 b))"
    by (simp add: length_bech32_string)
  then have "bech32_decode hrp_cap data_cap (bech32_string pre (digits5 b)) = Inr None"
    by (simp add: bech32_decode_def)
  then show ?thesis using bytes_to_bech32_eq [OF assms(1) \<open>b \<noteq> []\<close>] by blast
qed

end
