(* ===== verification/Sodium.thy ===== *)
theory Sodium
  imports Prelude
begin

text \<open>
  libsodium, which is not part of the repository: the functions \<open>src/curve.cc\<close> and \<open>inc/curve.h\<close>
  call are the fields of a record every definition that uses one of them takes as an argument.
  A result of \<open>None\<close> is a return value other than 0, which leaves the output buffer as it was.
  The functions that draw random numbers get them as an argument. What the code relies on are the
  predicates below; a small instance of the record serves the witnesses.
\<close>

datatype pw_strength = Interactive | Sensitive

record sodium =
  generichash :: "nat \<Rightarrow> bytes \<Rightarrow> bytes option \<Rightarrow> bytes option"
  pwhash :: "pw_strength \<Rightarrow> nat \<Rightarrow> bytes \<Rightarrow> bytes \<Rightarrow> bytes option"
  shorthash :: "bytes \<Rightarrow> bytes \<Rightarrow> bytes"
  box_public :: "bytes \<Rightarrow> bytes"
  box_easy :: "bytes \<Rightarrow> bytes \<Rightarrow> bytes \<Rightarrow> bytes \<Rightarrow> bytes option"
  box_open_easy :: "bytes \<Rightarrow> bytes \<Rightarrow> bytes \<Rightarrow> bytes \<Rightarrow> bytes option"
  box_seal :: "bytes \<Rightarrow> bytes \<Rightarrow> bytes \<Rightarrow> bytes"
  box_seal_open :: "bytes \<Rightarrow> bytes \<Rightarrow> bytes \<Rightarrow> bytes option"
  box_seed_keypair :: "bytes \<Rightarrow> bytes \<times> bytes"
  sign_seed_keypair :: "bytes \<Rightarrow> bytes \<times> bytes"
  box_keypair :: "bytes \<Rightarrow> bytes \<times> bytes"
  sign_keypair :: "bytes \<Rightarrow> bytes \<times> bytes"
  sign_attached :: "bytes \<Rightarrow> bytes \<Rightarrow> bytes option"
  sign_open :: "bytes \<Rightarrow> bytes \<Rightarrow> bytes option"
  sign_detached :: "bytes \<Rightarrow> bytes \<Rightarrow> bytes"
  verify_detached :: "bytes \<Rightarrow> bytes \<Rightarrow> bytes \<Rightarrow> bool"
  sodium_memcmp :: "bytes \<Rightarrow> bytes \<Rightarrow> int"
  sodium_compare :: "bytes \<Rightarrow> bytes \<Rightarrow> int"
  sodium_increment :: "bytes \<Rightarrow> bytes"
  bin2hex :: "bytes \<Rightarrow> u8 list"
  hex2bin :: "nat \<Rightarrow> u8 list \<Rightarrow> bytes"

text \<open>The documented sizes.\<close>

abbreviation (input) GENERICHASH_BYTES :: nat where "GENERICHASH_BYTES \<equiv> 32"
abbreviation (input) GENERICHASH_BYTES_MIN :: nat where "GENERICHASH_BYTES_MIN \<equiv> 16"
abbreviation (input) GENERICHASH_BYTES_MAX :: nat where "GENERICHASH_BYTES_MAX \<equiv> 64"
abbreviation (input) PWHASH_SALTBYTES :: nat where "PWHASH_SALTBYTES \<equiv> 16"
abbreviation (input) SHORTHASH_BYTES :: nat where "SHORTHASH_BYTES \<equiv> 8"
abbreviation (input) SHORTHASH_KEYBYTES :: nat where "SHORTHASH_KEYBYTES \<equiv> 16"
abbreviation (input) BOX_MACBYTES :: nat where "BOX_MACBYTES \<equiv> 16"
abbreviation (input) BOX_SEALBYTES :: nat where "BOX_SEALBYTES \<equiv> 48"
abbreviation (input) SIGN_BYTES :: nat where "SIGN_BYTES \<equiv> 64"
abbreviation (input) SIGN_PUBLICKEYBYTES :: nat where "SIGN_PUBLICKEYBYTES \<equiv> 32"

section \<open>What the code relies on\<close>

definition hash_lengths_ok :: "sodium \<Rightarrow> bool" where
  "hash_lengths_ok S \<longleftrightarrow>
     (\<forall>n m k h. generichash S n m k = Some h \<longrightarrow> length h = n) \<and>
     (\<forall>s n m salt h. pwhash S s n m salt = Some h \<longrightarrow> length h = n) \<and>
     (\<forall>k m. length (shorthash S k m) = SHORTHASH_BYTES)"

text \<open>\<open>crypto_generichash\<close> refuses to compute more than its longest hash.\<close>

definition hash_bounded :: "sodium \<Rightarrow> bool" where
  "hash_bounded S \<longleftrightarrow> (\<forall>n m k. GENERICHASH_BYTES_MAX < n \<longrightarrow> generichash S n m k = None)"

text \<open>\<open>crypto_box_easy\<close> with the recipient's public and the sender's secret key, opened with the
  sender's public and the recipient's secret key.\<close>

definition box_ok :: "sodium \<Rightarrow> bool" where
  "box_ok S \<longleftrightarrow>
     (\<forall>m n s t c. box_easy S m n (fst (box_seed_keypair S t)) (snd (box_seed_keypair S s)) = Some c \<longrightarrow>
        length c = length m + BOX_MACBYTES \<and>
        box_open_easy S c n (fst (box_seed_keypair S s)) (snd (box_seed_keypair S t)) = Some m) \<and>
     (\<forall>m e s. let c = box_seal S m e (fst (box_seed_keypair S s)) in
        length c = length m + BOX_SEALBYTES \<and>
        box_seal_open S c (fst (box_seed_keypair S s)) (snd (box_seed_keypair S s)) = Some m)"

definition sign_ok :: "sodium \<Rightarrow> bool" where
  "sign_ok S \<longleftrightarrow>
     (\<forall>m s c. sign_attached S m (snd (sign_seed_keypair S s)) = Some c \<longrightarrow>
        length c = length m + SIGN_BYTES \<and> sign_open S c (fst (sign_seed_keypair S s)) = Some m) \<and>
     (\<forall>m s. length (sign_detached S m (snd (sign_seed_keypair S s))) = SIGN_BYTES \<and>
        verify_detached S (sign_detached S m (snd (sign_seed_keypair S s))) m (fst (sign_seed_keypair S s))) \<and>
     (\<forall>s. length (fst (sign_seed_keypair S s)) = SIGN_PUBLICKEYBYTES)"

text \<open>
  \<open>crypto_box_keypair\<close> and \<open>crypto_sign_keypair\<close>: the public key of a pair is the one
  \<open>crypto_scalarmult_base\<close> computes from the secret key, boxes work between any two secret keys, and a
  random pair signs like one from a seed.
\<close>

definition random_keys_ok :: "sodium \<Rightarrow> bool" where
  "random_keys_ok S \<longleftrightarrow>
     (\<forall>r. length (snd (box_keypair S r)) = 32 \<and> length (fst (box_keypair S r)) = 32 \<and>
        fst (box_keypair S r) = box_public S (snd (box_keypair S r))) \<and>
     (\<forall>r. length (fst (box_seed_keypair S r)) = 32 \<and> length (snd (box_seed_keypair S r)) = 32) \<and>
     (\<forall>sk. length (box_public S sk) = 32) \<and>
     (\<forall>r. length (fst (sign_keypair S r)) = 32 \<and> length (snd (sign_keypair S r)) = 64) \<and>
     (\<forall>r. length (fst (sign_seed_keypair S r)) = 32 \<and> length (snd (sign_seed_keypair S r)) = 64)"

definition random_box_ok :: "sodium \<Rightarrow> bool" where
  "random_box_ok S \<longleftrightarrow>
     (\<forall>m n s t c. length s = 32 \<longrightarrow> length t = 32 \<longrightarrow> box_easy S m n (box_public S t) s = Some c \<longrightarrow>
        length c = length m + BOX_MACBYTES \<and> box_open_easy S c n (box_public S s) t = Some m) \<and>
     (\<forall>m e s. length s = 32 \<longrightarrow> length (box_seal S m e (box_public S s)) = length m + BOX_SEALBYTES \<and>
        box_seal_open S (box_seal S m e (box_public S s)) (box_public S s) s = Some m)"

definition random_sign_ok :: "sodium \<Rightarrow> bool" where
  "random_sign_ok S \<longleftrightarrow>
     (\<forall>m r c. sign_attached S m (snd (sign_keypair S r)) = Some c \<longrightarrow>
        length c = length m + SIGN_BYTES \<and> sign_open S c (fst (sign_keypair S r)) = Some m)"

text \<open>\<open>hex2bin n\<close> fills a buffer of \<open>n\<close> bytes.\<close>

definition hex_ok :: "sodium \<Rightarrow> bool" where
  "hex_ok S \<longleftrightarrow> (\<forall>b. length (bin2hex S b) = 2 * length b \<and> hex2bin S (length b) (bin2hex S b) = b)"

text \<open>
  \<open>sodium_memcmp\<close> tells whether two buffers of one size are equal, \<open>sodium_compare\<close> compares them as
  little-endian numbers, and \<open>sodium_increment\<close> adds one to such a number; the last carry is lost.
\<close>

definition utils_ok :: "sodium \<Rightarrow> bool" where
  "utils_ok S \<longleftrightarrow>
     (\<forall>a b. length a = length b \<longrightarrow> (sodium_memcmp S a b = 0 \<longleftrightarrow> a = b)) \<and>
     (\<forall>a b. length a = length b \<longrightarrow> sodium_compare S a b = sgn (int (value_of 8 a) - int (value_of 8 b))) \<and>
     (\<forall>b. length (sodium_increment S b) = length b \<and>
        value_of 8 (sodium_increment S b) = (value_of 8 b + 1) mod 256 ^ length b)"

section \<open>A small instance\<close>

definition toy_pad :: "nat \<Rightarrow> bytes \<Rightarrow> bytes" where
  "toy_pad n m = take n (m @ replicate n 0)"

definition toy_hex :: "bytes \<Rightarrow> u8 list" where
  "toy_hex b = concat (map (\<lambda>x. [x div 16, x mod 16]) b)"

fun toy_unhex :: "u8 list \<Rightarrow> bytes" where
  "toy_unhex (x # y # r) = (16 * x + y) # toy_unhex r"
| "toy_unhex _ = []"

fun toy_increment :: "bytes \<Rightarrow> bytes" where
  "toy_increment [] = []"
| "toy_increment (x # b) = (let y = x + 1 in y # (if y = 0 then toy_increment b else b))"

lemma length_toy_increment [simp]: "length (toy_increment b) = length b"
  by (induction b) (simp_all add: Let_def)

lemma unat_plus_one: "unat (x + 1 :: u8) = (if x + 1 = 0 then 0 else unat x + 1)"
  using unatSuc [of x] by (auto simp: add.commute)

lemma value_of_toy_increment: "value_of 8 (toy_increment b) = (value_of 8 b + 1) mod 256 ^ length b"
proof (induction b)
  case (Cons x b)
  show ?case
  proof (cases "x + 1 = 0")
    case True
    then have "x = - 1" by (simp add: eq_neg_iff_add_eq_0)
    then have "unat x = 255" by (simp add: unsigned_minus_1_eq_mask mask_eq_exp_minus_1)
    with True Cons show ?thesis by (simp add: mult_mod_right algebra_simps)
  next
    case False
    then have "value_of 8 (toy_increment (x # b)) = value_of 8 (x # b) + 1" by (simp add: unat_plus_one)
    moreover have "value_of 8 (toy_increment (x # b)) < 256 ^ length (x # b)"
      using value_of_bytes_less [of "toy_increment (x # b)"] by (simp only: length_toy_increment power_mult) simp
    ultimately show ?thesis by simp
  qed
qed simp

definition toy_sodium :: sodium where
  "toy_sodium = \<lparr>
     generichash = (\<lambda>n m k. if 16 \<le> n \<and> n \<le> 64 then Some (toy_pad n m) else None),
     pwhash = (\<lambda>s n m salt. Some (toy_pad n (m @ salt))),
     shorthash = (\<lambda>k m. toy_pad 8 (replicate 4 0 @ m)),
     box_public = toy_pad 32,
     box_easy = (\<lambda>m n pk sk. Some (replicate 16 0 @ m)),
     box_open_easy = (\<lambda>c n pk sk. Some (drop 16 c)),
     box_seal = (\<lambda>m e pk. replicate 48 0 @ m),
     box_seal_open = (\<lambda>c pk sk. Some (drop 48 c)),
     box_seed_keypair = (\<lambda>s. (toy_pad 32 s, toy_pad 32 s)),
     sign_seed_keypair = (\<lambda>s. (toy_pad 32 s, toy_pad 64 (toy_pad 32 s))),
     box_keypair = (\<lambda>r. (toy_pad 32 r, toy_pad 32 r)),
     sign_keypair = (\<lambda>r. (toy_pad 32 r, toy_pad 64 (toy_pad 32 r))),
     sign_attached = (\<lambda>m sk. Some (toy_pad 64 sk @ m)),
     sign_open = (\<lambda>c pk. if take 32 c = pk then Some (drop 64 c) else None),
     sign_detached = (\<lambda>m sk. toy_pad 64 sk),
     verify_detached = (\<lambda>sig m pk. take 32 sig = pk),
     sodium_memcmp = (\<lambda>a b. if a = b then 0 else - 1),
     sodium_compare = (\<lambda>a b. sgn (int (value_of 8 a) - int (value_of 8 b))),
     sodium_increment = toy_increment,
     bin2hex = toy_hex,
     hex2bin = (\<lambda>n h. toy_pad n (toy_unhex h)) \<rparr>"

lemma length_toy_pad [simp]: "length (toy_pad n m) = n"
  by (simp add: toy_pad_def)

lemma take_toy_pad: "k \<le> n \<Longrightarrow> take k (toy_pad n (toy_pad k m)) = toy_pad k m"
  by (simp add: toy_pad_def min_def)

lemma toy_pad_full: "length m = n \<Longrightarrow> toy_pad n m = m"
  by (simp add: toy_pad_def)

lemma toy_hash_lengths_ok: "hash_lengths_ok toy_sodium"
  by (auto simp: hash_lengths_ok_def toy_sodium_def)

lemma toy_hash_bounded: "hash_bounded toy_sodium"
  by (simp add: hash_bounded_def toy_sodium_def)

lemma toy_box_ok: "box_ok toy_sodium"
  by (auto simp: box_ok_def toy_sodium_def Let_def)

lemma toy_sign_ok: "sign_ok toy_sodium"
  by (auto simp: sign_ok_def toy_sodium_def take_toy_pad toy_pad_full)

lemma toy_random_ok: "random_keys_ok toy_sodium" "random_box_ok toy_sodium" "random_sign_ok toy_sodium"
  by (auto simp: random_keys_ok_def random_box_ok_def random_sign_ok_def toy_sodium_def take_toy_pad toy_pad_full)

lemma toy_utils_ok: "utils_ok toy_sodium"
  unfolding utils_ok_def by (simp add: toy_sodium_def value_of_toy_increment)

lemma toy_hex_ok: "hex_ok toy_sodium"
proof -
  have "16 * (x div 16) + x mod 16 = x" for x :: u8
    by (metis mult_div_mod_eq)
  then have "toy_unhex (toy_hex b) = b" for b
    by (induction b) (simp_all add: toy_hex_def)
  moreover have "length (toy_hex b) = 2 * length b" for b
    by (induction b) (simp_all add: toy_hex_def)
  ultimately show ?thesis by (simp add: hex_ok_def toy_sodium_def toy_pad_full)
qed

end
