(* ===== verification/Byte_Buffer.thy ===== *)
theory Byte_Buffer
  imports Prelude
begin

text \<open>
  \<open>struct Bytes\<close> of \<open>inc/type.h\<close>: the byte vector every message, hash and key of the program is.
  The conversions to and from \<open>std::bitset\<close> (used by the word list tools), the XOR with a key
  stream, and the view of a buffer as Cap'n Proto words.
\<close>

section \<open>Construction\<close>

definition bytes_of_size :: "nat \<Rightarrow> bytes" where
  "bytes_of_size n = replicate n 0"

definition bytes_zero :: "bytes \<Rightarrow> bytes" where
  "bytes_zero b = map (\<lambda>_. 0) b"

text \<open>
  \<open>Bytes(std::bitset<N> &)\<close>. The loop state is \<open>idx\<close>, \<open>n\<close>, \<open>u\<close> and the vector, which has
  \<open>(N + 1) / 8\<close> elements; the store \<open>(*this)[idx++] = u\<close> is unchecked.
\<close>

fun bitset_pack :: "bool list \<Rightarrow> nat \<Rightarrow> nat \<Rightarrow> u8 \<Rightarrow> bytes \<Rightarrow> (nat \<times> u8 \<times> bytes) result" where
  "bitset_pack [] idx n u v = Inr (idx, u, v)"
| "bitset_pack (b # bits) idx n u v =
     (let u' = shift_in u b; n' = n + 1 in
      if n' = 8 then bindR (vec_set v idx u') (\<lambda>v'. bitset_pack bits (idx + 1) 0 0 v')
      else bitset_pack bits idx n' u' v)"

definition bytes_of_bitset :: "bool list \<Rightarrow> bytes result" where
  "bytes_of_bitset bits =
     bindR (bitset_pack bits 0 0 0 (bytes_of_size ((length bits + 1) div 8)))
       (\<lambda>(idx, u, v). Inr (if idx < length v then v[idx := u] else v))"

text \<open>
  \<open>std::bitset<N> bitset()\<close>: bit \<open>i\<close> is read from byte \<open>idx\<close> under a mask that counts from the top
  of the byte, or from bit \<open>N % 8 - 1\<close> in the last, partial one. In that byte \<open>n < base\<close>, so the
  subtractions do not go below zero.
\<close>

function bitset_read :: "nat \<Rightarrow> bytes \<Rightarrow> nat \<Rightarrow> nat \<Rightarrow> nat \<Rightarrow> bool list result" where
  "bitset_read N v i idx n =
     (if i < N then
        let base = (if i div 8 = N div 8 then N mod 8 else 8);
            mask = push_bit (base - 1 - n) 1 in
        bindR (vec_get v idx) (\<lambda>x.
          let n' = n + 1; (idx', n'') = (if n' = 8 then (idx + 1, 0) else (idx, n')) in
          bindR (bitset_read N v (i + 1) idx' n'') (\<lambda>bits. Inr ((x AND mask \<noteq> 0) # bits)))
      else Inr [])"
  by pat_completeness auto
termination
  by (relation "measure (\<lambda>(N, v, i, idx, n). N - i)") auto

declare bitset_read.simps [simp del]

definition bitset_of_bytes :: "nat \<Rightarrow> bytes \<Rightarrow> bool list result" where
  "bitset_of_bytes N v = bitset_read N v 0 0 0"

section \<open>XOR and word views\<close>

definition x_or :: "bytes \<Rightarrow> bytes \<Rightarrow> bytes result" where
  "x_or this b = bindR (assertR (length b = length this) AssertFailed)
     (\<lambda>_. Inr (map2 (XOR) this b))"

text \<open>\<open>kjwp()\<close>: how many eight-byte Cap'n Proto words the returned \<open>ArrayPtr\<close> claims.\<close>

definition kjwp_words :: "bytes \<Rightarrow> nat" where
  "kjwp_words b = (length b + 1) div 2"

section \<open>The bitset conversions\<close>

lemma bitset_pack_partial:
  "n + length c < 8 \<Longrightarrow>
     bitset_pack (c @ bits) idx n u v = bitset_pack bits idx (n + length c) (foldl shift_in u c) v"
  by (induction c arbitrary: n u) (simp_all add: Let_def)

lemma bitset_pack_byte:
  assumes "length c = 8"
  shows "bitset_pack (c @ bits) idx 0 0 v =
    bindR (vec_set v idx (word_of_bits c)) (\<lambda>v'. bitset_pack bits (idx + 1) 0 0 v')"
proof -
  from assms obtain c' b where c: "c = c' @ [b]" "length c' = 7"
    by (cases c rule: rev_cases) auto
  with bitset_pack_partial [of 0 c' "b # bits" idx 0 v] show ?thesis
    by (simp add: word_of_bits_def)
qed

lemma bitset_pack_eq:
  "idx + length bits div 8 \<le> length v \<Longrightarrow>
     bitset_pack bits idx 0 0 v =
       Inr (idx + length bits div 8, word_of_bits (drop (8 * (length bits div 8)) bits),
            take idx v @ full_bytes bits @ drop (idx + length bits div 8) v)"
proof (induction bits arbitrary: idx v rule: full_bytes.induct)
  case (1 bits)
  show ?case
  proof (cases "length bits < 8")
    case True
    then show ?thesis
      using bitset_pack_partial [of 0 bits "[]" idx 0 v] by (simp add: word_of_bits_def)
  next
    case False
    let ?c = "take 8 bits" and ?r = "drop 8 bits"
    let ?v = "v[idx := word_of_bits ?c]"
    from False have q: "length bits div 8 = Suc (length ?r div 8)" by (simp add: le_div_geq)
    with "1.prems" have idx: "idx < length v" by simp
    have "bitset_pack bits idx 0 0 v = bitset_pack ?r (idx + 1) 0 0 ?v"
      using bitset_pack_byte [of ?c ?r idx v] False idx by simp
    also have "\<dots> = Inr (idx + 1 + length ?r div 8, word_of_bits (drop (8 * (length ?r div 8)) ?r),
            take (idx + 1) ?v @ full_bytes ?r @ drop (idx + 1 + length ?r div 8) ?v)"
      using "1.IH" [of "idx + 1" ?v] False "1.prems" q by simp
    also have "take (idx + 1) ?v = take idx v @ [word_of_bits ?c]"
      using idx by (simp add: take_Suc_conv_app_nth)
    also have "drop (idx + 1 + length ?r div 8) ?v = drop (idx + length bits div 8) v"
      using q by simp
    finally show ?thesis
      using False q by (simp add: add.commute full_bytes_long)
  qed
qed

lemma bytes_of_bitset_eq:
  "bytes_of_bitset bits =
     Inr (full_bytes bits @
       (if length bits mod 8 = 7 then [word_of_bits (drop (8 * (length bits div 8)) bits)] else []))"
proof -
  let ?N = "length bits"
  have sz: "(?N + 1) div 8 = ?N div 8 + (if ?N mod 8 = 7 then 1 else 0)"
    by (simp add: div_Suc mod_Suc)
  then show ?thesis
    using bitset_pack_eq [of 0 bits "bytes_of_size ((?N + 1) div 8)"]
    by (auto simp: bytes_of_bitset_def bytes_of_size_def list_update_append)
qed

definition bitset_bit :: "nat \<Rightarrow> bytes \<Rightarrow> nat \<Rightarrow> bool" where
  "bitset_bit N v i \<longleftrightarrow>
     bit (v ! (i div 8)) ((if i div 8 = N div 8 then N mod 8 else 8) - 1 - i mod 8)"

lemma bitset_read_step:
  assumes "i < N" and "i div 8 < length v"
  shows "bitset_read N v i (i div 8) (i mod 8) =
    bindR (bitset_read N v (i + 1) ((i + 1) div 8) ((i + 1) mod 8))
      (\<lambda>bits. Inr (bitset_bit N v i # bits))"
proof -
  have "(if i mod 8 + 1 = 8 then (i div 8 + 1, 0) else (i div 8, i mod 8 + 1)) =
        ((i + 1) div 8, (i + 1) mod 8)" by (simp add: mod_Suc div_Suc)
  with assms show ?thesis
    by (subst bitset_read.simps)
       (simp add: Let_def and_exp_eq_0_iff_not_bit bitset_bit_def del: One_nat_def)
qed

lemma bitset_read_ok:
  "N \<le> 8 * length v \<Longrightarrow> i \<le> N \<Longrightarrow>
     bitset_read N v i (i div 8) (i mod 8) = Inr (map (bitset_bit N v) [i..<N])"
proof (induction "N - i" arbitrary: i)
  case 0
  then show ?case by (subst bitset_read.simps) simp
next
  case (Suc d)
  then have "i < N" and "i div 8 < length v" by (auto simp: div_less_iff_less_mult mult.commute)
  with Suc.hyps(1) [of "i + 1"] Suc.hyps(2) Suc.prems show ?case
    by (simp add: bitset_read_step upt_conv_Cons)
qed

lemma bitset_read_out:
  "8 * length v < N \<Longrightarrow> i \<le> 8 * length v \<Longrightarrow>
     bitset_read N v i (i div 8) (i mod 8) = Inl OutOfBounds"
proof (induction "8 * length v - i" arbitrary: i)
  case 0
  then have "i = 8 * length v" by simp
  with 0 show ?case by (subst bitset_read.simps) simp
next
  case (Suc d)
  then have "i < N" and "i div 8 < length v" by (auto simp: div_less_iff_less_mult mult.commute)
  with Suc.hyps(1) [of "i + 1"] Suc.hyps(2) Suc.prems show ?case
    by (simp add: bitset_read_step)
qed

lemma bitset_of_bytes_eq:
  "bitset_of_bytes N v =
     (if N \<le> 8 * length v then Inr (map (bitset_bit N v) [0..<N]) else Inl OutOfBounds)"
  using bitset_read_ok [of N v 0] bitset_read_out [of v N 0] by (simp add: bitset_of_bytes_def)

lemma bitset_whole_roundtrip:
  assumes m: "length bits mod 8 \<in> {0, 7}"
  shows "bindR (bytes_of_bitset bits) (bitset_of_bytes (length bits)) = Inr bits"
proof -
  let ?N = "length bits" and ?q = "length bits div 8"
  let ?tail = "if ?N mod 8 = 7 then [word_of_bits (drop (8 * ?q) bits)] else []"
  have N: "?N = 8 * ?q + ?N mod 8" by simp
  have bit: "bitset_bit ?N (full_bytes bits @ ?tail) i \<longleftrightarrow> bits ! i"
    if i: "i < ?N" for i
  proof (cases "i < 8 * ?q")
    case True
    then have "i div 8 < ?q" by (simp add: div_less_iff_less_mult mult.commute)
    with True show ?thesis by (simp add: bitset_bit_def nth_append bit_full_bytes)
  next
    case False
    with m i N have m7: "?N mod 8 = 7" by auto
    from False m7 i N obtain r where r: "i = 8 * ?q + r" and k: "r < 7"
      by (metis add_less_cancel_left le_Suc_ex not_less)
    then have iq: "i div 8 = ?q" and im: "i mod 8 = r" by simp_all
    from m7 N have len: "length (drop (8 * ?q) bits) = 7" by simp
    from k have "bit (word_of_bits (drop (8 * ?q) bits) :: u8) (6 - r)
        \<longleftrightarrow> drop (8 * ?q) bits ! r"
      using bit_word_of_bits_index [of r "drop (8 * ?q) bits", where 'a = 8, unfolded len] by simp
    also have "\<dots> \<longleftrightarrow> bits ! i" using r i by simp
    finally show ?thesis using m7 iq im by (simp add: bitset_bit_def nth_append)
  qed
  from m have "?N \<le> 8 * length (full_bytes bits @ ?tail)" using N by auto
  moreover have "map (bitset_bit ?N (full_bytes bits @ ?tail)) [0..<?N] = bits"
    using bit by (intro nth_equalityI) auto
  ultimately show ?thesis by (simp add: bytes_of_bitset_eq bitset_of_bytes_eq)
qed

text \<open>Packing a bitset of any size \<open>N\<close> into bytes and reading \<open>N\<close> bits back gives the
  bitset when \<open>N mod 8\<close> is 0 or 7, and runs off the vector for every other size, because the
  constructor allocates \<open>(N + 1) / 8\<close> bytes.\<close>

lemma bitset_roundtrip:
  "bindR (bytes_of_bitset bits) (bitset_of_bytes (length bits)) =
     (if length bits mod 8 \<in> {0, 7} then Inr bits else Inl OutOfBounds)"
proof (cases "length bits mod 8 \<in> {0, 7}")
  case False
  then have "0 < length bits mod 8" by simp
  moreover have "length bits = 8 * (length bits div 8) + length bits mod 8" by simp
  ultimately have "\<not> length bits \<le> 8 * (length bits div 8)" by linarith
  with False show ?thesis by (simp add: bytes_of_bitset_eq bitset_of_bytes_eq)
qed (simp add: bitset_whole_roundtrip)

lemma x_or_length: "x_or a b = Inr c \<Longrightarrow> length c = length a \<and> length b = length a"
  by (auto simp: x_or_def bindR_eq_Inr)

text \<open>XOR with a key stream is undone by XOR with the same key stream; a key stream of
  another length aborts.\<close>

lemma x_or_involution:
  "bindR (x_or a b) (\<lambda>c. x_or c b) =
     (if length b = length a then Inr a else Inl AssertFailed)"
proof (cases "length b = length a")
  case True
  then have "map2 (XOR) (map2 (XOR) a b) b = a"
    by (induction a b rule: list_induct2') (auto simp: xor.assoc)
  with True show ?thesis by (simp add: x_or_def)
qed (simp add: x_or_def)

section \<open>Masking\<close>

text \<open>
  What the password tools rely on: a message combined with a key stream of its size is a message of
  this size, from which the same key stream gives the first one back.
\<close>

locale masking =
  fixes combine :: "bytes \<Rightarrow> bytes \<Rightarrow> bytes result"
  assumes combine_total: "length k = length m \<Longrightarrow> \<exists>c. combine m k = Inr c"
    and combine_length: "combine m k = Inr c \<Longrightarrow> length c = length m"
    and combine_twice: "length k = length m \<Longrightarrow> bindR (combine m k) (\<lambda>c. combine c k) = Inr m"
begin

lemma mask_recovers:
  assumes "\<And>n. length (stream n) = n"
  obtains c where "combine m (stream (length m)) = Inr c" and "length c = length m"
    and "combine c (stream (length c)) = Inr m"
proof -
  obtain c where c: "combine m (stream (length m)) = Inr c" using combine_total assms by blast
  then have "length c = length m" by (rule combine_length)
  moreover from this have "combine c (stream (length c)) = Inr m"
    using combine_twice [of "stream (length m)" m] assms c by simp
  ultimately show ?thesis using c that by blast
qed

lemma combine_inj:
  assumes "combine m k = Inr c" and "combine m' k = Inr c" and "length k = length m" and "length k = length m'"
  shows "m = m'"
  using combine_twice [OF assms(3)] combine_twice [OF assms(4)] assms(1,2) by simp

end

interpretation xor_mask: masking x_or
proof
  show "length c = length m" if "x_or m k = Inr c" for m k c
    using x_or_length [OF that] by simp
  show "bindR (x_or m k) (\<lambda>c. x_or c k) = Inr m" if "length k = length m" for m k
    using x_or_involution [of m k] that by simp
qed (simp add: x_or_def)

end
