(* ===== verification/Curve.thy ===== *)
theory Curve
  imports Sodium Byte_Buffer
begin

text \<open>
  \<open>src/curve.cc\<close> and the inline parts of \<open>inc/curve.h\<close>: the wrappers around libsodium. The return
  values of the hash functions are not checked by the code, so a hash that libsodium refuses to
  compute is the zero-filled vector the constructor allocated.
\<close>

section \<open>Byte comparison and wiping\<close>

definition bytes_equal :: "sodium \<Rightarrow> bytes \<Rightarrow> bytes \<Rightarrow> bool" where
  "bytes_equal S b1 b2 = (if length b1 \<noteq> length b2 then False else sodium_memcmp S b1 b2 = 0)"

definition bytes_compare :: "sodium \<Rightarrow> bytes \<Rightarrow> bytes \<Rightarrow> int result" where
  "bytes_compare S b1 b2 = bindR (assertR (length b1 = length b2) AssertFailed) (\<lambda>_. Inr (sodium_compare S b1 b2))"

definition zero_bytes :: "bytes \<Rightarrow> bytes" where
  "zero_bytes b = map (\<lambda>_. 0) b"

text \<open>\<open>SafeBytes::resize\<close> wipes the old contents before the vector is resized.\<close>

definition safe_resize :: "bytes \<Rightarrow> nat \<Rightarrow> bytes" where
  "safe_resize b n = (let b' = (if length b \<noteq> 0 then zero_bytes b else b) in
     take n b' @ replicate (n - length b') 0)"

section \<open>Hashes\<close>

definition buffer_after :: "nat \<Rightarrow> bytes option \<Rightarrow> bytes" where
  "buffer_after n r = (case r of Some h \<Rightarrow> h | None \<Rightarrow> bytes_of_size n)"

definition hash_n :: "sodium \<Rightarrow> bytes \<Rightarrow> nat \<Rightarrow> bytes" where
  "hash_n S m nbytes = buffer_after nbytes (generichash S nbytes m None)"

definition hash :: "sodium \<Rightarrow> bytes \<Rightarrow> bytes" where
  "hash S m = buffer_after GENERICHASH_BYTES (generichash S GENERICHASH_BYTES m None)"

definition hash_keyed :: "sodium \<Rightarrow> bytes \<Rightarrow> bytes \<Rightarrow> bytes" where
  "hash_keyed S m k = buffer_after GENERICHASH_BYTES (generichash S GENERICHASH_BYTES m (Some k))"

text \<open>\<open>HardHashSalt(Bytes &)\<close>\<close>

definition hard_hash_salt :: "bytes \<Rightarrow> bytes result" where
  "hard_hash_salt b = bindR (assertR (PWHASH_SALTBYTES = length b) AssertFailed) (\<lambda>_. Inr b)"

definition hard_hash_salted :: "sodium \<Rightarrow> bytes \<Rightarrow> bytes \<Rightarrow> bytes" where
  "hard_hash_salted S m salt = buffer_after 32 (pwhash S Interactive 32 m salt)"

definition hard_hash :: "sodium \<Rightarrow> bytes \<Rightarrow> bytes" where
  "hard_hash S m =
     (let salt = hash_n S m PWHASH_SALTBYTES in buffer_after 32 (pwhash S Interactive 32 m salt))"

definition hardest_hash_salted :: "sodium \<Rightarrow> bytes \<Rightarrow> bytes \<Rightarrow> bytes" where
  "hardest_hash_salted S m salt = buffer_after 32 (pwhash S Sensitive 32 m salt)"

definition hardest_hash :: "sodium \<Rightarrow> bytes \<Rightarrow> bytes" where
  "hardest_hash S m =
     (let salt = hash_n S m PWHASH_SALTBYTES in buffer_after 32 (pwhash S Sensitive 32 m salt))"

section \<open>Keys\<close>

text \<open>
  Key pairs from a seed, the public key first, and the public key of a secret key. libsodium reads
  32 bytes whatever the size of the vector is. The constructor of \<open>Seed\<close> takes a vector of any size:
  its assertion compares the size of the vector with that of the copy.
\<close>

definition seed_of :: "bytes \<Rightarrow> bytes result" where
  "seed_of b = (let this = b in bindR (assertR (length b = length this) AssertFailed) (\<lambda>_. Inr this))"

definition secret_key_pub :: "sodium \<Rightarrow> bytes \<Rightarrow> bytes result" where
  "secret_key_pub S this = bindR (assertR (32 \<le> length this) OutOfBounds)
     (\<lambda>_. Inr (box_public S (take 32 this)))"

definition key_pair_of_seed :: "sodium \<Rightarrow> bytes \<Rightarrow> (bytes \<times> bytes) result" where
  "key_pair_of_seed S seed = bindR (assertR (32 \<le> length seed) OutOfBounds)
     (\<lambda>_. Inr (box_seed_keypair S (take 32 seed)))"

definition sign_key_pair_of_seed :: "sodium \<Rightarrow> bytes \<Rightarrow> (bytes \<times> bytes) result" where
  "sign_key_pair_of_seed S seed = bindR (assertR (32 \<le> length seed) OutOfBounds)
     (\<lambda>_. Inr (sign_seed_keypair S (take 32 seed)))"

lemma length_buffer_after: "(\<And>h. r = Some h \<Longrightarrow> length h = n) \<Longrightarrow> length (buffer_after n r) = n"
  by (cases r) (simp_all add: buffer_after_def bytes_of_size_def)

lemma length_hashes:
  assumes "hash_lengths_ok S"
  shows "length (hash_n S m n) = n" and "length (hash S m) = 32" and "length (hash_keyed S m k) = 32"
    and "length (hard_hash S m) = 32" and "length (hardest_hash_salted S m salt) = 32"
    and "length (hard_hash_salted S m salt) = 32" and "length (hardest_hash S m) = 32"
  using assms
  by (auto simp: hash_lengths_ok_def hash_n_def hash_def hash_keyed_def hard_hash_def
      hard_hash_salted_def hardest_hash_salted_def hardest_hash_def Let_def intro!: length_buffer_after)

section \<open>Messages\<close>

record encrypted_message =
  em_message :: bytes
  em_enc :: bytes
  em_nonce :: bytes

text \<open>The nonce is drawn by the member's constructor; it is an argument here.\<close>

definition encrypt :: "sodium \<Rightarrow> bytes \<Rightarrow> bytes \<Rightarrow> bytes \<Rightarrow> bytes \<Rightarrow> encrypted_message result" where
  "encrypt S nonce message pub priv =
     (case box_easy S message nonce pub priv of
        None \<Rightarrow> Inl (Thrown ''encryption failed'')
      | Some c \<Rightarrow> Inr \<lparr>em_message = message, em_enc = c, em_nonce = nonce\<rparr>)"

definition decrypt :: "sodium \<Rightarrow> encrypted_message \<Rightarrow> bytes \<Rightarrow> bytes \<Rightarrow> bytes \<Rightarrow> bool \<times> encrypted_message" where
  "decrypt S em pub priv nonce =
     (if length (em_enc em) \<le> BOX_MACBYTES then (False, em)
      else
        let m = safe_resize (em_message em) (length (em_enc em) - BOX_MACBYTES) in
        (case box_open_easy S (em_enc em) nonce pub priv of
           None \<Rightarrow> (False, em\<lparr>em_message := m\<rparr>)
         | Some p \<Rightarrow> (True, em\<lparr>em_message := p\<rparr>)))"

record sealed_message =
  sm_message :: bytes
  sm_sealed :: bytes

text \<open>\<open>eph\<close> is the randomness \<open>crypto_box_seal\<close> draws.\<close>

definition seal :: "sodium \<Rightarrow> bytes \<Rightarrow> bytes \<Rightarrow> bytes \<Rightarrow> sealed_message" where
  "seal S eph message pub = \<lparr>sm_message = message, sm_sealed = box_seal S message eph pub\<rparr>"

definition unseal :: "sodium \<Rightarrow> sealed_message \<Rightarrow> bytes \<Rightarrow> bytes \<Rightarrow> bool \<times> sealed_message" where
  "unseal S sm pub priv =
     (if length (sm_sealed sm) \<le> BOX_SEALBYTES then (False, sm)
      else
        let m = safe_resize (sm_message sm) (length (sm_sealed sm) - BOX_SEALBYTES) in
        (case box_seal_open S (sm_sealed sm) pub priv of
           None \<Rightarrow> (False, sm\<lparr>sm_message := m\<rparr>)
         | Some p \<Rightarrow> (True, sm\<lparr>sm_message := p\<rparr>)))"

record signed_message =
  sg_message :: bytes
  sg_signed :: bytes

definition sign_message :: "sodium \<Rightarrow> bytes \<Rightarrow> bytes \<Rightarrow> signed_message result" where
  "sign_message S message sk =
     (case sign_attached S message sk of
        None \<Rightarrow> Inl (Thrown ''Signing failed'')
      | Some c \<Rightarrow> Inr \<lparr>sg_message = message, sg_signed = c\<rparr>)"

definition verify_message :: "sodium \<Rightarrow> signed_message \<Rightarrow> bytes \<Rightarrow> bool \<times> signed_message" where
  "verify_message S sg pub =
     (if length (sg_signed sg) \<le> SIGN_BYTES then (False, sg)
      else
        let m = safe_resize (sg_message sg) (length (sg_signed sg) - SIGN_BYTES) in
        (case sign_open S (sg_signed sg) pub of
           None \<Rightarrow> (False, sg\<lparr>sg_message := m\<rparr>)
         | Some p \<Rightarrow> (True, sg\<lparr>sg_message := p\<rparr>)))"

text \<open>
  Detached signatures. \<open>crypto_sign_verify_detached\<close> reads 64 bytes of signature and 32 bytes of
  key whatever the sizes of the two vectors are.
\<close>

definition signature :: "sodium \<Rightarrow> bytes \<Rightarrow> bytes \<Rightarrow> bytes" where
  "signature S message sk = sign_detached S message sk"

definition signature_verify :: "sodium \<Rightarrow> bytes \<Rightarrow> bytes \<Rightarrow> bytes \<Rightarrow> bool result" where
  "signature_verify S sig message pub =
     bindR (assertR (SIGN_BYTES \<le> length sig \<and> SIGN_PUBLICKEYBYTES \<le> length pub) OutOfBounds)
       (\<lambda>_. Inr (verify_detached S (take SIGN_BYTES sig) message (take SIGN_PUBLICKEYBYTES pub)))"

section \<open>Properties\<close>

lemma bytes_equal_iff: "utils_ok S \<Longrightarrow> bytes_equal S b1 b2 \<longleftrightarrow> b1 = b2"
  by (auto simp: bytes_equal_def utils_ok_def)

lemma value_of_inj: "length xs = length ys \<Longrightarrow> value_of 8 xs = value_of 8 ys \<Longrightarrow> xs = ys"
proof (induction xs ys rule: list_induct2)
  case (Cons x xs y ys)
  have lt: "unat x < 256" "unat y < 256" using unsigned_less [of x] unsigned_less [of y] by simp_all
  from Cons.prems have e: "unat x + 256 * value_of 8 xs = unat y + 256 * value_of 8 ys" by simp
  from lt have "(unat x + 256 * value_of 8 xs) mod 256 = unat x"
    and "(unat y + 256 * value_of 8 ys) mod 256 = unat y" by simp_all
  with e have "unat x = unat y" by simp
  with e have "x = y" and "value_of 8 xs = value_of 8 ys" by (simp_all add: word_unat_eq_iff)
  with Cons.IH show ?case by simp
qed simp

text \<open>On vectors of one size \<open>bytes_compare\<close> is a three-way comparison that returns 0 exactly on
  equal vectors, changes its sign when the arguments are exchanged, and aborts on two sizes.\<close>

lemma bytes_compare_order:
  assumes "utils_ok S"
  shows "bytes_compare S a b =
     (if length a \<noteq> length b then Inl AssertFailed
      else if a = b then Inr 0 else if value_of 8 a < value_of 8 b then Inr (- 1) else Inr 1)
   \<and> (\<forall>r. bytes_compare S a b = Inr r \<longrightarrow> bytes_compare S b a = Inr (- r))"
  using value_of_inj [of a b] assms
  by (cases "length a = length b") (auto simp: bytes_compare_def utils_ok_def sgn_if assertR_def)

text \<open>What \<open>EncryptedMessage\<close>, \<open>SealedMessage\<close> and \<open>SignedMessage\<close> produce for a non-empty message,
  their receiving side accepts and restores; for an empty message the receiving side always fails,
  because it takes a ciphertext of exactly the overhead for too short.\<close>

lemma message_roundtrips:
  assumes "box_ok S" and "sign_ok S"
    and keys: "box_seed_keypair S a = (pk_a, sk_a)" "box_seed_keypair S b = (pk_b, sk_b)"
      "sign_seed_keypair S a = (vk, sk)"
    and enc: "encrypt S nonce m pk_b sk_a = Inr em" and sg: "sign_message S m sk = Inr sg"
  shows "(let r = decrypt S (em\<lparr>em_message := []\<rparr>) pk_a sk_b nonce in
      (fst r \<longleftrightarrow> m \<noteq> []) \<and> em_message (snd r) = m)
    \<and> (let r = unseal S ((seal S eph m pk_b)\<lparr>sm_message := []\<rparr>) pk_b sk_b in
      (fst r \<longleftrightarrow> m \<noteq> []) \<and> sm_message (snd r) = m)
    \<and> (let r = verify_message S (sg\<lparr>sg_message := []\<rparr>) vk in
      (fst r \<longleftrightarrow> m \<noteq> []) \<and> sg_message (snd r) = m)"
proof -
  obtain c where c: "box_easy S m nonce pk_b sk_a = Some c" and em: "em_enc em = c"
    using enc by (auto simp: encrypt_def split: option.splits)
  have "length c = length m + 16" and "box_open_easy S c nonce pk_a sk_b = Some m"
    using assms(1) keys c unfolding box_ok_def by (metis fst_conv snd_conv)+
  with em have 1: "let r = decrypt S (em\<lparr>em_message := []\<rparr>) pk_a sk_b nonce in
      (fst r \<longleftrightarrow> m \<noteq> []) \<and> em_message (snd r) = m"
    by (auto simp: decrypt_def Let_def)
  have "length (box_seal S m eph pk_b) = length m + 48"
    and "box_seal_open S (box_seal S m eph pk_b) pk_b sk_b = Some m"
    using assms(1) keys unfolding box_ok_def Let_def by (metis fst_conv snd_conv)+
  then have 2: "let r = unseal S ((seal S eph m pk_b)\<lparr>sm_message := []\<rparr>) pk_b sk_b in
      (fst r \<longleftrightarrow> m \<noteq> []) \<and> sm_message (snd r) = m"
    by (auto simp: unseal_def seal_def Let_def)
  obtain d where d: "sign_attached S m sk = Some d" and s: "sg_signed sg = d"
    using sg by (auto simp: sign_message_def split: option.splits)
  have "length d = length m + 64" and "sign_open S d vk = Some m"
    using assms(2) keys d unfolding sign_ok_def by (metis fst_conv snd_conv)+
  with s have 3: "let r = verify_message S (sg\<lparr>sg_message := []\<rparr>) vk in
      (fst r \<longleftrightarrow> m \<noteq> []) \<and> sg_message (snd r) = m"
    by (auto simp: verify_message_def Let_def)
  from 1 2 3 show ?thesis by simp
qed

end
