(* ===== verification/Merkle.thy ===== *)
theory Merkle
  imports Curve
begin

text \<open>
  \<open>hash_twin\<close> and \<open>hash_vec\<close> of \<open>inc/curve.h\<close>: the hash tree over a list of byte vectors, computed
  level by level, where the last entry of a level of odd length is paired with itself. The vector
  of pointers the code takes is the list of the vectors pointed to, which it only reads.
\<close>

section \<open>The code\<close>

definition hash_twin :: "sodium \<Rightarrow> bytes \<Rightarrow> bytes \<Rightarrow> bytes" where
  "hash_twin S b1 b2 = hash S (b1 @ b2)"

text \<open>One pass of either \<open>for\<close> loop; the last index of a list of odd length is the second equation.\<close>

fun twin_level :: "sodium \<Rightarrow> bytes list \<Rightarrow> bytes list" where
  "twin_level S [] = []"
| "twin_level S [x] = [hash_twin S x x]"
| "twin_level S (x # y # xs) = hash_twin S x y # twin_level S xs"

lemma length_twin_level [simp]: "length (twin_level S xs) = (length xs + 1) div 2"
  by (induction S xs rule: twin_level.induct) simp_all

function hash_levels :: "sodium \<Rightarrow> bytes list \<Rightarrow> bytes list" where
  "hash_levels S hashes = (if 1 < length hashes then hash_levels S (twin_level S hashes) else hashes)"
  by pat_completeness auto
termination
  by (relation "measure (\<lambda>(S, hashes). length hashes)") auto

declare hash_levels.simps [simp del]

definition hash_vec :: "sodium \<Rightarrow> bytes list \<Rightarrow> bytes result" where
  "hash_vec S hash_set = bindR (assertR (0 < length hash_set) AssertFailed)
     (\<lambda>_. vec_get (hash_levels S (twin_level S hash_set)) 0)"

section \<open>A tree read from the root\<close>

text \<open>The root of the tree of height \<open>k\<close> over at most \<open>2 ^ k\<close> leaves, whose missing right subtrees
  are copies of the left ones.\<close>

fun tree_root :: "sodium \<Rightarrow> nat \<Rightarrow> bytes list \<Rightarrow> bytes" where
  "tree_root S 0 xs = hd xs"
| "tree_root S (Suc k) xs =
     (let l = tree_root S k (take (2 ^ k) xs) in
      if length xs \<le> 2 ^ k then hash_twin S l l
      else hash_twin S l (tree_root S k (drop (2 ^ k) xs)))"

text \<open>The height of the tree over \<open>n\<close> leaves: at least 1, because single leaves are hashed too.\<close>

function tree_height :: "nat \<Rightarrow> nat" where
  "tree_height n = (if n \<le> 2 then 1 else Suc (tree_height ((n + 1) div 2)))"
  by pat_completeness auto
termination
  by (relation "measure id") auto

declare tree_height.simps [simp del]

lemma take_twin_level: "take n (twin_level S xs) = twin_level S (take (2 * n) xs)"
proof (induction S xs arbitrary: n rule: twin_level.induct)
  case (2 S x) then show ?case by (cases n) simp_all
next
  case (3 S x y xs) then show ?case by (cases n) simp_all
qed simp

lemma drop_twin_level: "drop n (twin_level S xs) = twin_level S (drop (2 * n) xs)"
proof (induction S xs arbitrary: n rule: twin_level.induct)
  case (2 S x) then show ?case by (cases n) simp_all
next
  case (3 S x y xs) then show ?case by (cases n) simp_all
qed simp

lemma tree_root_level: "xs \<noteq> [] \<Longrightarrow> tree_root S (Suc k) xs = tree_root S k (twin_level S xs)"
proof (induction k arbitrary: xs)
  case 0
  then show ?case by (cases "(S, xs)" rule: twin_level.cases) (auto simp: Let_def)
next
  case (Suc k)
  let ?n = "2 * 2 ^ k :: nat"
  have nz: "take ?n xs \<noteq> []" using Suc.prems by simp
  have iff: "length (twin_level S xs) \<le> 2 ^ k \<longleftrightarrow> length xs \<le> ?n" by auto
  have l: "tree_root S (Suc k) (take ?n xs) = tree_root S k (take (2 ^ k) (twin_level S xs))"
    using Suc.IH [OF nz] by (simp add: take_twin_level)
  show ?case
  proof (cases "length xs \<le> ?n")
    case True
    with l iff show ?thesis unfolding tree_root.simps(2) [of S "Suc k"] by (simp add: Let_def)
  next
    case False
    then have "drop ?n xs \<noteq> []" by simp
    from Suc.IH [OF this]
    have r: "tree_root S (Suc k) (drop ?n xs) = tree_root S k (drop (2 ^ k) (twin_level S xs))"
      by (simp add: drop_twin_level)
    from False l r iff show ?thesis unfolding tree_root.simps(2) [of S "Suc k"] by (simp add: Let_def)
  qed
qed

lemma hash_levels_root:
  "xs \<noteq> [] \<Longrightarrow> hash_levels S (twin_level S xs) = [tree_root S (tree_height (length xs)) xs]"
proof (induction "length xs" arbitrary: xs rule: less_induct)
  case less
  show ?case
  proof (cases "length xs \<le> 2")
    case True
    with less.prems show ?thesis
      by (cases "(S, xs)" rule: twin_level.cases)
        (auto simp: hash_levels.simps tree_height.simps Let_def)
  next
    case False
    let ?ys = "twin_level S xs"
    from False have "length ?ys < length xs" by simp
    moreover from less.prems have "?ys \<noteq> []" by (cases "(S, xs)" rule: twin_level.cases) auto
    ultimately have "hash_levels S (twin_level S ?ys) = [tree_root S (tree_height (length ?ys)) ?ys]"
      using less.hyps by blast
    moreover from False have "1 < length ?ys" by simp
    then have "hash_levels S ?ys = hash_levels S (twin_level S ?ys)"
      by (simp add: hash_levels.simps [of S ?ys])
    moreover from False have "tree_height (length xs) = Suc (tree_height (length ?ys))"
      by (simp add: tree_height.simps [of "length xs"])
    ultimately show ?thesis using tree_root_level [OF less.prems] by simp
  qed
qed

lemma hash_vec_root: "xs \<noteq> [] \<Longrightarrow> hash_vec S xs = Inr (tree_root S (tree_height (length xs)) xs)"
  by (simp add: hash_vec_def hash_levels_root)

lemma tree_height_bounds:
  "1 \<le> n \<Longrightarrow> n \<le> 2 ^ tree_height n \<and> (2 < n \<longrightarrow> 2 ^ (tree_height n - 1) < n) \<and> 1 \<le> tree_height n"
proof (induction n rule: tree_height.induct)
  case (1 n)
  show ?case
  proof (cases "n \<le> 2")
    case False
    let ?m = "(n + 1) div 2"
    from False 1 have IH: "?m \<le> 2 ^ tree_height ?m" "2 < ?m \<longrightarrow> 2 ^ (tree_height ?m - 1) < ?m" "1 \<le> tree_height ?m"
      by auto
    have h: "tree_height n = Suc (tree_height ?m)" using False by (simp add: tree_height.simps [of n])
    have "2 ^ tree_height ?m < n"
    proof (cases "2 < ?m")
      case True
      with IH(2) have "2 ^ (tree_height ?m - 1) < ?m" by simp
      then have "2 * 2 ^ (tree_height ?m - 1) < n" by linarith
      moreover have "2 * 2 ^ (tree_height ?m - 1) = (2::nat) ^ tree_height ?m"
        using IH(3) by (simp add: power_Suc [symmetric])
      ultimately show ?thesis by simp
    next
      case small: False
      then have "tree_height ?m = 1" by (subst tree_height.simps) (simp only: not_less if_True)
      with False show ?thesis by simp
    qed
    with IH(1) h show ?thesis by simp
  qed (use 1 in \<open>simp add: tree_height.simps\<close>)
qed

section \<open>Properties\<close>

text \<open>C15: \<open>hash_vec\<close> aborts on the empty list and returns on every other one the root of the binary
  tree of least sufficient height over the list, defined from the root downwards.\<close>

theorem hash_vec_is_tree_root:
  "hash_vec S xs =
     (if xs = [] then Inl AssertFailed else Inr (tree_root S (tree_height (length xs)) xs))
   \<and> (xs \<noteq> [] \<longrightarrow> length xs \<le> 2 ^ tree_height (length xs)
        \<and> (2 < length xs \<longrightarrow> 2 ^ (tree_height (length xs) - 1) < length xs))"
proof (cases "xs = []")
  case False
  then have "1 \<le> length xs" by (cases xs) simp_all
  with False show ?thesis using tree_height_bounds [of "length xs"] by (simp add: hash_vec_root)
qed (simp add: hash_vec_def)

lemma hash_vec_is_tree_root_witness:
  "hash_vec toy_sodium [[1], [2], [3]] =
     Inr (hash_twin toy_sodium (hash_twin toy_sodium [1] [2]) (hash_twin toy_sodium [3] [3]))"
proof -
  have "tree_height (Suc (Suc (Suc 0))) = Suc (Suc 0)" by (simp add: tree_height.simps)
  then show ?thesis using hash_vec_is_tree_root [of toy_sodium "[[1], [2], [3]]"] by (simp add: Let_def)
qed

text \<open>The tree does not bind the length of the list: repeating the last entry of a list of odd
  length leaves the hash as it is, so two different lists have the same hash under every hash
  function.\<close>

lemma hash_vec_duplicate_last:
  assumes "odd (length xs)"
  shows "hash_vec S (xs @ [last xs]) = hash_vec S xs \<and> xs @ [last xs] \<noteq> xs"
proof -
  have "odd (length xs) \<Longrightarrow> twin_level S (xs @ [last xs]) = twin_level S xs" for xs
    by (induction S xs rule: twin_level.induct) (auto split: if_splits)
  with assms have "twin_level S (xs @ [last xs]) = twin_level S xs" by blast
  moreover from assms have "xs \<noteq> []" by auto
  ultimately show ?thesis by (simp add: hash_vec_def)
qed

text \<open>The inputs of the hash function in a run.\<close>

fun level_inputs :: "bytes list \<Rightarrow> bytes list" where
  "level_inputs [] = []"
| "level_inputs [x] = [x @ x]"
| "level_inputs (x # y # xs) = (x @ y) # level_inputs xs"

function tree_inputs :: "sodium \<Rightarrow> bytes list \<Rightarrow> bytes list" where
  "tree_inputs S xs = level_inputs xs @ (if length xs \<le> 2 then [] else tree_inputs S (twin_level S xs))"
  by pat_completeness auto
termination
  by (relation "measure (\<lambda>(S, xs). length xs)") auto

declare tree_inputs.simps [simp del]

lemma level_inputs_sub: "set (level_inputs xs) \<subseteq> set (tree_inputs S xs)"
  by (simp add: tree_inputs.simps [of S xs])

text \<open>Two inputs with the same hash.\<close>

definition collision :: "sodium \<Rightarrow> bytes list \<Rightarrow> bytes list \<Rightarrow> bool" where
  "collision S xs ys \<longleftrightarrow> (\<exists>a \<in> set xs. \<exists>b \<in> set ys. a \<noteq> b \<and> hash S a = hash S b)"

lemma collision_mono:
  "collision S xs ys \<Longrightarrow> set xs \<subseteq> set xs' \<Longrightarrow> set ys \<subseteq> set ys' \<Longrightarrow> collision S xs' ys'"
  by (auto simp: collision_def)

lemma twin_level_binds:
  assumes "length xs = length ys" and "\<And>x. x \<in> set xs \<union> set ys \<Longrightarrow> length x = m"
    and "twin_level S xs = twin_level S ys"
  shows "xs = ys \<or> collision S (level_inputs xs) (level_inputs ys)"
  using assms
proof (induction xs arbitrary: ys rule: level_inputs.induct)
  case (2 x)
  then obtain y where "ys = [y]" by (cases ys) auto
  with 2 show ?case by (auto simp: collision_def hash_twin_def)
next
  case (3 a b xs)
  then obtain c d zs where ys: "ys = c # d # zs" by (metis length_Suc_conv length_Cons)
  with 3 have rest: "xs = zs \<or> collision S (level_inputs xs) (level_inputs zs)"
    and h: "hash S (a @ b) = hash S (c @ d)" and l: "length a = length c"
    by (auto simp: hash_twin_def)
  show ?case
  proof (cases "a @ b = c @ d")
    case True
    with l rest ys show ?thesis by (auto intro: collision_mono)
  qed (use h ys in \<open>auto simp: collision_def\<close>)
qed simp

lemma length_twin_hash: "hash_lengths_ok S \<Longrightarrow> h \<in> set (twin_level S xs) \<Longrightarrow> length h = 32"
  by (induction S xs rule: twin_level.induct) (auto simp: hash_twin_def length_hashes)

lemma tree_binds:
  assumes "hash_lengths_ok S" and "length xs = length ys"
    and "\<And>x. x \<in> set xs \<union> set ys \<Longrightarrow> length x = m"
    and "hash_levels S (twin_level S xs) = hash_levels S (twin_level S ys)"
  shows "xs = ys \<or> collision S (tree_inputs S xs) (tree_inputs S ys)"
  using assms(2-)
proof (induction "length xs" arbitrary: xs ys m rule: less_induct)
  case less
  let ?xs = "twin_level S xs" and ?ys = "twin_level S ys"
  have level: "xs = ys \<or> collision S (level_inputs xs) (level_inputs ys)" if "?xs = ?ys"
    using that twin_level_binds less.prems by blast
  show ?case
  proof (cases "length xs \<le> 2")
    case True
    then have "length ?xs \<le> 1" and "length ?ys \<le> 1" using less.prems(1) by auto
    with less.prems(3) have "?xs = ?ys" by (simp add: hash_levels.simps)
    with level show ?thesis using collision_mono [OF _ level_inputs_sub level_inputs_sub] by blast
  next
    case False
    then have "1 < length ?xs" and "1 < length ?ys" using less.prems(1) by simp_all
    then have "hash_levels S (twin_level S ?xs) = hash_levels S (twin_level S ?ys)"
      using less.prems(3) by (simp add: hash_levels.simps [of S ?xs] hash_levels.simps [of S ?ys])
    moreover have "length ?xs < length xs" and "length ?xs = length ?ys"
      using False less.prems(1) by simp_all
    ultimately have "?xs = ?ys \<or> collision S (tree_inputs S ?xs) (tree_inputs S ?ys)"
      using less.hyps [of ?xs ?ys 32] length_twin_hash [OF assms(1)] by auto
    moreover have "set (tree_inputs S ?xs) \<subseteq> set (tree_inputs S xs)"
      and "set (tree_inputs S ?ys) \<subseteq> set (tree_inputs S ys)"
      using False less.prems(1) by (simp_all add: tree_inputs.simps [of S xs] tree_inputs.simps [of S ys])
    ultimately show ?thesis
      using level collision_mono [OF _ level_inputs_sub level_inputs_sub] collision_mono by blast
  qed
qed

lemma hash_vec_binds:
  assumes "hash_lengths_ok S" and "length xs = length ys"
    and "\<forall>x \<in> set xs \<union> set ys. length x = m" and "hash_vec S xs = Inr h" and "hash_vec S ys = Inr h"
  shows "xs = ys \<or> collision S (tree_inputs S xs) (tree_inputs S ys)"
proof -
  from assms(4,5) have ne: "xs \<noteq> []" "ys \<noteq> []" by (auto simp: hash_vec_def bindR_eq_Inr)
  then have "hash_levels S (twin_level S xs) = hash_levels S (twin_level S ys)"
    using assms(4,5) by (simp add: hash_vec_def hash_levels_root)
  with assms tree_binds show ?thesis by blast
qed

text \<open>C16: apart from that, \<open>hash_vec\<close> is as binding as the hash function: two lists of one length, of
  entries of one size, with the same hash are equal, unless two different inputs among those hashed
  on the way have the same hash.\<close>

theorem hash_vec_binding:
  assumes "hash_lengths_ok S" and "length xs = length ys"
    and "\<forall>x \<in> set xs \<union> set ys. length x = m" and "hash_vec S xs = Inr h" and "hash_vec S ys = Inr h"
  shows "xs = ys \<or> collision S (tree_inputs S xs) (tree_inputs S ys)"
  using assms by (rule hash_vec_binds)

lemma hash_vec_binding_witness:
  "collision toy_sodium (tree_inputs toy_sodium [replicate 32 0, replicate 32 0])
     (tree_inputs toy_sodium [replicate 32 0, replicate 32 1])"
proof -
  let ?a = "replicate 32 0 :: bytes" and ?b = "replicate 32 1 :: bytes"
  have "hash_twin toy_sodium ?a x = ?a" for x
    by (simp add: hash_twin_def hash_def buffer_after_def toy_sodium_def toy_pad_def)
  then have "hash_vec toy_sodium [?a, x] = Inr ?a" for x
    by (simp add: hash_vec_def hash_levels.simps)
  then show ?thesis
    using hash_vec_binding [OF toy_hash_lengths_ok, of "[?a, ?a]" "[?a, ?b]" 32 ?a] by simp
qed

end
