(* ===== verification/Wire.thy ===== *)
theory Wire
  imports Prelude
begin

text \<open>
  The messages of \<open>cap/messages.capnp\<close> and their serialisation. Cap'n Proto and the code it
  generates are not part of the repository: encoding and decoding are the fields of a record that
  every definition using them takes as an argument. \<open>WriteMessage<T>\<close> with \<open>bytes()\<close> is the encoder of
  \<open>T\<close>, \<open>ReadMessage\<close> with \<open>root<T>()\<close> the decoder, which may throw, or read outside the buffer it was
  given. A text is the list of its characters' codes;
  an \<open>Int64\<close> is its two's complement word, read with \<open>sint\<close>. \<open>list_checks\<close> says whether the library's
  headers check the index of a list element (\<open>KJ_IREQUIRE\<close>: by default they do when the program is
  compiled without optimisation and without \<open>NDEBUG\<close>).
\<close>

section \<open>Messages\<close>

record credit =
  cr_account :: bytes
  cr_amount :: u64

record witness =
  wi_type :: u32
  wi_data :: bytes

record transaction_msg =
  tm_credit_set :: bytes
  tm_signatures :: "witness list"

record block_msg =
  bm_prev_hash :: bytes
  bm_tx_hash :: bytes
  bm_utxo_hash :: bytes
  bm_nonce :: bytes
  bm_time :: u64

record bloom_msg =
  bs_p :: u32
  bs_data :: bytes
  bs_hash_key :: bytes

datatype set_req = Tx_Set_Hash bytes | Utxo_Set_Hash bytes | Block_Range bytes bytes

datatype content =
    Hello bytes u16
  | Welcome bytes
  | Get_Peers
  | Ip_List "bytes list"
  | Ok bytes
  | Reject bytes
  | Transaction transaction_msg
  | Block block_msg
  | Text_Msg bytes
  | Req_Set set_req bloom_msg
  | Set_Msg "bytes list"
  | Req_Set_Filter set_req
  | Set_Filter u64 bloom_msg

record capnp =
  enc_credits :: "credit list \<Rightarrow> bytes"
  dec_credits :: "bytes \<Rightarrow> credit list result"
  enc_tx :: "transaction_msg \<Rightarrow> bytes"
  dec_tx :: "bytes \<Rightarrow> transaction_msg result"
  enc_block :: "block_msg \<Rightarrow> bytes"
  dec_block :: "bytes \<Rightarrow> block_msg result"
  enc_msg :: "content \<Rightarrow> bytes"
  dec_msg :: "bytes \<Rightarrow> content result"
  dec_set_filter :: "bytes \<Rightarrow> (u64 \<times> bloom_msg) result"
  dec_set :: "bytes \<Rightarrow> bytes list result"
  list_checks :: bool

text \<open>An element of a list reader; an index outside the list throws where it is checked, and is a read
  past the list where it is not.\<close>

definition list_fault :: "capnp \<Rightarrow> cxx_error" where
  "list_fault C = (if list_checks C then Thrown ''index'' else OutOfBounds)"

definition list_get :: "capnp \<Rightarrow> 'a list \<Rightarrow> nat \<Rightarrow> 'a result" where
  "list_get C xs i = (if i < length xs then Inr (xs ! i) else Inl (list_fault C))"

lemma list_get_simps [simp]:
  "i < length xs \<Longrightarrow> list_get C xs i = Inr (xs ! i)"
  "length xs \<le> i \<Longrightarrow> list_get C xs i = Inl (list_fault C)"
  by (simp_all add: list_get_def)

text \<open>What Cap'n Proto documents: a message read with the type it was written with is what was written.\<close>

definition capnp_ok :: "capnp \<Rightarrow> bool" where
  "capnp_ok C \<longleftrightarrow>
     (\<forall>x. dec_credits C (enc_credits C x) = Inr x) \<and> (\<forall>x. dec_tx C (enc_tx C x) = Inr x) \<and>
     (\<forall>x. dec_block C (enc_block C x) = Inr x) \<and> (\<forall>x. dec_msg C (enc_msg C x) = Inr x)"

lemma capnp_okD:
  assumes "capnp_ok C"
  shows "dec_credits C (enc_credits C x) = Inr x" and "dec_tx C (enc_tx C t) = Inr t"
    and "dec_block C (enc_block C b) = Inr b" and "dec_msg C (enc_msg C m) = Inr m"
  using assms by (simp_all add: capnp_ok_def)

section \<open>A small instance\<close>

text \<open>Encoders in continuation style, each with a decoder that returns what is left.\<close>

type_synonym 'a putter = "'a \<Rightarrow> bytes \<Rightarrow> bytes"
type_synonym 'a getter = "bytes \<Rightarrow> 'a \<times> bytes"

definition put_nat :: "nat putter" where
  "put_nat n r = replicate n 1 @ 0 # r"

fun get_nat :: "nat getter" where
  "get_nat [] = (0, [])"
| "get_nat (b # r) = (if b = 1 then (let (n, r') = get_nat r in (Suc n, r')) else (0, r))"

definition put_word :: "'a::len word putter" where
  "put_word w r = put_nat (unat w) r"

definition get_word :: "'a::len word getter" where
  "get_word b = (let (n, r) = get_nat b in (of_nat n, r))"

definition put_list :: "'a putter \<Rightarrow> 'a list putter" where
  "put_list p xs r = put_nat (length xs) (foldr p xs r)"

fun get_many :: "'a getter \<Rightarrow> nat \<Rightarrow> 'a list getter" where
  "get_many g 0 b = ([], b)"
| "get_many g (Suc n) b = (let (x, r) = g b; (xs, r') = get_many g n r in (x # xs, r'))"

definition get_list :: "'a getter \<Rightarrow> 'a list getter" where
  "get_list g b = (let (n, r) = get_nat b in get_many g n r)"

definition put_bytes :: "bytes putter" where
  "put_bytes = put_list (#)"

definition get_bytes :: "bytes getter" where
  "get_bytes = get_list (\<lambda>b. (hd b, tl b))"

lemma get_put_nat [simp]: "get_nat (put_nat n r) = (n, r)"
  by (induction n) (simp_all add: put_nat_def)

lemma get_put_word [simp]: "get_word (put_word w r) = (w, r)"
  by (simp add: put_word_def get_word_def)

lemma get_put_list:
  assumes "\<And>x r. g (p x r) = (x, r)"
  shows "get_list g (put_list p xs r) = (xs, r)"
proof -
  have "get_many g (length xs) (foldr p xs r) = (xs, r)"
    by (induction xs) (simp_all add: assms)
  then show ?thesis by (simp add: get_list_def put_list_def)
qed

lemma get_put_bytes [simp]: "get_bytes (put_bytes b r) = (b, r)"
  unfolding get_bytes_def put_bytes_def by (rule get_put_list) simp

definition put_credit :: "credit putter" where
  "put_credit c r = put_bytes (cr_account c) (put_word (cr_amount c) r)"

definition get_credit :: "credit getter" where
  "get_credit b = (let (a, r) = get_bytes b; (m, r') = get_word r in (\<lparr>cr_account = a, cr_amount = m\<rparr>, r'))"

definition put_witness :: "witness putter" where
  "put_witness w r = put_word (wi_type w) (put_bytes (wi_data w) r)"

definition get_witness :: "witness getter" where
  "get_witness b = (let (t, r) = get_word b; (d, r') = get_bytes r in (\<lparr>wi_type = t, wi_data = d\<rparr>, r'))"

definition put_tx :: "transaction_msg putter" where
  "put_tx t r = put_bytes (tm_credit_set t) (put_list put_witness (tm_signatures t) r)"

definition get_tx :: "transaction_msg getter" where
  "get_tx b = (let (c, r) = get_bytes b; (s, r') = get_list get_witness r in
     (\<lparr>tm_credit_set = c, tm_signatures = s\<rparr>, r'))"

definition put_block :: "block_msg putter" where
  "put_block b r = put_bytes (bm_prev_hash b) (put_bytes (bm_tx_hash b) (put_bytes (bm_utxo_hash b)
     (put_bytes (bm_nonce b) (put_word (bm_time b) r))))"

definition get_block :: "block_msg getter" where
  "get_block b = (let (p, b) = get_bytes b; (t, b) = get_bytes b; (u, b) = get_bytes b;
     (n, b) = get_bytes b; (m, b) = get_word b in
     (\<lparr>bm_prev_hash = p, bm_tx_hash = t, bm_utxo_hash = u, bm_nonce = n, bm_time = m\<rparr>, b))"

definition put_bloom :: "bloom_msg putter" where
  "put_bloom m r = put_word (bs_p m) (put_bytes (bs_data m) (put_bytes (bs_hash_key m) r))"

definition get_bloom :: "bloom_msg getter" where
  "get_bloom b = (let (p, b) = get_word b; (d, b) = get_bytes b; (k, b) = get_bytes b in
     (\<lparr>bs_p = p, bs_data = d, bs_hash_key = k\<rparr>, b))"

lemma get_put_credit [simp]: "get_credit (put_credit c r) = (c, r)"
  by (simp add: get_credit_def put_credit_def)

lemma get_put_witness [simp]: "get_witness (put_witness w r) = (w, r)"
  by (simp add: get_witness_def put_witness_def)

lemma get_put_tx [simp]: "get_tx (put_tx t r) = (t, r)"
  by (simp add: get_tx_def put_tx_def get_put_list)

lemma get_put_block [simp]: "get_block (put_block b r) = (b, r)"
  by (simp add: get_block_def put_block_def)

lemma get_put_bloom [simp]: "get_bloom (put_bloom b r) = (b, r)"
  by (simp add: get_bloom_def put_bloom_def)

fun put_req :: "set_req putter" where
  "put_req (Tx_Set_Hash h) r = put_nat 0 (put_bytes h r)"
| "put_req (Utxo_Set_Hash h) r = put_nat 1 (put_bytes h r)"
| "put_req (Block_Range f t) r = put_nat 2 (put_bytes f (put_bytes t r))"

definition get_req :: "set_req getter" where
  "get_req b = (let (n, b) = get_nat b; (h, b) = get_bytes b in
     if n = 0 then (Tx_Set_Hash h, b) else if n = 1 then (Utxo_Set_Hash h, b)
     else let (t, b) = get_bytes b in (Block_Range h t, b))"

lemma get_put_req [simp]: "get_req (put_req q r) = (q, r)"
  by (cases q) (simp_all add: get_req_def)

fun put_content :: "content putter" where
  "put_content (Hello ip p) r = put_nat 0 (put_bytes ip (put_word p r))"
| "put_content (Welcome k) r = put_nat 1 (put_bytes k r)"
| "put_content Get_Peers r = put_nat 2 r"
| "put_content (Ip_List ips) r = put_nat 3 (put_list put_bytes ips r)"
| "put_content (Ok m) r = put_nat 4 (put_bytes m r)"
| "put_content (Reject m) r = put_nat 5 (put_bytes m r)"
| "put_content (Transaction t) r = put_nat 6 (put_tx t r)"
| "put_content (Block b) r = put_nat 7 (put_block b r)"
| "put_content (Text_Msg t) r = put_nat 8 (put_bytes t r)"
| "put_content (Req_Set q b) r = put_nat 9 (put_req q (put_bloom b r))"
| "put_content (Set_Msg d) r = put_nat 10 (put_list put_bytes d r)"
| "put_content (Req_Set_Filter q) r = put_nat 11 (put_req q r)"
| "put_content (Set_Filter n b) r = put_nat 12 (put_word n (put_bloom b r))"

definition get_content :: "content getter" where
  "get_content b = (let (n, b) = get_nat b in
     if n = 0 then (let (ip, b) = get_bytes b; (p, b) = get_word b in (Hello ip p, b))
     else if n = 1 then (let (k, b) = get_bytes b in (Welcome k, b))
     else if n = 2 then (Get_Peers, b)
     else if n = 3 then (let (l, b) = get_list get_bytes b in (Ip_List l, b))
     else if n = 4 then (let (k, b) = get_bytes b in (Ok k, b))
     else if n = 5 then (let (k, b) = get_bytes b in (Reject k, b))
     else if n = 6 then (let (t, b) = get_tx b in (Transaction t, b))
     else if n = 7 then (let (t, b) = get_block b in (Block t, b))
     else if n = 8 then (let (k, b) = get_bytes b in (Text_Msg k, b))
     else if n = 9 then (let (q, b) = get_req b; (m, b) = get_bloom b in (Req_Set q m, b))
     else if n = 10 then (let (l, b) = get_list get_bytes b in (Set_Msg l, b))
     else if n = 11 then (let (q, b) = get_req b in (Req_Set_Filter q, b))
     else (let (k, b) = get_word b; (m, b) = get_bloom b in (Set_Filter k m, b)))"

lemma get_put_content: "get_content (put_content c r) = (c, r)"
  by (cases c) (simp_all add: get_content_def get_put_list)

definition toy_capnp :: capnp where
  "toy_capnp = \<lparr>
     enc_credits = (\<lambda>x. put_list put_credit x []), dec_credits = (\<lambda>b. Inr (fst (get_list get_credit b))),
     enc_tx = (\<lambda>x. put_tx x []), dec_tx = (\<lambda>b. Inr (fst (get_tx b))),
     enc_block = (\<lambda>x. put_block x []), dec_block = (\<lambda>b. Inr (fst (get_block b))),
     enc_msg = (\<lambda>x. put_content x []), dec_msg = (\<lambda>b. Inr (fst (get_content b))),
     dec_set_filter = (\<lambda>b. Inl (Thrown ''type'')), dec_set = (\<lambda>b. Inl (Thrown ''type'')),
     list_checks = False \<rparr>"

lemma capnp_ok_checks [simp]: "capnp_ok (C\<lparr>list_checks := c\<rparr>) = capnp_ok C"
  by (simp add: capnp_ok_def)

lemma toy_capnp_ok: "capnp_ok toy_capnp"
  by (simp add: capnp_ok_def toy_capnp_def get_put_list get_put_content)

end
