(* ===== verification/Transactions.thy ===== *)
theory Transactions
  imports Curve Wire
begin

text \<open>
  Transactions: \<open>create_transaction\<close> and \<open>process_transaction\<close> of \<open>src/process.cc\<close>, and the parsed form
  \<open>pttp::Transaction\<close> of \<open>bin/p2p.cc\<close>. A transaction is a serialised list of credits and one
  signature of it for every account whose amount is negative.
\<close>

section \<open>Creating\<close>

text \<open>A key pair is \<open>(priv, pub)\<close>. \<open>int\<close> amounts are widened by \<open>setAmount\<close>.\<close>

type_synonym sign_keypair = "bytes \<times> bytes"

definition credit_of :: "bytes \<Rightarrow> int \<Rightarrow> credit" where
  "credit_of pub a = \<lparr>cr_account = pub, cr_amount = word_of_int a\<rparr>"

definition credits_of :: "sign_keypair list \<Rightarrow> int list \<Rightarrow> credit list" where
  "credits_of accounts amounts = map (\<lambda>(kp, a). credit_of (snd kp) a) (zip accounts amounts)"

fun sign_negatives :: "sodium \<Rightarrow> bytes \<Rightarrow> sign_keypair list \<Rightarrow> int list \<Rightarrow> bytes list" where
  "sign_negatives S data ((priv, pub) # accounts) (a # amounts) =
     (if a < 0 then signature S data priv # sign_negatives S data accounts amounts
      else sign_negatives S data accounts amounts)"
| "sign_negatives S data _ _ = []"

definition create_transaction ::
  "capnp \<Rightarrow> sodium \<Rightarrow> sign_keypair list \<Rightarrow> int list \<Rightarrow> transaction_msg \<Rightarrow> bool \<times> transaction_msg" where
  "create_transaction C S accounts amounts builder =
     (if length amounts \<noteq> length accounts then (False, builder)
      else
        let credit_data = enc_credits C (credits_of accounts amounts);
            sigs = sign_negatives S credit_data accounts amounts in
        (True, builder\<lparr>tm_credit_set := credit_data,
           tm_signatures := map (\<lambda>sig. \<lparr>wi_type = 0, wi_data = sig\<rparr>) sigs\<rparr>))"

definition create_transaction_bytes ::
  "capnp \<Rightarrow> sodium \<Rightarrow> sign_keypair list \<Rightarrow> int list \<Rightarrow> bytes result" where
  "create_transaction_bytes C S accounts amounts =
     (case create_transaction C S accounts amounts \<lparr>tm_credit_set = [], tm_signatures = []\<rparr> of
        (ok, builder) \<Rightarrow> if \<not> ok then Inl (Thrown ''fail'') else Inr (enc_tx C builder))"

section \<open>Processing\<close>

text \<open>\<open>int a = credits[i].getAmount()\<close> keeps 32 of the 64 bits.\<close>

definition narrow :: "u64 \<Rightarrow> int" where
  "narrow a = sint (ucast a :: u32)"

definition vec_resize :: "'a \<Rightarrow> 'a list \<Rightarrow> nat \<Rightarrow> 'a list" where
  "vec_resize d xs n = take n xs @ replicate (n - length xs) d"

text \<open>The vectors the caller passed in; \<open>sigs\<close> may be a null pointer.\<close>

record tx_out =
  to_accounts :: "bytes list"
  to_amounts :: "int list"
  to_sigs :: "bytes list option"

fun process_credits ::
  "sodium \<Rightarrow> witness list \<Rightarrow> bytes \<Rightarrow> credit list \<Rightarrow> nat \<Rightarrow> nat \<Rightarrow> tx_out \<Rightarrow> (bool \<times> tx_out) result" where
  "process_credits S witnesses credit_data [] i n_neg out = Inr (True, out)"
| "process_credits S witnesses credit_data (c # credits) i n_neg out =
     (let a = narrow (cr_amount c);
          pub = cr_account c;
          out = out\<lparr>to_amounts := (to_amounts out)[i := a], to_accounts := to_accounts out @ [pub]\<rparr> in
      if a < 0 then
        if n_neg \<ge> length witnesses then Inr (False, out)
        else
          let sig = wi_data (witnesses ! n_neg);
              out = out\<lparr>to_sigs := map_option (\<lambda>s. s @ [sig]) (to_sigs out)\<rparr> in
          bindR (signature_verify S sig credit_data pub) (\<lambda>ok.
            if \<not> ok then Inr (False, out)
            else process_credits S witnesses credit_data credits (i + 1) (n_neg + 1) out)
      else process_credits S witnesses credit_data credits (i + 1) n_neg out)"

definition process_transaction ::
  "capnp \<Rightarrow> sodium \<Rightarrow> transaction_msg \<Rightarrow> tx_out \<Rightarrow> (bool \<times> tx_out) result" where
  "process_transaction C S tx out =
     (let credit_data = tm_credit_set tx in
      bindR (dec_credits C credit_data) (\<lambda>credits.
        process_credits S (tm_signatures tx) credit_data credits 0 0
          (out\<lparr>to_amounts := vec_resize 0 (to_amounts out) (length credits)\<rparr>)))"

text \<open>The overload for bytes has no parameter for signatures and passes the null pointer.\<close>

definition process_transaction_bytes ::
  "capnp \<Rightarrow> sodium \<Rightarrow> bytes \<Rightarrow> bytes list \<Rightarrow> int list \<Rightarrow> (bool \<times> bytes list \<times> int list) result" where
  "process_transaction_bytes C S b accounts amounts =
     bindR (dec_tx C b) (\<lambda>tx.
     bindR (process_transaction C S tx \<lparr>to_accounts = accounts, to_amounts = amounts, to_sigs = None\<rparr>) (\<lambda>(ok, out).
       Inr (ok, to_accounts out, to_amounts out)))"

section \<open>The parsed transaction\<close>

record ptx_credit =
  px_pub :: bytes
  px_amount :: int

record ptx =
  px_credits :: "ptx_credit list"
  px_witnesses :: "bytes list"

text \<open>
  The loop of the constructor. Its guard compares \<open>n_neg\<close> with the size of the vector it has just
  resized to the number of credits; the witness is then read from the list in the message.
\<close>

fun load_credits ::
  "capnp \<Rightarrow> sodium \<Rightarrow> witness list \<Rightarrow> bytes \<Rightarrow> credit list \<Rightarrow> nat \<Rightarrow> nat \<Rightarrow> ptx \<Rightarrow> ptx result" where
  "load_credits C S cap_witnesses credit_data [] i n_neg tx = Inr tx"
| "load_credits C S cap_witnesses credit_data (c # credits) i n_neg tx =
     (let amount = narrow (cr_amount c);
          pub = cr_account c;
          tx = tx\<lparr>px_credits := (px_credits tx)[i := \<lparr>px_pub = pub, px_amount = amount\<rparr>]\<rparr> in
      if amount < 0 then
        if n_neg \<ge> length (px_witnesses tx) then Inl (Thrown '''')
        else
          bindR (list_get C cap_witnesses n_neg) (\<lambda>w.
            let witness = wi_data w;
                tx = tx\<lparr>px_witnesses := (px_witnesses tx)[n_neg := witness]\<rparr> in
            bindR (signature_verify S witness credit_data pub) (\<lambda>ok.
              if \<not> ok then Inl (Thrown '''')
              else load_credits C S cap_witnesses credit_data credits (i + 1) (n_neg + 1) tx))
      else load_credits C S cap_witnesses credit_data credits (i + 1) n_neg tx)"

definition ptx_of_bytes :: "capnp \<Rightarrow> sodium \<Rightarrow> bytes \<Rightarrow> ptx result" where
  "ptx_of_bytes C S b =
     bindR (dec_tx C b) (\<lambda>tx.
       let credit_data = tm_credit_set tx in
       bindR (dec_credits C credit_data) (\<lambda>credits.
         load_credits C S (tm_signatures tx) credit_data credits 0 0
           \<lparr>px_credits = replicate (length credits) \<lparr>px_pub = [], px_amount = 0\<rparr>,
            px_witnesses = replicate (length credits) []\<rparr>))"

definition ptx_credit_bytes :: "capnp \<Rightarrow> ptx \<Rightarrow> bytes" where
  "ptx_credit_bytes C tx = enc_credits C (map (\<lambda>c. credit_of (px_pub c) (px_amount c)) (px_credits tx))"

definition ptx_bytes :: "capnp \<Rightarrow> ptx \<Rightarrow> bytes" where
  "ptx_bytes C tx = enc_tx C
     \<lparr>tm_credit_set = ptx_credit_bytes C tx,
      tm_signatures = map (\<lambda>w. \<lparr>wi_type = 0, wi_data = w\<rparr>) (px_witnesses tx)\<rparr>"

section \<open>The verdict on a transaction\<close>

text \<open>What the two loops decide: the k-th account with a negative amount must have signed the credits
  with the k-th witness.\<close>

definition debited :: "credit list \<Rightarrow> bytes list" where
  "debited credits = map cr_account (filter (\<lambda>c. narrow (cr_amount c) < 0) credits)"

datatype verdict = Accepted | Missing | Bad | Short

fun judge :: "sodium \<Rightarrow> bytes \<Rightarrow> bytes list \<Rightarrow> bytes list \<Rightarrow> verdict" where
  "judge S data [] ws = Accepted"
| "judge S data (a # as) [] = Missing"
| "judge S data (a # as) (w # ws) =
     (if length w < SIGN_BYTES \<or> length a < SIGN_PUBLICKEYBYTES then Short
      else if verify_detached S (take SIGN_BYTES w) data (take SIGN_PUBLICKEYBYTES a) then judge S data as ws else Bad)"

lemma debited_simps [simp]:
  "debited [] = []"
  "debited (c # cs) = (if narrow (cr_amount c) < 0 then cr_account c # debited cs else debited cs)"
  by (simp_all add: debited_def)

lemma signature_verify_cases:
  "signature_verify S w data a =
     (if length w < SIGN_BYTES \<or> length a < SIGN_PUBLICKEYBYTES then Inl OutOfBounds
      else Inr (verify_detached S (take SIGN_BYTES w) data (take SIGN_PUBLICKEYBYTES a)))"
  by (auto simp: signature_verify_def)

lemma judge_Accepted:
  "judge S data as ws = Accepted \<longleftrightarrow> length as \<le> length ws \<and>
     (\<forall>k < length as. SIGN_BYTES \<le> length (ws ! k) \<and> SIGN_PUBLICKEYBYTES \<le> length (as ! k) \<and>
        verify_detached S (take SIGN_BYTES (ws ! k)) data (take SIGN_PUBLICKEYBYTES (as ! k)))"
  by (induction S data as ws rule: judge.induct) (auto simp: All_less_Suc2)

lemma process_credits_verdict:
  "\<exists>out'. process_credits S ws data cs i n out =
     (case judge S data (debited cs) (map wi_data (drop n ws)) of
        Accepted \<Rightarrow> Inr (True, out') | Missing \<Rightarrow> Inr (False, out') | Bad \<Rightarrow> Inr (False, out')
      | Short \<Rightarrow> Inl OutOfBounds)"
proof (induction cs arbitrary: i n out)
  case (Cons c cs)
  show ?case
  proof (cases "narrow (cr_amount c) < 0")
    case neg: True
    show ?thesis
    proof (cases "n < length ws")
      case True
      then have "drop n ws = ws ! n # drop (Suc n) ws" by (simp add: Cons_nth_drop_Suc)
      with neg True Cons.IH show ?thesis
        by (auto simp: Let_def signature_verify_cases)
    qed (use neg in simp)
  qed (use Cons.IH in \<open>simp add: Let_def\<close>)
qed simp

text \<open>The vectors after an accepted transaction.\<close>

lemma process_credits_out:
  "process_credits S ws data cs i n out = Inr (True, out') \<Longrightarrow> i + length cs \<le> length (to_amounts out) \<Longrightarrow>
     to_accounts out' = to_accounts out @ map cr_account cs
   \<and> to_amounts out' = take i (to_amounts out) @ map (narrow \<circ> cr_amount) cs @ drop (i + length cs) (to_amounts out)
   \<and> to_sigs out' = map_option (\<lambda>s. s @ map wi_data (take (length (debited cs)) (drop n ws))) (to_sigs out)"
proof (induction cs arbitrary: i n out)
  case Nil
  then show ?case by (simp add: option.map_ident)
next
  case (Cons c cs)
  let ?a = "narrow (cr_amount c)"
  let ?out = "out\<lparr>to_amounts := (to_amounts out)[i := ?a], to_accounts := to_accounts out @ [cr_account c]\<rparr>"
  have i: "i < length (to_amounts out)" using Cons.prems(2) by simp
  have am: "take (Suc i) (to_amounts ?out) = take i (to_amounts out) @ [?a]"
    "drop (Suc i + length cs) (to_amounts ?out) = drop (i + length (c # cs)) (to_amounts out)"
    using i by (simp_all add: take_Suc_conv_app_nth)
  show ?case
  proof (cases "?a < 0")
    case True
    with Cons.prems(1) have n: "n < length ws"
      and rec: "process_credits S ws data cs (Suc i) (Suc n)
        (?out\<lparr>to_sigs := map_option (\<lambda>s. s @ [wi_data (ws ! n)]) (to_sigs out)\<rparr>) = Inr (True, out')"
      by (auto simp: Let_def bindR_eq_Inr not_le[symmetric] split: if_splits)
    from n have "drop n ws = ws ! n # drop (Suc n) ws" by (simp add: Cons_nth_drop_Suc)
    with Cons.IH [OF rec] Cons.prems(2) am True show ?thesis
      by (simp add: option.map_comp comp_def)
  next
    case False
    with Cons.prems(1) have "process_credits S ws data cs (Suc i) n ?out = Inr (True, out')"
      by (simp add: Let_def)
    with Cons.IH [OF this] Cons.prems(2) am False show ?thesis by simp
  qed
qed

lemma load_credits_verdict:
  assumes "length (px_credits tx) = i + length cs" and "length (px_witnesses tx) = i + length cs" and "n \<le> i"
  shows "load_credits C S ws data cs i n tx =
     (case judge S data (debited cs) (map wi_data (drop n ws)) of
        Accepted \<Rightarrow>
          let k = length (debited cs) in
          Inr \<lparr>px_credits = take i (px_credits tx) @
                 map (\<lambda>c. \<lparr>px_pub = cr_account c, px_amount = narrow (cr_amount c)\<rparr>) cs,
               px_witnesses = take n (px_witnesses tx) @ map wi_data (take k (drop n ws)) @
                 drop (n + k) (px_witnesses tx)\<rparr>
      | Missing \<Rightarrow> Inl (list_fault C) | Bad \<Rightarrow> Inl (Thrown '''') | Short \<Rightarrow> Inl OutOfBounds)"
  using assms
proof (induction cs arbitrary: i n tx)
  case (Cons c cs)
  let ?a = "narrow (cr_amount c)"
  let ?c = "\<lparr>px_pub = cr_account c, px_amount = ?a\<rparr>"
  let ?tx = "tx\<lparr>px_credits := (px_credits tx)[i := ?c]\<rparr>"
  have cr: "take (Suc i) (px_credits ?tx) = take i (px_credits tx) @ [?c]"
    using Cons.prems(1) by (simp add: take_Suc_conv_app_nth)
  show ?case
  proof (cases "?a < 0")
    case neg: True
    have guard: "n < length (px_witnesses tx)" using Cons.prems by simp
    show ?thesis
    proof (cases "n < length ws")
      case True
      let ?w = "wi_data (ws ! n)"
      let ?tx' = "?tx\<lparr>px_witnesses := (px_witnesses tx)[n := ?w]\<rparr>"
      from True have d: "drop n ws = ws ! n # drop (Suc n) ws" by (simp add: Cons_nth_drop_Suc)
      have wt: "take (Suc n) (px_witnesses ?tx') = take n (px_witnesses tx) @ [?w]"
        using guard by (simp add: take_Suc_conv_app_nth)
      have IH: "load_credits C S ws data cs (Suc i) (Suc n) ?tx' =
        (case judge S data (debited cs) (map wi_data (drop (Suc n) ws)) of
          Accepted \<Rightarrow>
            let k = length (debited cs) in
            Inr \<lparr>px_credits = take (Suc i) (px_credits ?tx') @
                   map (\<lambda>c. \<lparr>px_pub = cr_account c, px_amount = narrow (cr_amount c)\<rparr>) cs,
                 px_witnesses = take (Suc n) (px_witnesses ?tx') @
                   map wi_data (take k (drop (Suc n) ws)) @ drop (Suc n + k) (px_witnesses ?tx')\<rparr>
        | Missing \<Rightarrow> Inl (list_fault C) | Bad \<Rightarrow> Inl (Thrown '''') | Short \<Rightarrow> Inl OutOfBounds)"
        using Cons.prems by (intro Cons.IH) simp_all
      show ?thesis
        using neg True guard d cr wt IH
        by (auto simp: Let_def signature_verify_cases split: verdict.split)
    qed (use neg guard in simp)
  next
    case False
    have IH: "load_credits C S ws data cs (Suc i) n ?tx =
        (case judge S data (debited cs) (map wi_data (drop n ws)) of
          Accepted \<Rightarrow>
            let k = length (debited cs) in
            Inr \<lparr>px_credits = take (Suc i) (px_credits ?tx) @
                   map (\<lambda>c. \<lparr>px_pub = cr_account c, px_amount = narrow (cr_amount c)\<rparr>) cs,
                 px_witnesses = take n (px_witnesses ?tx) @
                   map wi_data (take k (drop n ws)) @ drop (n + k) (px_witnesses ?tx)\<rparr>
        | Missing \<Rightarrow> Inl (list_fault C) | Bad \<Rightarrow> Inl (Thrown '''') | Short \<Rightarrow> Inl OutOfBounds)"
      using Cons.prems by (intro Cons.IH) simp_all
    show ?thesis using False cr IH by (simp add: Let_def split: verdict.split)
  qed
qed simp

section \<open>Creating and then processing\<close>

lemma narrow_word_of_int: "narrow (word_of_int a) = signed_take_bit 31 a"
  unfolding narrow_def by (simp add: sint_sbintrunc' ucast_eq uint_word_of_int_eq signed_take_bit_take_bit)

lemma narrow_widened: "- (2 ^ 31) \<le> a \<Longrightarrow> a < 2 ^ 31 \<Longrightarrow> narrow (word_of_int a) = a"
  by (simp add: narrow_word_of_int signed_take_bit_int_eq_self)

lemma narrow_literals: "narrow (- 1) = - 1" "narrow 3 = 3"
  using narrow_widened [of "- 1"] narrow_widened [of 3] by simp_all

abbreviation int32 :: "int \<Rightarrow> bool" where
  "int32 a \<equiv> - (2 ^ 31) \<le> a \<and> a < 2 ^ 31"

text \<open>The key pairs \<open>SignKeyPair\<close> produces.\<close>

definition genuine_keypair :: "sodium \<Rightarrow> sign_keypair \<Rightarrow> bool" where
  "genuine_keypair S kp \<longleftrightarrow> (\<exists>seed. sign_seed_keypair S seed = (snd kp, fst kp))"

lemma created_is_accepted:
  assumes "sign_ok S" and "length accounts = length amounts"
    and "\<And>kp. kp \<in> set accounts \<Longrightarrow> genuine_keypair S kp" and "\<And>a. a \<in> set amounts \<Longrightarrow> int32 a"
  shows "judge S data (debited (credits_of accounts amounts))
      (sign_negatives S data accounts amounts) = Accepted
    \<and> length (debited (credits_of accounts amounts)) =
      length (sign_negatives S data accounts amounts)"
  using assms(2-)
proof (induction accounts amounts rule: list_induct2)
  case (Cons kp accounts a amounts)
  obtain priv pub where kp: "kp = (priv, pub)" by (cases kp)
  then obtain seed where "sign_seed_keypair S seed = (pub, priv)"
    using Cons.prems(1) unfolding genuine_keypair_def by fastforce
  then have "length (sign_detached S data priv) = SIGN_BYTES" "length pub = SIGN_PUBLICKEYBYTES"
      "verify_detached S (sign_detached S data priv) data pub"
    using assms(1) unfolding sign_ok_def by (metis fst_conv snd_conv)+
  moreover have "narrow (word_of_int a) = a" using Cons.prems(2) [of a] narrow_widened by simp
  ultimately show ?case using Cons.IH Cons.prems by (simp add: kp credits_of_def credit_of_def signature_def)
qed (simp add: credits_of_def)

lemma map_accounts: "length accounts = length amounts \<Longrightarrow>
    map cr_account (credits_of accounts amounts) = map snd accounts"
  by (induction accounts amounts rule: list_induct2) (auto simp: credits_of_def credit_of_def)

lemma map_amounts: "length accounts = length amounts \<Longrightarrow> (\<And>a. a \<in> set amounts \<Longrightarrow> int32 a) \<Longrightarrow>
    map (narrow \<circ> cr_amount) (credits_of accounts amounts) = amounts"
  by (induction accounts amounts rule: list_induct2) (auto simp: credits_of_def credit_of_def narrow_widened)

lemma process_created:
  assumes "sign_ok S" and "capnp_ok C" and "length accounts = length amounts"
    and "\<forall>kp \<in> set accounts. genuine_keypair S kp" and "\<forall>a \<in> set amounts. int32 a"
  shows "process_transaction C S (snd (create_transaction C S accounts amounts b))
      \<lparr>to_accounts = [], to_amounts = [], to_sigs = sigs\<rparr> =
    Inr (True, \<lparr>to_accounts = map snd accounts, to_amounts = amounts, to_sigs =
      map_option (\<lambda>s. s @ sign_negatives S (enc_credits C (credits_of accounts amounts)) accounts amounts) sigs\<rparr>)"
proof -
  let ?cs = "credits_of accounts amounts"
  let ?d = "enc_credits C ?cs" and ?s = "sign_negatives S (enc_credits C ?cs) accounts amounts"
  let ?ws = "map (\<lambda>sig. \<lparr>wi_type = 0, wi_data = sig\<rparr>) ?s"
  let ?out = "\<lparr>to_accounts = [], to_amounts = replicate (length amounts) 0, to_sigs = sigs\<rparr>"
  have ws: "map wi_data ?ws = ?s" by (simp add: comp_def)
  have judged: "judge S ?d (debited ?cs) (map wi_data (drop 0 ?ws)) = Accepted"
    and len: "length (debited ?cs) = length ?s"
    unfolding drop_0 ws using created_is_accepted [OF assms(1,3)] assms(4,5) by blast+
  obtain out' where run: "process_credits S ?ws ?d ?cs 0 0 ?out = Inr (True, out')"
    using process_credits_verdict [of S ?ws ?d ?cs 0 0 ?out] unfolding judged by auto
  have n: "length ?cs = length amounts" using assms(3) by (simp add: credits_of_def)
  with process_credits_out [OF run] len ws map_accounts [OF assms(3)] map_amounts [OF assms(3)] assms(5)
  have "out' = \<lparr>to_accounts = map snd accounts, to_amounts = amounts, to_sigs = map_option (\<lambda>s. s @ ?s) sigs\<rparr>"
    by (auto intro!: tx_out.equality simp: take_map [symmetric])
  with assms(3) run n show ?thesis
    by (simp add: create_transaction_def process_transaction_def vec_resize_def capnp_okD [OF assms(2)] Let_def)
qed

section \<open>Properties\<close>

text \<open>C2: a transaction built by \<open>create_transaction\<close> with genuine key pairs and 32-bit amounts, as
  bytes, is accepted by \<open>process_transaction\<close>, which reports the public keys and the amounts; the
  overload for a message, when it is given a vector for them, reports the signatures that were put in
  as well. For two lists of different lengths the builder of bytes throws.\<close>

theorem created_transaction_accepted:
  assumes "sign_ok S" and "capnp_ok C" and "\<forall>kp \<in> set accounts. genuine_keypair S kp"
    and "\<forall>a \<in> set amounts. int32 a"
  shows "bindR (create_transaction_bytes C S accounts amounts) (\<lambda>b. process_transaction_bytes C S b [] []) =
      (if length accounts \<noteq> length amounts then Inl (Thrown ''fail'') else Inr (True, map snd accounts, amounts))
    \<and> (length accounts = length amounts \<longrightarrow>
        process_transaction C S (snd (create_transaction C S accounts amounts builder))
            \<lparr>to_accounts = [], to_amounts = [], to_sigs = Some []\<rparr> =
          Inr (True, \<lparr>to_accounts = map snd accounts, to_amounts = amounts,
            to_sigs = Some (sign_negatives S (enc_credits C (credits_of accounts amounts)) accounts amounts)\<rparr>))"
proof (cases "length accounts = length amounts")
  case True
  let ?b = "\<lparr>tm_credit_set = [], tm_signatures = []\<rparr>"
  have "create_transaction_bytes C S accounts amounts = Inr (enc_tx C (snd (create_transaction C S accounts amounts ?b)))"
    using True by (simp add: create_transaction_bytes_def create_transaction_def Let_def)
  then show ?thesis
    using process_created [OF assms(1,2) True assms(3,4)] True
    by (simp add: process_transaction_bytes_def capnp_okD [OF assms(2)])
qed (simp add: create_transaction_bytes_def create_transaction_def)

lemma toy_keypair: "genuine_keypair toy_sodium (toy_pad 64 (toy_pad 32 s), toy_pad 32 s)"
  unfolding genuine_keypair_def by (rule exI [of _ s]) (simp add: toy_sodium_def)

lemma toy_signature: "signature toy_sodium m sk = toy_pad 64 sk"
  by (simp add: signature_def toy_sodium_def)

lemma created_transaction_accepted_witness:
  "let accounts = [(toy_pad 64 (toy_pad 32 [1]), toy_pad 32 [1]), (toy_pad 64 (toy_pad 32 [2]), toy_pad 32 [2])];
       tx = snd (create_transaction toy_capnp toy_sodium accounts [10, - 4] \<lparr>tm_credit_set = [], tm_signatures = []\<rparr>) in
    bindR (create_transaction_bytes toy_capnp toy_sodium accounts [10, - 4])
      (\<lambda>b. process_transaction_bytes toy_capnp toy_sodium b [] []) =
        Inr (True, [toy_pad 32 [1], toy_pad 32 [2]], [10, - 4])
    \<and> process_transaction toy_capnp toy_sodium tx \<lparr>to_accounts = [], to_amounts = [], to_sigs = Some []\<rparr> =
        Inr (True, \<lparr>to_accounts = [toy_pad 32 [1], toy_pad 32 [2]], to_amounts = [10, - 4],
          to_sigs = Some [toy_pad 64 (toy_pad 64 (toy_pad 32 [2]))]\<rparr>)"
  using created_transaction_accepted [OF toy_sign_ok toy_capnp_ok, of
      "[(toy_pad 64 (toy_pad 32 [1]), toy_pad 32 [1]), (toy_pad 64 (toy_pad 32 [2]), toy_pad 32 [2])]" "[10, - 4]"
      "\<lparr>tm_credit_set = [], tm_signatures = []\<rparr>"]
  by (simp add: toy_keypair toy_signature)

text \<open>C3: both parsers judge a transaction by the same rule, the k-th debited account against the k-th
  witness, and refuse a witness that does not verify. For a missing witness
  \<open>process_transaction\<close> answers no, while the guard of the constructor of \<open>pttp::Transaction\<close> never fires, since it looks at
  the vector it has just resized: the constructor asks the message for an element its list does not
  have, which throws an exception of Cap'n Proto or reads past the list, depending on whether the
  library was built with its checks. A witness of fewer than 64 bytes or a key of fewer than 32 is
  read past its end by both parsers.\<close>

theorem transaction_verdict:
  assumes "dec_tx C b = Inr tx" and "dec_credits C (tm_credit_set tx) = Inr cs"
  shows "let v = judge S (tm_credit_set tx) (debited cs) (map wi_data (tm_signatures tx)) in
    (\<exists>accounts' amounts'. process_transaction_bytes C S b accounts amounts =
       (case v of Accepted \<Rightarrow> Inr (True, accounts', amounts') | Missing \<Rightarrow> Inr (False, accounts', amounts')
        | Bad \<Rightarrow> Inr (False, accounts', amounts') | Short \<Rightarrow> Inl OutOfBounds))
    \<and> (case v of
         Accepted \<Rightarrow> \<exists>t. ptx_of_bytes C S b = Inr t
       | Missing \<Rightarrow> ptx_of_bytes C S b = Inl (if list_checks C then Thrown ''index'' else OutOfBounds)
       | Bad \<Rightarrow> ptx_of_bytes C S b = Inl (Thrown '''')
       | Short \<Rightarrow> ptx_of_bytes C S b = Inl OutOfBounds)"
  using assms
    process_credits_verdict [of S "tm_signatures tx" "tm_credit_set tx" cs 0 0
      "\<lparr>to_accounts = accounts, to_amounts = vec_resize 0 amounts (length cs), to_sigs = None\<rparr>"]
    load_credits_verdict [of "\<lparr>px_credits = replicate (length cs) \<lparr>px_pub = [], px_amount = 0\<rparr>,
        px_witnesses = replicate (length cs) []\<rparr>" 0 cs 0 C S "tm_signatures tx" "tm_credit_set tx"]
  by (auto simp: process_transaction_bytes_def process_transaction_def ptx_of_bytes_def list_fault_def Let_def
      split: verdict.split)

lemma transaction_verdict_witness:
  "let b = enc_tx toy_capnp \<lparr>tm_credit_set = enc_credits toy_capnp [credit_of [] (- 1)], tm_signatures = []\<rparr> in
   (\<exists>accounts amounts. process_transaction_bytes toy_capnp toy_sodium b [] [] = Inr (False, accounts, amounts))
   \<and> ptx_of_bytes toy_capnp toy_sodium b = Inl OutOfBounds
   \<and> ptx_of_bytes (toy_capnp\<lparr>list_checks := True\<rparr>) toy_sodium b = Inl (Thrown ''index'')"
proof -
  let ?tx = "\<lparr>tm_credit_set = enc_credits toy_capnp [credit_of [] (- 1)], tm_signatures = []\<rparr>"
  have dec: "dec_tx toy_capnp (enc_tx toy_capnp ?tx) = Inr ?tx"
    "dec_credits toy_capnp (tm_credit_set ?tx) = Inr [credit_of [] (- 1)]"
    by (simp_all add: capnp_okD [OF toy_capnp_ok])
  have v: "judge toy_sodium (tm_credit_set ?tx) (debited [credit_of [] (- 1)]) (map wi_data (tm_signatures ?tx)) = Missing"
    by (simp add: credit_of_def narrow_literals)
  have "list_checks toy_capnp = False" by (simp add: toy_capnp_def)
  with transaction_verdict [OF dec, of toy_sodium "[]" "[]"]
    transaction_verdict [of "toy_capnp\<lparr>list_checks := True\<rparr>" "enc_tx toy_capnp ?tx" ?tx "[credit_of [] (- 1)]" toy_sodium "[]" "[]"]
    dec v show ?thesis by (simp add: Let_def)
qed

text \<open>C1: an accepted transaction was authorised: every account whose amount, cut to 32 bits, is
  negative has a witness of its own that verifies against the serialised credits under the account's
  key, the amounts reported are the cut ones, and nothing else is added to the caller's vectors.\<close>

theorem process_transaction_sound:
  assumes "dec_credits C (tm_credit_set tx) = Inr cs" and "process_transaction C S tx out = Inr (True, out')"
  shows "length (debited cs) \<le> length (tm_signatures tx)
    \<and> (\<forall>k < length (debited cs). let w = wi_data (tm_signatures tx ! k); a = debited cs ! k in
         SIGN_BYTES \<le> length w \<and> SIGN_PUBLICKEYBYTES \<le> length a \<and>
         verify_detached S (take SIGN_BYTES w) (tm_credit_set tx) (take SIGN_PUBLICKEYBYTES a))
    \<and> to_amounts out' = map (\<lambda>c. narrow (cr_amount c)) cs
    \<and> to_accounts out' = to_accounts out @ map cr_account cs
    \<and> to_sigs out' = map_option (\<lambda>s. s @ map wi_data (take (length (debited cs)) (tm_signatures tx))) (to_sigs out)"
proof -
  let ?out = "out\<lparr>to_amounts := vec_resize 0 (to_amounts out) (length cs)\<rparr>"
  have run: "process_credits S (tm_signatures tx) (tm_credit_set tx) cs 0 0 ?out = Inr (True, out')"
    using assms by (simp add: process_transaction_def)
  have len: "length (to_amounts ?out) = length cs" by (simp add: vec_resize_def)
  obtain o2 where "Inr (True, out') = (case judge S (tm_credit_set tx) (debited cs) (map wi_data (tm_signatures tx)) of
      Accepted \<Rightarrow> Inr (True, o2) | Missing \<Rightarrow> Inr (False, o2) | Bad \<Rightarrow> Inr (False, o2) | Short \<Rightarrow> Inl OutOfBounds)"
    using process_credits_verdict [of S "tm_signatures tx" "tm_credit_set tx" cs 0 0 ?out] run by auto
  then have "judge S (tm_credit_set tx) (debited cs) (map wi_data (tm_signatures tx)) = Accepted"
    by (auto split: verdict.splits)
  with process_credits_out [OF run] len show ?thesis by (auto simp: judge_Accepted comp_def Let_def)
qed

text \<open>A transaction that takes 3 from the first account and gives them to the second.\<close>

lemma process_transaction_sound_witness:
  "let tx = snd (create_transaction toy_capnp toy_sodium
         [(toy_pad 64 (toy_pad 32 [1]), toy_pad 32 [1]), (toy_pad 64 (toy_pad 32 [2]), toy_pad 32 [2])] [- 3, 3]
         \<lparr>tm_credit_set = [], tm_signatures = []\<rparr>) in
    \<exists>out'. process_transaction toy_capnp toy_sodium tx \<lparr>to_accounts = [], to_amounts = [], to_sigs = None\<rparr> = Inr (True, out')
      \<and> to_accounts out' = [toy_pad 32 [1], toy_pad 32 [2]] \<and> to_amounts out' = [- 3, 3]
      \<and> 1 \<le> length (tm_signatures tx)
      \<and> verify_detached toy_sodium (take 64 (wi_data (tm_signatures tx ! 0))) (tm_credit_set tx) (take 32 (toy_pad 32 [1]))"
proof -
  let ?kps = "[(toy_pad 64 (toy_pad 32 [1]), toy_pad 32 [1]), (toy_pad 64 (toy_pad 32 [2]), toy_pad 32 [2])]"
  let ?cs = "credits_of ?kps [- 3, 3]"
  define tx where "tx = snd (create_transaction toy_capnp toy_sodium ?kps [- 3, 3] \<lparr>tm_credit_set = [], tm_signatures = []\<rparr>)"
  have cs: "?cs = [credit_of (toy_pad 32 [1]) (- 3), credit_of (toy_pad 32 [2]) 3]" by (simp add: credits_of_def)
  have dec: "dec_credits toy_capnp (tm_credit_set tx) = Inr ?cs"
    by (simp add: tx_def create_transaction_def Let_def capnp_okD [OF toy_capnp_ok])
  have deb: "debited ?cs = [toy_pad 32 [1]]" using narrow_widened [of "- 3"] narrow_widened [of 3] by (simp add: cs credit_of_def)
  obtain out' where run: "process_transaction toy_capnp toy_sodium tx
      \<lparr>to_accounts = [], to_amounts = [], to_sigs = None\<rparr> = Inr (True, out')"
    using process_created [OF toy_sign_ok toy_capnp_ok, of ?kps "[- 3, 3]" _ None] by (auto simp: tx_def toy_keypair)
  from process_transaction_sound [OF dec run] run deb show ?thesis
    using narrow_widened [of "- 3"] narrow_widened [of 3] unfolding Let_def tx_def [symmetric] by (auto simp: cs credit_of_def)
qed

lemma zero_amount_unsigned:
  assumes "capnp_ok C" and "narrow (word_of_int a) = 0"
  shows "let b = enc_tx C \<lparr>tm_credit_set = enc_credits C [credit_of pub a], tm_signatures = []\<rparr> in
    process_transaction_bytes C S b accounts amounts = Inr (True, accounts @ [pub], [0])
    \<and> ptx_of_bytes C S b = Inr \<lparr>px_credits = [\<lparr>px_pub = pub, px_amount = 0\<rparr>], px_witnesses = [[]]\<rparr>"
proof -
  have "(vec_resize 0 xs (Suc 0))[0 := 0] = [0]" for xs :: "int list"
    by (cases xs) (simp_all add: vec_resize_def)
  with assms(2) show ?thesis
    by (simp add: process_transaction_bytes_def process_transaction_def ptx_of_bytes_def Let_def
        capnp_okD [OF assms(1)] credit_of_def)
qed

text \<open>C37: a debit of a multiple of 2^32 needs no signature, because the amount is read into an \<open>int\<close>: the
  transaction is accepted with the amount 0.\<close>

theorem wide_debit_unsigned:
  assumes "capnp_ok C"
  shows "let b = enc_tx C \<lparr>tm_credit_set = enc_credits C [credit_of pub (- (k * 2 ^ 32))], tm_signatures = []\<rparr> in
    process_transaction_bytes C S b accounts amounts = Inr (True, accounts @ [pub], [0])
    \<and> ptx_of_bytes C S b = Inr \<lparr>px_credits = [\<lparr>px_pub = pub, px_amount = 0\<rparr>], px_witnesses = [[]]\<rparr>"
proof -
  have "take_bit 32 (- (k * 2 ^ 32)) = 0" by (simp add: take_bit_eq_mod)
  then have "narrow (word_of_int (- (k * 2 ^ 32))) = 0"
    unfolding narrow_word_of_int using signed_take_bit_take_bit [of 31 32 "- (k * 2 ^ 32)"] by simp
  then show ?thesis by (rule zero_amount_unsigned [OF assms])
qed

lemma wide_debit_unsigned_witness:
  "let b = enc_tx toy_capnp \<lparr>tm_credit_set = enc_credits toy_capnp [credit_of [7] (- (1 * 2 ^ 32))], tm_signatures = []\<rparr> in
    ptx_of_bytes toy_capnp toy_sodium b = Inr \<lparr>px_credits = [\<lparr>px_pub = [7], px_amount = 0\<rparr>], px_witnesses = [[]]\<rparr>"
  using wide_debit_unsigned [OF toy_capnp_ok, of "[7]" 1 toy_sodium "[]" "[]"] by (simp only: Let_def)

lemma ptx_of_bytes_Inr:
  assumes "capnp_ok C"
  shows "ptx_of_bytes C S (enc_tx C \<lparr>tm_credit_set = enc_credits C cs, tm_signatures = ws\<rparr>) = Inr t \<longleftrightarrow>
    judge S (enc_credits C cs) (debited cs) (map wi_data ws) = Accepted \<and>
    t = \<lparr>px_credits = map (\<lambda>c. \<lparr>px_pub = cr_account c, px_amount = narrow (cr_amount c)\<rparr>) cs,
         px_witnesses = map wi_data (take (length (debited cs)) ws) @
           replicate (length cs - length (debited cs)) []\<rparr>"
  using load_credits_verdict [of "\<lparr>px_credits = replicate (length cs) \<lparr>px_pub = [], px_amount = 0\<rparr>,
        px_witnesses = replicate (length cs) []\<rparr>" 0 cs 0 C S ws "enc_credits C cs"]
  by (auto simp: ptx_of_bytes_def capnp_okD [OF assms] Let_def split: verdict.split)

text \<open>The parsed form does not serialise to the bytes it was parsed from unless every amount is
  negative: it has one witness slot for each credit, and the unused ones are written out as empty
  signatures, so the same transaction has another hash after it went through a node. The bytes it
  writes parse to the same transaction again.\<close>

lemma ptx_reserialise:
  assumes "capnp_ok C" and "\<forall>c \<in> set cs. word_of_int (narrow (cr_amount c)) = cr_amount c"
    and "length ws = length (debited cs)" and "\<forall>w \<in> set ws. wi_type w = 0"
    and b: "b = enc_tx C \<lparr>tm_credit_set = enc_credits C cs, tm_signatures = ws\<rparr>"
    and t: "ptx_of_bytes C S b = Inr t"
  shows "ptx_bytes C t = enc_tx C \<lparr>tm_credit_set = enc_credits C cs,
        tm_signatures = ws @ replicate (length cs - length (debited cs)) \<lparr>wi_type = 0, wi_data = []\<rparr>\<rparr>
    \<and> ptx_of_bytes C S (ptx_bytes C t) = Inr t
    \<and> (ptx_bytes C t = b \<longleftrightarrow> length (debited cs) = length cs)"
proof -
  let ?k = "length cs - length (debited cs)" and ?blank = "\<lparr>wi_type = 0, wi_data = []\<rparr>"
  let ?ws = "ws @ replicate ?k ?blank"
  have le: "length (debited cs) \<le> length cs" by (simp add: debited_def)
  have judged: "judge S (enc_credits C cs) (debited cs) (map wi_data ws) = Accepted"
    and teq: "t = \<lparr>px_credits = map (\<lambda>c. \<lparr>px_pub = cr_account c, px_amount = narrow (cr_amount c)\<rparr>) cs,
      px_witnesses = map wi_data ws @ replicate ?k []\<rparr>"
    using t unfolding b ptx_of_bytes_Inr [OF assms(1)] assms(3) [symmetric] by simp_all
  have cred: "ptx_credit_bytes C t = enc_credits C cs"
    unfolding ptx_credit_bytes_def teq using assms(2)
    by (intro arg_cong [of _ _ "enc_credits C"]) (simp add: credit_of_def comp_def map_idI)
  have wits: "map (\<lambda>w. \<lparr>wi_type = 0, wi_data = w\<rparr>) (px_witnesses t) = ?ws"
    unfolding teq using assms(4) by (auto intro!: map_idI)
  have bytes: "ptx_bytes C t = enc_tx C \<lparr>tm_credit_set = enc_credits C cs, tm_signatures = ?ws\<rparr>"
    unfolding ptx_bytes_def cred wits ..
  have "judge S (enc_credits C cs) (debited cs) (map wi_data ?ws) = Accepted"
    using judged assms(3) by (simp add: judge_Accepted nth_append)
  then have "ptx_of_bytes C S (enc_tx C \<lparr>tm_credit_set = enc_credits C cs, tm_signatures = ?ws\<rparr>) = Inr t"
    unfolding ptx_of_bytes_Inr [OF assms(1)] teq using assms(3) by simp
  then have again: "ptx_of_bytes C S (ptx_bytes C t) = Inr t" unfolding bytes .
  have "ptx_bytes C t = b \<longleftrightarrow> ?ws = ws"
    unfolding bytes b by (metis assms(1) capnp_okD(2) sum.inject(2) transaction_msg.ext_inject)
  with bytes again le show ?thesis by auto
qed

end
