(* ===== verification/Std_Containers.thy ===== *)
theory Std_Containers
  imports Prelude
begin

text \<open>
  \<open>std::set\<close> and \<open>std::map\<close> as the code uses them: iteration is in key order, keys are unique,
  \<open>insert\<close> keeps an element that is there, \<open>map[k] = v\<close> overwrites. Both are lists kept in strictly
  ascending key order, so that a range-based \<open>for\<close> over the container is a recursion over the list.
  \<open>std::vector<uint8_t>\<close> is compared lexicographically, which is the order of lists used here.
\<close>

section \<open>Interfaces\<close>

text \<open>What the clients of a \<open>std::set\<close> rely on.\<close>

locale ordered_set =
  fixes empty :: "'s"
    and insert_key :: "'a::linorder \<Rightarrow> 's \<Rightarrow> 's"
    and to_list :: "'s \<Rightarrow> 'a list"
    and ok :: "'s \<Rightarrow> bool"
  assumes ok_empty: "ok empty"
    and ok_insert: "ok s \<Longrightarrow> ok (insert_key x s)"
    and list_empty: "to_list empty = []"
    and set_insert_key: "ok s \<Longrightarrow> set (to_list (insert_key x s)) = insert x (set (to_list s))"
    and ascending: "ok s \<Longrightarrow> sorted_wrt (<) (to_list s)"
begin

lemma distinct_list: "ok s \<Longrightarrow> distinct (to_list s)"
  using ascending strict_sorted_iff by blast

lemma list_unique:
  assumes "ok s" and "ok t" and "set (to_list s) = set (to_list t)"
  shows "to_list s = to_list t"
  using assms ascending strict_sorted_equal by metis

lemma ok_fold_insert: "ok s \<Longrightarrow> ok (fold insert_key xs s)"
  by (induction xs arbitrary: s) (simp_all add: ok_insert)

lemma set_fold_insert:
  "ok s \<Longrightarrow> set (to_list (fold insert_key xs s)) = set xs \<union> set (to_list s)"
  by (induction xs arbitrary: s) (simp_all add: ok_insert set_insert_key)

lemma insert_idem:
  assumes "ok s" and "x \<in> set (to_list s)"
  shows "to_list (insert_key x s) = to_list s"
  using assms list_unique [of "insert_key x s" s] by (simp add: ok_insert set_insert_key insert_absorb)

lemma insert_commute:
  "ok s \<Longrightarrow> to_list (insert_key x (insert_key y s)) = to_list (insert_key y (insert_key x s))"
  by (rule list_unique) (auto simp: ok_insert set_insert_key)

lemma fold_insert_order:
  assumes "ok s" and "set xs = set ys"
  shows "to_list (fold insert_key xs s) = to_list (fold insert_key ys s)"
  using assms by (intro list_unique) (simp_all add: ok_fold_insert set_fold_insert)

lemma card_insert:
  assumes "ok s"
  shows "length (to_list (insert_key x s)) =
    (if x \<in> set (to_list s) then length (to_list s) else Suc (length (to_list s)))"
proof -
  have "length (to_list t) = card (set (to_list t))" if "ok t" for t
    using that distinct_list distinct_card by metis
  with assms show ?thesis
    by (simp add: ok_insert set_insert_key card_insert_if)
qed

end

text \<open>What the clients of a \<open>std::map\<close> rely on.\<close>

locale ordered_map =
  fixes empty :: "'m"
    and assign :: "'k::linorder \<Rightarrow> 'v \<Rightarrow> 'm \<Rightarrow> 'm"
    and find :: "'m \<Rightarrow> 'k \<Rightarrow> 'v option"
    and keys :: "'m \<Rightarrow> 'k list"
    and ok :: "'m \<Rightarrow> bool"
  assumes ok_empty: "ok empty"
    and ok_assign: "ok m \<Longrightarrow> ok (assign k v m)"
    and find_empty: "find empty = Map.empty"
    and find_assign: "ok m \<Longrightarrow> find (assign k v m) = (find m)(k \<mapsto> v)"
    and set_keys: "ok m \<Longrightarrow> set (keys m) = dom (find m)"
    and keys_ascending: "ok m \<Longrightarrow> sorted_wrt (<) (keys m)"
begin

lemma keys_distinct: "ok m \<Longrightarrow> distinct (keys m)"
  using keys_ascending strict_sorted_iff by blast

lemma set_keys_assign: "ok m \<Longrightarrow> set (keys (assign k v m)) = insert k (set (keys m))"
  by (simp add: set_keys ok_assign find_assign)

lemma ok_fold_assign: "ok m \<Longrightarrow> ok (fold (\<lambda>(k, v). assign k v) kvs m)"
  by (induction kvs arbitrary: m) (auto simp: ok_assign)

lemma find_assign_same: "ok m \<Longrightarrow> find (assign k v m) k = Some v"
  by (simp add: find_assign)

lemma find_assign_other: "ok m \<Longrightarrow> k' \<noteq> k \<Longrightarrow> find (assign k v m) k' = find m k'"
  by (simp add: find_assign)

lemma find_fold_same:
  "ok m \<Longrightarrow> find (fold (\<lambda>k. assign k v) ks m) = (\<lambda>k. if k \<in> set ks then Some v else find m k)"
  by (induction ks arbitrary: m) (auto simp: ok_assign find_assign)

lemma ok_fold_same: "ok m \<Longrightarrow> ok (fold (\<lambda>k. assign k v) ks m)"
  by (induction ks arbitrary: m) (auto simp: ok_assign)

end

section \<open>Sets\<close>

fun set_insert :: "'a::linorder \<Rightarrow> 'a list \<Rightarrow> 'a list" where
  "set_insert x [] = [x]"
| "set_insert x (y # ys) =
     (if x < y then x # y # ys else if x = y then y # ys else y # set_insert x ys)"

abbreviation ascending :: "'a::linorder list \<Rightarrow> bool" where
  "ascending \<equiv> sorted_wrt (<)"

lemma set_set_insert [simp]: "set (set_insert x s) = insert x (set s)"
  by (induction s) auto

lemma ascending_set_insert [intro, simp]: "ascending s \<Longrightarrow> ascending (set_insert x s)"
  by (induction s) auto

interpretation std_set: ordered_set "[]" set_insert "\<lambda>s. s" ascending
  by unfold_locales auto

section \<open>Maps\<close>

type_synonym ('k, 'v) std_map = "('k \<times> 'v) list"

fun map_assign :: "'k::linorder \<Rightarrow> 'v \<Rightarrow> ('k, 'v) std_map \<Rightarrow> ('k, 'v) std_map" where
  "map_assign k v [] = [(k, v)]"
| "map_assign k v ((k', v') # m) =
     (if k < k' then (k, v) # (k', v') # m
      else if k = k' then (k, v) # m
      else (k', v') # map_assign k v m)"

definition map_ok :: "('k::linorder, 'v) std_map \<Rightarrow> bool" where
  "map_ok m \<longleftrightarrow> ascending (map fst m)"

text \<open>\<open>m[k]\<close> inserts a value-initialised element where there is none.\<close>

definition map_index :: "'v \<Rightarrow> ('k::linorder, 'v) std_map \<Rightarrow> 'k \<Rightarrow> 'v \<times> ('k, 'v) std_map" where
  "map_index d m k = (case map_of m k of Some v \<Rightarrow> (v, m) | None \<Rightarrow> (d, map_assign k d m))"

definition map_count :: "('k::linorder, 'v) std_map \<Rightarrow> 'k \<Rightarrow> bool" where
  "map_count m k \<longleftrightarrow> map_of m k \<noteq> None"

lemma set_fst_map_assign: "set (map fst (map_assign k v m)) = insert k (set (map fst m))"
  by (induction k v m rule: map_assign.induct) (auto simp del: set_map simp: insert_commute)

lemma map_ok_Nil [simp]: "map_ok []"
  by (simp add: map_ok_def)

lemma map_ok_assign [intro, simp]: "map_ok m \<Longrightarrow> map_ok (map_assign k v m)"
proof (induction m)
  case (Cons p m)
  obtain k' v' where p: "p = (k', v')" by (cases p)
  with Cons have "ascending (map fst (map_assign k v m))" and "\<forall>x \<in> set (map fst m). k' < x"
    by (auto simp: map_ok_def)
  with Cons.prems p set_fst_map_assign [of k v m] show ?case
    by (auto simp: map_ok_def simp del: set_map)
qed (simp add: map_ok_def)

lemma map_of_assign [simp]: "map_ok m \<Longrightarrow> map_of (map_assign k v m) = (map_of m)(k \<mapsto> v)"
proof (induction m)
  case (Cons p m)
  then have "map_ok m" by (simp add: map_ok_def)
  with Cons.IH have IH: "map_of (map_assign k v m) = (map_of m)(k \<mapsto> v)" .
  show ?case by (cases p) (auto simp: IH fun_eq_iff)
qed simp

interpretation std_map: ordered_map "[]" map_assign map_of "map fst" map_ok
  by unfold_locales (auto simp: dom_map_of_conv_image_fst map_ok_def [symmetric])

lemma map_count_assign [simp]:
  "map_ok m \<Longrightarrow> map_count (map_assign k v m) k' \<longleftrightarrow> k' = k \<or> map_count m k'"
  by (simp add: map_count_def)

lemma map_ok_index: "map_ok m \<Longrightarrow> map_ok (snd (map_index d m k))"
  by (simp add: map_index_def split: option.split)

lemma map_of_index:
  assumes "map_ok m"
  shows "map_of (snd (map_index d m k)) = (map_of m)(k \<mapsto> fst (map_index d m k))"
  using assms by (auto simp: map_index_def fun_eq_iff split: option.split)

lemma fst_map_index: "fst (map_index d m k) = (case map_of m k of Some v \<Rightarrow> v | None \<Rightarrow> d)"
  by (simp add: map_index_def split: option.split)

end
