(* ===== verification/Chain.thy ===== *)
theory Chain
  imports Merkle Transactions Std_Containers
begin

text \<open>
  \<open>pttp::BlockHeader\<close> and \<open>pttp::BlockChain\<close> of \<open>bin/p2p.cc\<close>: block headers, the pool of
  transactions and the choice of those the next block takes. The maps and sets of the standard
  library are those of \<open>Std_Containers\<close>.
\<close>

section \<open>Headers\<close>

record header =
  bh_hash :: bytes
  bh_prev_hash :: bytes
  bh_tx_hash :: bytes
  bh_utxo_hash :: bytes
  bh_nonce :: bytes
  bh_T :: u64
  bh_height :: u64

definition header_new :: header where
  "header_new = \<lparr>bh_hash = [], bh_prev_hash = [], bh_tx_hash = [], bh_utxo_hash = [], bh_nonce = [],
     bh_T = 0, bh_height = 0\<rparr>"

definition header_from_bytes :: "capnp \<Rightarrow> bytes \<Rightarrow> header \<Rightarrow> header result" where
  "header_from_bytes C b h = bindR (dec_block C b) (\<lambda>r.
     Inr (h\<lparr>bh_hash := bm_prev_hash r, bh_tx_hash := bm_tx_hash r, bh_utxo_hash := bm_utxo_hash r,
       bh_nonce := bm_nonce r, bh_T := bm_time r\<rparr>))"

definition header_bytes :: "capnp \<Rightarrow> header \<Rightarrow> bytes" where
  "header_bytes C h = enc_block C \<lparr>bm_prev_hash = bh_prev_hash h, bm_tx_hash = bh_tx_hash h,
     bm_utxo_hash = bh_utxo_hash h, bm_nonce = bh_nonce h, bm_time = bh_T h\<rparr>"

definition calculate_hash :: "capnp \<Rightarrow> sodium \<Rightarrow> header \<Rightarrow> bytes" where
  "calculate_hash C S h = hard_hash S (header_bytes C h)"

section \<open>The chain\<close>

text \<open>A null pointer in \<open>txs\<close> is \<open>None\<close>; the code's \<open>utxos\<close>, \<open>utxo_sets\<close> and \<open>latest_block_hash\<close> are
  used by no operation.\<close>

record chain =
  bc_blocks :: "(bytes, header) std_map"
  bc_heights :: "(bytes, int) std_map"
  bc_txs :: "(bytes, ptx option) std_map"
  bc_mempool :: "bytes list"
  bc_latest_set :: "bytes list"
  bc_latest_hash :: bytes
  bc_zero_block :: bytes
  bc_hash_sets :: "(bytes, bytes list) std_map"
  bc_balance :: "(bytes, int) std_map"

definition chain_new :: chain where
  "chain_new = \<lparr>bc_blocks = [], bc_heights = [], bc_txs = [], bc_mempool = [], bc_latest_set = [],
     bc_latest_hash = [], bc_zero_block = bytes_of_size 32, bc_hash_sets = [], bc_balance = []\<rparr>"

definition chain_add :: "capnp \<Rightarrow> sodium \<Rightarrow> ptx \<Rightarrow> chain \<Rightarrow> chain" where
  "chain_add C S tx ch =
     (let h = hash S (ptx_bytes C tx) in
      if \<not> map_count (bc_txs ch) h
      then ch\<lparr>bc_txs := map_assign h (Some tx) (bc_txs ch), bc_mempool := set_insert h (bc_mempool ch)\<rparr>
      else ch)"

text \<open>The first loop over the credits of a transaction, with its two breaks.\<close>

fun credits_valid :: "ptx_credit list \<Rightarrow> bytes list \<Rightarrow> (bytes, int) std_map \<Rightarrow> bool result" where
  "credits_valid [] pub_set bal = Inr True"
| "credits_valid (c # credits) pub_set bal =
     (if px_pub c \<in> set pub_set then Inr False
      else
        let pub_set = set_insert (px_pub c) pub_set in
        if px_amount c < 0 then
          (case map_of bal (px_pub c) of
             None \<Rightarrow> Inr False
           | Some v \<Rightarrow> bindR (assertR (- px_amount c < 2 ^ 63) SignedOverflow) (\<lambda>_.
               if v < - px_amount c then Inr False else credits_valid credits pub_set bal))
        else credits_valid credits pub_set bal)"

text \<open>The second one, with the overflow of \<open>int64_t\<close>.\<close>

fun credits_apply :: "ptx_credit list \<Rightarrow> (bytes, int) std_map \<Rightarrow> (bytes, int) std_map result" where
  "credits_apply [] bal = Inr bal"
| "credits_apply (c # credits) bal =
     (case map_of bal (px_pub c) of
        Some v \<Rightarrow>
          bindR (assertR (- (2 ^ 63) \<le> v + px_amount c \<and> v + px_amount c < 2 ^ 63) SignedOverflow)
            (\<lambda>_. credits_apply credits (map_assign (px_pub c) (v + px_amount c) bal))
      | None \<Rightarrow> credits_apply credits (map_assign (px_pub c) (px_amount c) bal))"

text \<open>The loop over the pool: the transactions (\<open>txs[hash]\<close> inserts a null pointer for a hash that is
  not there), the balances so far, and the hashes chosen.\<close>

fun select_txs ::
  "bytes list \<Rightarrow> (bytes, ptx option) std_map \<Rightarrow> (bytes, int) std_map \<Rightarrow> bytes list \<Rightarrow>
   ((bytes, ptx option) std_map \<times> (bytes, int) std_map \<times> bytes list) result" where
  "select_txs [] txs bal chosen = Inr (txs, bal, chosen)"
| "select_txs (h # hs) txs bal chosen =
     (let (tx, txs) = map_index None txs h in
      case tx of
        None \<Rightarrow> Inl NullDeref
      | Some tx \<Rightarrow>
          bindR (credits_valid (px_credits tx) [] bal) (\<lambda>valid.
            if valid then
              bindR (credits_apply (px_credits tx) bal) (\<lambda>bal. select_txs hs txs bal (chosen @ [h]))
            else select_txs hs txs bal chosen))"

definition get_latest :: "sodium \<Rightarrow> chain \<Rightarrow> (bytes \<times> chain) result" where
  "get_latest S ch =
     bindR (select_txs (bc_mempool ch) (bc_txs ch) (bc_balance ch) []) (\<lambda>(txs, balance_cpy, chosen).
     bindR (hash_vec S chosen) (\<lambda>h.
       Inr (h, ch\<lparr>bc_txs := txs, bc_latest_set := chosen, bc_latest_hash := h\<rparr>)))"

text \<open>\<open>add_block_if_ok\<close> returns on one path only.\<close>

definition add_block_if_ok :: "capnp \<Rightarrow> sodium \<Rightarrow> header \<Rightarrow> chain \<Rightarrow> bool option result" where
  "add_block_if_ok C S h ch =
     bindR (vec_get (calculate_hash C S h) 0) (\<lambda>b.
       if b \<noteq> 0 then Inr (Some False)
       else if map_count (bc_hash_sets ch) (bh_tx_hash h) then Inr None else Inr None)"

section \<open>Heights\<close>

fun assign_heights :: "bytes list \<Rightarrow> int \<Rightarrow> (bytes, int) std_map \<Rightarrow> (bytes, int) std_map" where
  "assign_heights [] h heights = heights"
| "assign_heights (e # es) h heights = assign_heights es (h + 1) (map_assign e (h + 1) heights)"

definition assign_all :: "bytes list \<Rightarrow> int \<Rightarrow> (bytes, int) std_map \<Rightarrow> (bytes, int) std_map" where
  "assign_all es v heights = fold (\<lambda>e. map_assign e v) es heights"

text \<open>The inner \<open>while (true)\<close>; \<open>None\<close> is a loop that does not end.\<close>

partial_function (option) mark_walk ::
  "(bytes, header) std_map \<Rightarrow> bytes \<Rightarrow> bytes list \<Rightarrow> header \<Rightarrow> (bytes, int) std_map \<Rightarrow> (bytes, int) std_map option" where
  "mark_walk blocks zero list cur heights =
     (if bh_prev_hash cur = zero then Some (assign_heights (rev list) 0 heights)
      else
        (case map_of blocks (bh_prev_hash cur) of
           None \<Rightarrow> Some (assign_all list (- 1) heights)
         | Some prev \<Rightarrow>
             let (h, heights) = map_index 0 heights (bh_prev_hash cur) in
             if h = - 1 then Some (assign_all list (- 1) heights)
             else if h > 0 then Some (assign_heights (rev list) h heights)
             else mark_walk blocks zero (list @ [bh_prev_hash cur]) prev heights))"

fun mark_each ::
  "(bytes, header) std_map \<Rightarrow> bytes \<Rightarrow> (bytes \<times> header) list \<Rightarrow> (bytes, int) std_map \<Rightarrow> (bytes, int) std_map option" where
  "mark_each blocks zero [] heights = Some heights"
| "mark_each blocks zero ((k, b) # bs) heights =
     (let (h, heights) = map_index 0 heights k in
      if h = - 1 then Some heights
      else Option.bind (mark_walk blocks zero [k] b heights) (mark_each blocks zero bs))"

definition mark_blocks :: "chain \<Rightarrow> chain option" where
  "mark_blocks ch =
     (let heights = assign_all (map fst (bc_blocks ch)) 0 (bc_heights ch) in
      map_option (\<lambda>hs. ch\<lparr>bc_heights := hs\<rparr>) (mark_each (bc_blocks ch) (bc_zero_block ch) (bc_blocks ch) heights))"

section \<open>What a choice of transactions means\<close>

text \<open>A transaction is covered by balances: no account twice, and every debit within the balance.\<close>

definition covered :: "(bytes \<Rightarrow> int option) \<Rightarrow> ptx_credit list \<Rightarrow> bool" where
  "covered bal cs \<longleftrightarrow> distinct (map px_pub cs) \<and>
     (\<forall>c \<in> set cs. px_amount c < 0 \<longrightarrow> (\<exists>v. bal (px_pub c) = Some v \<and> - px_amount c \<le> v))"

definition credited :: "ptx_credit \<Rightarrow> (bytes \<Rightarrow> int option) \<Rightarrow> (bytes \<Rightarrow> int option)" where
  "credited c bal = bal(px_pub c \<mapsto> (case bal (px_pub c) of Some v \<Rightarrow> v + px_amount c | None \<Rightarrow> px_amount c))"

text \<open>The greedy choice over a list of transactions.\<close>

fun chosen_of :: "(bytes \<Rightarrow> ptx_credit list) \<Rightarrow> bytes list \<Rightarrow> (bytes \<Rightarrow> int option) \<Rightarrow> bytes list" where
  "chosen_of credits [] bal = []"
| "chosen_of credits (h # hs) bal =
     (if covered bal (credits h) then h # chosen_of credits hs (fold credited (credits h) bal)
      else chosen_of credits hs bal)"

definition balances_within :: "int \<Rightarrow> (bytes \<Rightarrow> int option) \<Rightarrow> bool" where
  "balances_within B bal \<longleftrightarrow> (\<forall>v \<in> ran bal. 0 \<le> v \<and> v \<le> B)"

lemma covered_Cons:
  "covered bal (c # cs) \<longleftrightarrow> px_pub c \<notin> px_pub ` set cs \<and> covered bal cs \<and>
     (px_amount c < 0 \<longrightarrow> (\<exists>v. bal (px_pub c) = Some v \<and> - px_amount c \<le> v))"
  by (auto simp: covered_def)

lemma credits_valid_eq:
  assumes "\<And>c. c \<in> set cs \<Longrightarrow> int32 (px_amount c)"
  shows "credits_valid cs ps bal = Inr (covered (map_of bal) cs \<and> set ps \<inter> px_pub ` set cs = {})"
  using assms
proof (induction cs arbitrary: ps)
  case (Cons c cs)
  let ?ps = "set_insert (px_pub c) ps"
  have IH: "credits_valid cs ?ps bal = Inr (covered (map_of bal) cs \<and> set ?ps \<inter> px_pub ` set cs = {})"
    using Cons.prems by (intro Cons.IH) simp
  have ov: "- px_amount c < 2 ^ 63" using Cons.prems [of c] by simp
  show ?case
  proof (cases "px_amount c < 0")
    case True
    with IH ov show ?thesis
      by (cases "map_of bal (px_pub c)") (auto simp: covered_Cons Let_def not_less)
  next
    case False
    with IH show ?thesis by (auto simp: covered_Cons Let_def)
  qed
qed (simp add: covered_def)

lemma balances_within_mono: "balances_within B bal \<Longrightarrow> B \<le> B' \<Longrightarrow> balances_within B' bal"
  by (force simp: balances_within_def)

lemma credited_within:
  assumes "balances_within B bal" and "int32 (px_amount c)" and "0 \<le> B"
    and "px_amount c < 0 \<longrightarrow> (\<exists>v. bal (px_pub c) = Some v \<and> - px_amount c \<le> v)"
  shows "balances_within (B + 2 ^ 31) (credited c bal)"
  unfolding balances_within_def credited_def
proof
  fix v assume v: "v \<in> ran (bal(px_pub c \<mapsto> (case bal (px_pub c) of Some v \<Rightarrow> v + px_amount c | None \<Rightarrow> px_amount c)))"
  have "0 \<le> w \<and> w \<le> B" if "bal k = Some w" for k w
    using assms(1) that unfolding balances_within_def by (auto simp: ran_def)
  with v assms(2-4) show "0 \<le> v \<and> v \<le> B + 2 ^ 31"
    by (force simp: ran_def split: if_splits option.splits)
qed

lemma covered_credited:
  assumes "covered bal (c # cs)"
  shows "covered (credited c bal) cs"
proof -
  have "px_pub d \<noteq> px_pub c" if "d \<in> set cs" for d
    using assms that unfolding covered_Cons by (metis imageI)
  with assms show ?thesis by (auto simp: covered_def credited_def)
qed

lemma credits_apply_eq:
  assumes "covered (map_of bal) cs" and "\<And>c. c \<in> set cs \<Longrightarrow> int32 (px_amount c)" and "map_ok bal"
    and "balances_within B (map_of bal)" and "0 \<le> B" and "B + int (length cs) * 2 ^ 31 < 2 ^ 63"
  shows "\<exists>bal'. credits_apply cs bal = Inr bal' \<and> map_ok bal' \<and> map_of bal' = fold credited cs (map_of bal)
    \<and> balances_within (B + int (length cs) * 2 ^ 31) (map_of bal')"
  using assms
proof (induction cs arbitrary: bal B)
  case (Cons c cs)
  let ?new = "case map_of bal (px_pub c) of Some v \<Rightarrow> v + px_amount c | None \<Rightarrow> px_amount c"
  let ?bal = "map_assign (px_pub c) ?new bal"
  have new: "map_of ?bal = credited c (map_of bal)" and ok: "map_ok ?bal"
    using Cons.prems(3) by (simp_all add: credited_def)
  have within: "balances_within (B + 2 ^ 31) (map_of ?bal)"
    unfolding new using Cons.prems(1,2,4,5) by (intro credited_within) (simp_all add: covered_Cons)
  have step: "credits_apply (c # cs) bal = credits_apply cs ?bal"
  proof (cases "map_of bal (px_pub c)")
    case (Some v)
    then have "0 \<le> v" "v \<le> B"
      using Cons.prems(4) unfolding balances_within_def by (auto simp: ran_def)
    moreover have "int32 (px_amount c)" using Cons.prems(2) by simp
    moreover have "B + 2 ^ 31 < 2 ^ 63" using Cons.prems(6) by simp
    ultimately have "- (2 ^ 63) \<le> v + px_amount c \<and> v + px_amount c < 2 ^ 63" by simp
    with Some show ?thesis by simp
  qed simp
  have "\<exists>bal'. credits_apply cs ?bal = Inr bal' \<and> map_ok bal' \<and> map_of bal' = fold credited cs (map_of ?bal)
    \<and> balances_within (B + 2 ^ 31 + int (length cs) * 2 ^ 31) (map_of bal')"
    using Cons.prems(2,5,6) ok within covered_credited [OF Cons.prems(1)]
    by (intro Cons.IH) (simp_all add: new)
  then show ?case unfolding step new by (simp add: algebra_simps)
qed simp

lemma fold_credited_within:
  "covered bal cs \<Longrightarrow> (\<And>c. c \<in> set cs \<Longrightarrow> int32 (px_amount c)) \<Longrightarrow> balances_within B bal \<Longrightarrow> 0 \<le> B \<Longrightarrow>
     balances_within (B + int (length cs) * 2 ^ 31) (fold credited cs bal)"
proof (induction cs arbitrary: bal B)
  case (Cons c cs)
  have "balances_within (B + 2 ^ 31) (credited c bal)"
    using Cons.prems by (intro credited_within) (simp_all add: covered_Cons)
  then have "balances_within (B + 2 ^ 31 + int (length cs) * 2 ^ 31) (fold credited cs (credited c bal))"
    using Cons.prems covered_credited by (intro Cons.IH) simp_all
  then show ?case by (simp add: algebra_simps)
qed simp

section \<open>Properties of the choice\<close>

definition pool_credits :: "chain \<Rightarrow> bytes \<Rightarrow> ptx_credit list" where
  "pool_credits ch h = (case map_of (bc_txs ch) h of Some (Some tx) \<Rightarrow> px_credits tx | _ \<Rightarrow> [])"

definition pool_size :: "chain \<Rightarrow> nat" where
  "pool_size ch = sum_list (map (\<lambda>h. length (pool_credits ch h)) (bc_mempool ch))"

text \<open>What \<open>add\<close> keeps of the chain.\<close>

definition pool_ok :: "chain \<Rightarrow> bool" where
  "pool_ok ch \<longleftrightarrow> map_ok (bc_txs ch) \<and> map_ok (bc_balance ch) \<and> ascending (bc_mempool ch)
     \<and> dom (map_of (bc_txs ch)) = set (bc_mempool ch)
     \<and> (\<forall>h \<in> set (bc_mempool ch). \<exists>tx. map_of (bc_txs ch) h = Some (Some tx))
     \<and> (\<forall>h \<in> set (bc_mempool ch). \<forall>c \<in> set (pool_credits ch h). int32 (px_amount c))"

lemma select_txs_eq:
  assumes "\<And>h. h \<in> set hs \<Longrightarrow> \<exists>tx. map_of txs h = Some (Some tx) \<and> credits h = px_credits tx"
    and "\<And>h c. h \<in> set hs \<Longrightarrow> c \<in> set (credits h) \<Longrightarrow> int32 (px_amount c)" and "map_ok bal"
    and "balances_within B (map_of bal)" and "0 \<le> B"
    and "B + int (sum_list (map (\<lambda>h. length (credits h)) hs)) * 2 ^ 31 < 2 ^ 63"
  shows "\<exists>bal'. select_txs hs txs bal chosen = Inr (txs, bal', chosen @ chosen_of credits hs (map_of bal))
    \<and> balances_within (B + int (sum_list (map (\<lambda>h. length (credits h)) hs)) * 2 ^ 31) (map_of bal')
    \<and> map_of bal' = fold credited (concat (map credits (chosen_of credits hs (map_of bal)))) (map_of bal)"
  using assms
proof (induction hs arbitrary: bal B chosen)
  case (Cons h hs)
  obtain tx where tx: "map_of txs h = Some (Some tx)" "credits h = px_credits tx"
    using Cons.prems(1) by auto
  let ?cs = "px_credits tx"
  have int: "int32 (px_amount c)" if "c \<in> set ?cs" for c
    using Cons.prems(2) [of h c] tx(2) that by simp
  have valid: "credits_valid ?cs [] bal = Inr (covered (map_of bal) ?cs)"
    using credits_valid_eq [of ?cs "[]" bal] int by simp
  have look: "map_index None txs h = (Some tx, txs)" using tx(1) by (simp add: map_index_def)
  let ?B = "B + int (length ?cs) * 2 ^ 31"
  have room: "?B + int (sum_list (map (\<lambda>h. length (credits h)) hs)) * 2 ^ 31 < 2 ^ 63"
    using Cons.prems(6) tx(2) by (simp add: algebra_simps)
  show ?case
  proof (cases "covered (map_of bal) ?cs")
    case True
    have "B + int (length ?cs) * 2 ^ 31 < 2 ^ 63" using room by simp
    then obtain bal1 where bal1: "credits_apply ?cs bal = Inr bal1" "map_ok bal1"
        "map_of bal1 = fold credited ?cs (map_of bal)" "balances_within ?B (map_of bal1)"
      using credits_apply_eq [OF True int Cons.prems(3-5)] by blast
    have "\<exists>bal'. select_txs hs txs bal1 (chosen @ [h]) =
          Inr (txs, bal', (chosen @ [h]) @ chosen_of credits hs (map_of bal1))
        \<and> balances_within (?B + int (sum_list (map (\<lambda>h. length (credits h)) hs)) * 2 ^ 31) (map_of bal')
        \<and> map_of bal' = fold credited (concat (map credits (chosen_of credits hs (map_of bal1)))) (map_of bal1)"
      using Cons.prems(1,2,5) bal1(2,4) room by (intro Cons.IH) (simp_all, blast)
    with True valid look bal1(1,3) tx(2) show ?thesis by (simp add: algebra_simps)
  next
    case False
    have "\<exists>bal'. select_txs hs txs bal chosen =
          Inr (txs, bal', chosen @ chosen_of credits hs (map_of bal))
        \<and> balances_within (?B + int (sum_list (map (\<lambda>h. length (credits h)) hs)) * 2 ^ 31) (map_of bal')
        \<and> map_of bal' = fold credited (concat (map credits (chosen_of credits hs (map_of bal)))) (map_of bal)"
      using Cons.prems(1-3,5) balances_within_mono [OF Cons.prems(4)] room by (intro Cons.IH) (simp_all, blast)
    with False valid look tx(2) show ?thesis by (simp add: algebra_simps)
  qed
qed simp

lemma chosen_of_covered:
  "i < length (chosen_of credits hs bal) \<Longrightarrow>
     covered (fold credited (concat (map credits (take i (chosen_of credits hs bal)))) bal)
       (credits (chosen_of credits hs bal ! i))"
proof (induction hs arbitrary: bal i)
  case (Cons h hs)
  then show ?case
  proof (cases "covered bal (credits h)")
    case True
    with Cons show ?thesis by (cases i) simp_all
  qed simp
qed simp

lemma set_chosen_of: "set (chosen_of credits hs bal) \<subseteq> set hs"
  by (induction hs arbitrary: bal) auto

lemma chosen_of_ascending: "ascending hs \<Longrightarrow> ascending (chosen_of credits hs bal)"
proof (induction hs arbitrary: bal)
  case (Cons h hs)
  then show ?case using set_chosen_of [of credits hs] by fastforce
qed simp

lemma get_latest_eq:
  assumes "pool_ok ch" and "balances_within B (map_of (bc_balance ch))" and "0 \<le> B"
    and "B + int (pool_size ch) * 2 ^ 31 < 2 ^ 63"
  shows "let bal = map_of (bc_balance ch);
      sel = chosen_of (pool_credits ch) (bc_mempool ch) bal in
    get_latest S ch =
      (if sel = [] then Inl AssertFailed
       else let root = tree_root S (tree_height (length sel)) sel in
         Inr (root, ch\<lparr>bc_latest_set := sel, bc_latest_hash := root\<rparr>))
    \<and> (\<forall>v \<in> ran (fold credited (concat (map (pool_credits ch) sel)) bal). 0 \<le> v)"
proof -
  let ?bal = "map_of (bc_balance ch)"
  let ?sel = "chosen_of (pool_credits ch) (bc_mempool ch) ?bal"
  have look: "\<exists>tx. map_of (bc_txs ch) h = Some (Some tx) \<and> pool_credits ch h = px_credits tx"
    if "h \<in> set (bc_mempool ch)" for h
    using assms(1) that unfolding pool_ok_def by (fastforce simp: pool_credits_def)
  have int: "int32 (px_amount c)" if "h \<in> set (bc_mempool ch)" "c \<in> set (pool_credits ch h)" for h c
    using assms(1) that unfolding pool_ok_def by blast
  have ok: "map_ok (bc_balance ch)" using assms(1) by (simp add: pool_ok_def)
  have "\<exists>bal'. select_txs (bc_mempool ch) (bc_txs ch) (bc_balance ch) [] = Inr (bc_txs ch, bal', [] @ ?sel)
      \<and> balances_within (B + int (sum_list (map (\<lambda>h. length (pool_credits ch h)) (bc_mempool ch))) * 2 ^ 31) (map_of bal')
      \<and> map_of bal' = fold credited (concat (map (pool_credits ch) ?sel)) ?bal"
    using look int ok assms(2,3) assms(4) [unfolded pool_size_def] by (rule select_txs_eq)
  then obtain bal' where run: "select_txs (bc_mempool ch) (bc_txs ch) (bc_balance ch) [] = Inr (bc_txs ch, bal', ?sel)"
    and bal': "balances_within (B + int (pool_size ch) * 2 ^ 31) (map_of bal')"
      "map_of bal' = fold credited (concat (map (pool_credits ch) ?sel)) ?bal"
    unfolding pool_size_def append_Nil by blast
  have "get_latest S ch =
      (if ?sel = [] then Inl AssertFailed
       else let root = tree_root S (tree_height (length ?sel)) ?sel in
         Inr (root, ch\<lparr>bc_latest_set := ?sel, bc_latest_hash := root\<rparr>))"
  proof (cases "?sel = []")
    case True
    with run show ?thesis by (simp add: get_latest_def hash_vec_def)
  next
    case False
    with run show ?thesis by (simp add: get_latest_def hash_vec_root [OF False] Let_def)
  qed
  moreover have "0 \<le> v" if "v \<in> ran (fold credited (concat (map (pool_credits ch) ?sel)) ?bal)" for v
    using bal' that by (simp add: balances_within_def)
  ultimately show ?thesis unfolding Let_def by blast
qed

text \<open>C11: \<open>get_latest\<close> chooses, in the order of the hashes, every pool transaction that names no account
  twice and whose debits are within the balances left by those chosen before it, and passes over the
  others; it returns the root of the hash tree over the choice. No balance of the working copy becomes
  negative, nothing overflows while the balances and the pool stay in the given bounds, and with nothing to choose the program aborts.\<close>

theorem get_latest_selects:
  assumes "pool_ok ch" and "balances_within B (map_of (bc_balance ch))" and "0 \<le> B"
    and "B + int (pool_size ch) * 2 ^ 31 < 2 ^ 63"
  shows "let bal = map_of (bc_balance ch);
      sel = chosen_of (pool_credits ch) (bc_mempool ch) bal in
    get_latest S ch =
      (if sel = [] then Inl AssertFailed
       else let root = tree_root S (tree_height (length sel)) sel in
         Inr (root, ch\<lparr>bc_latest_set := sel, bc_latest_hash := root\<rparr>))
    \<and> (\<forall>i < length sel. covered (fold credited (concat (map (pool_credits ch) (take i sel))) bal) (pool_credits ch (sel ! i)))
    \<and> (\<forall>v \<in> ran (fold credited (concat (map (pool_credits ch) sel)) bal). 0 \<le> v)
    \<and> ascending sel \<and> set sel \<subseteq> set (bc_mempool ch)"
proof -
  have "ascending (bc_mempool ch)" using assms(1) by (simp add: pool_ok_def)
  then show ?thesis
    using get_latest_eq [OF assms] chosen_of_covered set_chosen_of chosen_of_ascending unfolding Let_def by blast
qed

lemma narrow_range: "int32 (narrow a)"
  using sint_greater_eq [of "ucast a :: u32"] sint_less [of "ucast a :: u32"] by (simp add: narrow_def)

lemma ptx_of_bytes_int32: "ptx_of_bytes C S b = Inr tx \<Longrightarrow> c \<in> set (px_credits tx) \<Longrightarrow> int32 (px_amount c)"
proof -
  assume "ptx_of_bytes C S b = Inr tx" and c: "c \<in> set (px_credits tx)"
  then obtain t cs where "dec_tx C b = Inr t" "dec_credits C (tm_credit_set t) = Inr cs"
    and l: "load_credits C S (tm_signatures t) (tm_credit_set t) cs 0 0
      \<lparr>px_credits = replicate (length cs) \<lparr>px_pub = [], px_amount = 0\<rparr>, px_witnesses = replicate (length cs) []\<rparr> = Inr tx"
    by (auto simp: ptx_of_bytes_def bindR_eq_Inr Let_def)
  from l have "px_credits tx = map (\<lambda>c. \<lparr>px_pub = cr_account c, px_amount = narrow (cr_amount c)\<rparr>) cs"
    by (subst (asm) load_credits_verdict) (auto simp: Let_def split: verdict.splits)
  with c show ?thesis using narrow_range by auto
qed

lemma chain_add_step:
  assumes "pool_ok ch" and "\<And>c. c \<in> set (px_credits tx) \<Longrightarrow> int32 (px_amount c)"
  shows "pool_ok (chain_add C S tx ch)
    \<and> set (bc_mempool (chain_add C S tx ch)) = insert (hash S (ptx_bytes C tx)) (set (bc_mempool ch))"
proof (cases "map_count (bc_txs ch) (hash S (ptx_bytes C tx))")
  case True
  then have "hash S (ptx_bytes C tx) \<in> set (bc_mempool ch)"
    using assms(1) unfolding pool_ok_def map_count_def by blast
  with True assms(1) show ?thesis by (simp add: chain_add_def Let_def insert_absorb)
next
  case False
  let ?h = "hash S (ptx_bytes C tx)" and ?ch = "chain_add C S tx ch"
  from False have eq: "?ch = ch\<lparr>bc_txs := map_assign ?h (Some tx) (bc_txs ch), bc_mempool := set_insert ?h (bc_mempool ch)\<rparr>"
    by (simp add: chain_add_def Let_def)
  have ok: "map_ok (bc_txs ch)" "ascending (bc_mempool ch)" "map_ok (bc_balance ch)"
    "dom (map_of (bc_txs ch)) = set (bc_mempool ch)"
    using assms(1) by (simp_all add: pool_ok_def)
  have look: "map_of (bc_txs ?ch) = (map_of (bc_txs ch))(?h \<mapsto> Some tx)" using ok(1) by (simp add: eq)
  then have credits: "pool_credits ?ch k = (if k = ?h then px_credits tx else pool_credits ch k)" for k
    by (simp add: pool_credits_def)
  have "pool_ok ?ch"
    unfolding pool_ok_def credits look
    using ok assms unfolding eq pool_ok_def by auto
  then show ?thesis by (simp add: eq)
qed

lemma chain_add_again: "pool_ok ch \<Longrightarrow> hash S (ptx_bytes C tx) \<in> set (bc_mempool ch) \<Longrightarrow> chain_add C S tx ch = ch"
  unfolding pool_ok_def chain_add_def map_count_def by (force simp: Let_def)

text \<open>C30: \<open>add\<close> keeps the pool well formed: after any transactions that were parsed, from any well-formed
  chain, the pool's hashes are exactly the keys of the transaction map, in order and without null
  pointers; adding any of them once more changes nothing.\<close>

theorem chain_add_pool:
  assumes "pool_ok ch" and "\<forall>tx \<in> set txs. \<exists>b. ptx_of_bytes C S b = Inr tx"
  shows "let ch' = fold (chain_add C S) txs ch in
    pool_ok ch'
    \<and> set (bc_mempool ch') = set (bc_mempool ch) \<union> (\<lambda>tx. hash S (ptx_bytes C tx)) ` set txs
    \<and> (\<forall>tx \<in> set txs. chain_add C S tx ch' = ch')"
proof -
  have "pool_ok (fold (chain_add C S) txs ch)
    \<and> set (bc_mempool (fold (chain_add C S) txs ch)) =
        set (bc_mempool ch) \<union> (\<lambda>tx. hash S (ptx_bytes C tx)) ` set txs"
    using assms
  proof (induction txs arbitrary: ch)
    case (Cons tx txs)
    obtain b where "ptx_of_bytes C S b = Inr tx" using Cons.prems(2) by auto
    then have "pool_ok (chain_add C S tx ch)
        \<and> set (bc_mempool (chain_add C S tx ch)) = insert (hash S (ptx_bytes C tx)) (set (bc_mempool ch))"
      using chain_add_step [OF Cons.prems(1)] ptx_of_bytes_int32 by blast
    with Cons.IH [of "chain_add C S tx ch"] Cons.prems(2) show ?case by auto
  qed simp
  then show ?thesis unfolding Let_def using chain_add_again by auto
qed

lemma pool_ok_new: "pool_ok chain_new"
  by (simp add: pool_ok_def chain_new_def)

lemma chain_add_pool_witness:
  "pool_ok (fold (chain_add toy_capnp toy_sodium) [\<lparr>px_credits = [\<lparr>px_pub = [5], px_amount = 3\<rparr>], px_witnesses = [[]]\<rparr>] chain_new)"
proof -
  have "ptx_of_bytes toy_capnp toy_sodium
      (enc_tx toy_capnp \<lparr>tm_credit_set = enc_credits toy_capnp [credit_of [5] 3], tm_signatures = []\<rparr>) =
    Inr \<lparr>px_credits = [\<lparr>px_pub = [5], px_amount = 3\<rparr>], px_witnesses = [[]]\<rparr>"
    by (simp add: ptx_of_bytes_Inr [OF toy_capnp_ok] credit_of_def narrow_literals)
  with chain_add_pool [OF pool_ok_new, of "[\<lparr>px_credits = [\<lparr>px_pub = [5], px_amount = 3\<rparr>], px_witnesses = [[]]\<rparr>]"
      toy_capnp toy_sodium]
  show ?thesis by (metis (no_types, lifting) empty_iff empty_set set_ConsD)
qed

lemma get_latest_selects_witness:
  "\<exists>root. get_latest toy_sodium
      \<lparr>bc_blocks = [], bc_heights = [], bc_txs = [([1], Some \<lparr>px_credits = [\<lparr>px_pub = [5], px_amount = - 2\<rparr>], px_witnesses = []\<rparr>)],
       bc_mempool = [[1]], bc_latest_set = [], bc_latest_hash = [], bc_zero_block = [], bc_hash_sets = [],
       bc_balance = [([5], 3)]\<rparr> = Inr root"
proof -
  let ?ch = "\<lparr>bc_blocks = [], bc_heights = [], bc_txs = [([1], Some \<lparr>px_credits = [\<lparr>px_pub = [5], px_amount = - 2\<rparr>], px_witnesses = []\<rparr>)],
       bc_mempool = [[1]], bc_latest_set = [], bc_latest_hash = [], bc_zero_block = [], bc_hash_sets = [],
       bc_balance = [([5], 3)]\<rparr> :: chain"
  have cr: "pool_credits ?ch [1] = [\<lparr>px_pub = [5], px_amount = - 2\<rparr>]" by (simp add: pool_credits_def)
  have "pool_ok ?ch" using cr by (auto simp: pool_ok_def map_ok_def)
  moreover have "balances_within 3 (map_of (bc_balance ?ch))" by (simp add: balances_within_def)
  moreover have "pool_size ?ch = 1" using cr by (simp add: pool_size_def)
  moreover have "chosen_of (pool_credits ?ch) (bc_mempool ?ch) (map_of (bc_balance ?ch)) = [[1]]"
    using cr by (simp add: covered_def)
  ultimately show ?thesis
    using get_latest_selects [of ?ch 3 toy_sodium] by (simp add: Let_def)
qed

section \<open>Properties of headers and blocks\<close>

lemma enc_block_inj: "capnp_ok C \<Longrightarrow> enc_block C x = enc_block C y \<longleftrightarrow> x = y"
  by (metis capnp_okD(3) sum.inject(2))

text \<open>A header that was serialised is not read back: the hash of the previous block ends up as the
  header's own hash and the link to the previous block is empty, so the hash computed from it is
  that of another block unless the link was empty before.\<close>

lemma header_link_lost:
  assumes "capnp_ok C"
  shows "header_from_bytes C (header_bytes C h) header_new =
      Inr (h\<lparr>bh_hash := bh_prev_hash h, bh_prev_hash := [], bh_height := 0\<rparr>)
    \<and> (\<forall>h'. header_from_bytes C (header_bytes C h) header_new = Inr h' \<longrightarrow>
         (header_bytes C h' = header_bytes C h \<longleftrightarrow> bh_prev_hash h = []))"
proof -
  let ?h = "h\<lparr>bh_hash := bh_prev_hash h, bh_prev_hash := [], bh_height := 0\<rparr>"
  have "header_from_bytes C (header_bytes C h) header_new = Inr ?h"
    by (simp add: header_from_bytes_def header_bytes_def header_new_def capnp_okD [OF assms])
  moreover have "header_bytes C ?h = header_bytes C h \<longleftrightarrow> bh_prev_hash h = []"
    unfolding header_bytes_def enc_block_inj [OF assms] by auto
  ultimately show ?thesis by simp
qed

text \<open>\<open>add_block_if_ok\<close> answers only to refuse: when the first byte of the header's hash is not zero.
  Every block with enough work makes it leave without a value, whether its transactions are known or
  not.\<close>

lemma add_block_never_accepts:
  assumes "hash_lengths_ok S"
  shows "add_block_if_ok C S h ch = Inr (if hd (calculate_hash C S h) = 0 then None else Some False)
    \<and> bindR (add_block_if_ok C S h ch) used \<noteq> Inr True"
proof -
  have "length (calculate_hash C S h) = 32" using assms by (simp add: calculate_hash_def length_hashes)
  then show ?thesis by (cases "calculate_hash C S h") (auto simp: add_block_if_ok_def)
qed

end
