(* ===== verification/Chain_Heights.thy ===== *)
theory Chain_Heights
  imports Chain
begin

text \<open>
  \<open>BlockChain::mark_blocks\<close> of \<open>bin/p2p.cc\<close>: what heights it computes when every block is linked to
  the zero block, when it does not come back, and where its first \<open>break\<close> leaves blocks behind.
\<close>

section \<open>The height of a block\<close>

inductive reaches_zero :: "(bytes, header) std_map \<Rightarrow> bytes \<Rightarrow> bytes \<Rightarrow> nat \<Rightarrow> bool"
  for blocks zero where
  genesis: "map_of blocks k = Some b \<Longrightarrow> bh_prev_hash b = zero \<Longrightarrow> reaches_zero blocks zero k 1"
| link: "map_of blocks k = Some b \<Longrightarrow> bh_prev_hash b \<noteq> zero \<Longrightarrow> reaches_zero blocks zero (bh_prev_hash b) n \<Longrightarrow>
    reaches_zero blocks zero k (Suc n)"

inductive_cases reaches_zeroE: "reaches_zero blocks zero k n"

lemma reaches_zero_unique:
  "reaches_zero blocks zero k n \<Longrightarrow> reaches_zero blocks zero k m \<Longrightarrow> n = m"
proof (induction arbitrary: m rule: reaches_zero.induct)
  case (genesis k b)
  from genesis(3) show ?case by (cases rule: reaches_zero.cases) (use genesis(1,2) in simp_all)
next
  case (link k b n)
  note IH = link.IH
  from link.prems show ?case
  proof (cases rule: reaches_zero.cases)
    case (link b' m')
    with \<open>map_of blocks k = Some b\<close> have "b' = b" by simp
    with link(1,4) IH show ?thesis by simp
  qed (use link.hyps(1,2) in simp)
qed

lemma reaches_zero_pos: "reaches_zero blocks zero k n \<Longrightarrow> 0 < n"
  by (induction rule: reaches_zero.induct) simp_all

lemma reaches_zero_block: "reaches_zero blocks zero k n \<Longrightarrow> \<exists>b. map_of blocks k = Some b"
  by (induction rule: reaches_zero.induct) auto

section \<open>Heights known so far\<close>

definition sound_heights :: "(bytes, header) std_map \<Rightarrow> bytes \<Rightarrow> (bytes, int) std_map \<Rightarrow> bool" where
  "sound_heights blocks zero hs \<longleftrightarrow> map_ok hs \<and>
     (\<forall>k v. map_of blocks k \<noteq> None \<longrightarrow> map_of hs k = Some v \<longrightarrow>
        v = 0 \<or> (\<exists>n. reaches_zero blocks zero k n \<and> v = int n))"

lemma sound_heights_index:
  assumes "sound_heights blocks zero hs" and "map_index 0 hs k = (h, hs')"
  shows "sound_heights blocks zero hs'" and "map_of hs' k = Some h"
    and "\<And>j v. map_of hs j = Some v \<Longrightarrow> map_of hs' j = Some v"
    and "map_of blocks k \<noteq> None \<Longrightarrow> h = 0 \<or> (\<exists>n. reaches_zero blocks zero k n \<and> h = int n)"
proof -
  have ok: "map_ok hs" using assms(1) by (simp add: sound_heights_def)
  then have hs': "hs' = (case map_of hs k of Some v \<Rightarrow> hs | None \<Rightarrow> map_assign k 0 hs)"
    and h: "h = (case map_of hs k of Some v \<Rightarrow> v | None \<Rightarrow> 0)"
    using assms(2) by (auto simp: map_index_def split: option.splits)
  have look: "map_of hs' j = (if j = k then Some h else map_of hs j)" for j
    using ok unfolding hs' h by (auto split: option.split)
  have "map_ok hs'" using ok unfolding hs' by (simp split: option.split)
  moreover show h_ok: "h = 0 \<or> (\<exists>n. reaches_zero blocks zero k n \<and> h = int n)" if "map_of blocks k \<noteq> None"
    using assms(1) that unfolding h sound_heights_def by (cases "map_of hs k") auto
  ultimately show "sound_heights blocks zero hs'"
    using assms(1) unfolding sound_heights_def look by (metis option.inject)
  show "map_of hs' k = Some h" by (simp add: look)
  show "map_of hs' j = Some v" if "map_of hs j = Some v" for j v
    using that unfolding look h by auto
qed

lemma map_ok_assign_heights: "map_ok hs \<Longrightarrow> map_ok (assign_heights es h hs)"
  by (induction es arbitrary: h hs) simp_all

lemma assign_heights_other:
  "map_ok hs \<Longrightarrow> k \<notin> set es \<Longrightarrow> map_of (assign_heights es h hs) k = map_of hs k"
  by (induction es arbitrary: h hs) simp_all

lemma assign_heights_in:
  "map_ok hs \<Longrightarrow> k \<in> set es \<Longrightarrow>
     \<exists>i < length es. es ! i = k \<and> map_of (assign_heights es h hs) k = Some (h + int (Suc i))"
proof (induction es arbitrary: h hs)
  case (Cons e es)
  let ?m = "map_assign e (h + 1) hs"
  have ok: "map_ok ?m" using Cons.prems(1) by simp
  show ?case
  proof (cases "k \<in> set es")
    case True
    from Cons.IH [OF ok True, of "h + 1"] obtain i where
      "i < length es" "es ! i = k" "map_of (assign_heights es (h + 1) ?m) k = Some (h + 1 + int (Suc i))"
      by blast
    then have "Suc i < length (e # es) \<and> (e # es) ! Suc i = k \<and>
        map_of (assign_heights (e # es) h hs) k = Some (h + int (Suc (Suc i)))" by simp
    then show ?thesis by blast
  next
    case False
    with Cons.prems assign_heights_other [OF ok False] have "0 < length (e # es) \<and> (e # es) ! 0 = k \<and>
        map_of (assign_heights (e # es) h hs) k = Some (h + int (Suc 0))" by simp
    then show ?thesis by blast
  qed
qed simp

text \<open>Heights assigned along a path are the right ones.\<close>

lemma assign_path:
  assumes "sound_heights blocks zero hs"
    and path: "\<And>i. i < length es \<Longrightarrow> reaches_zero blocks zero (es ! i) (Suc m + i)"
  shows "sound_heights blocks zero (assign_heights es (int m) hs)"
    and "e \<in> set es \<Longrightarrow> \<exists>n. reaches_zero blocks zero e n \<and> map_of (assign_heights es (int m) hs) e = Some (int n)"
    and "map_of hs k = Some v \<Longrightarrow> map_of blocks k \<noteq> None \<Longrightarrow> v \<noteq> 0 \<Longrightarrow> map_of (assign_heights es (int m) hs) k = Some v"
proof -
  have ok: "map_ok hs" using assms(1) by (simp add: sound_heights_def)
  have at: "\<exists>n. reaches_zero blocks zero e n \<and> map_of (assign_heights es (int m) hs) e = Some (int n)"
    if mem: "e \<in> set es" for e
  proof -
    obtain i where i: "i < length es" "es ! i = e"
        "map_of (assign_heights es (int m) hs) e = Some (int m + int (Suc i))"
      using assign_heights_in [OF ok mem] by blast
    with path [OF i(1)] have "reaches_zero blocks zero e (Suc m + i)" by simp
    moreover have "int m + int (Suc i) = int (Suc m + i)" by simp
    ultimately show ?thesis using i(3) by metis
  qed
  then show "e \<in> set es \<Longrightarrow> \<exists>n. reaches_zero blocks zero e n \<and> map_of (assign_heights es (int m) hs) e = Some (int n)" .
  have "v = 0 \<or> (\<exists>n. reaches_zero blocks zero k n \<and> v = int n)"
    if "map_of blocks k \<noteq> None" "map_of (assign_heights es (int m) hs) k = Some v" for k v
  proof (cases "k \<in> set es")
    case True
    with at that(2) show ?thesis by fastforce
  next
    case False
    with assign_heights_other [OF ok False] that assms(1) show ?thesis unfolding sound_heights_def by metis
  qed
  with map_ok_assign_heights [OF ok] show "sound_heights blocks zero (assign_heights es (int m) hs)"
    unfolding sound_heights_def by blast
  show "map_of (assign_heights es (int m) hs) k = Some v"
    if "map_of hs k = Some v" "map_of blocks k \<noteq> None" "v \<noteq> 0"
  proof (cases "k \<in> set es")
    case True
    from that assms(1) obtain n where "reaches_zero blocks zero k n" "v = int n"
      unfolding sound_heights_def by blast
    with at [OF True] reaches_zero_unique show ?thesis by metis
  next
    case False
    with assign_heights_other [OF ok False] that(1) show ?thesis by simp
  qed
qed

definition marks :: "(bytes, header) std_map \<Rightarrow> bytes \<Rightarrow> bytes list \<Rightarrow> (bytes, int) std_map \<Rightarrow> (bytes, int) std_map \<Rightarrow> bool" where
  "marks blocks zero list hs hs' \<longleftrightarrow> sound_heights blocks zero hs'
    \<and> (\<forall>e \<in> set list. \<exists>n. reaches_zero blocks zero e n \<and> map_of hs' e = Some (int n))
    \<and> (\<forall>j v. map_of hs j = Some v \<longrightarrow> map_of blocks j \<noteq> None \<longrightarrow> v \<noteq> 0 \<longrightarrow> map_of hs' j = Some v)"

lemma assign_path_marks:
  assumes "sound_heights blocks zero hs"
    and "\<And>i. i < length list \<Longrightarrow> reaches_zero blocks zero (rev list ! i) (Suc m + i)"
  shows "marks blocks zero list hs (assign_heights (rev list) (int m) hs)"
proof -
  have path: "reaches_zero blocks zero (rev list ! i) (Suc m + i)" if "i < length (rev list)" for i
    using assms(2) that by simp
  show ?thesis
    unfolding marks_def using assign_path [OF assms(1) path] by auto
qed

lemma marks_weaken:
  assumes "marks blocks zero list hs1 hs'" and "set list' \<subseteq> set list"
    and "\<And>j v. map_of hs j = Some v \<Longrightarrow> map_of hs1 j = Some v"
  shows "marks blocks zero list' hs hs'"
  using assms unfolding marks_def by blast

section \<open>One walk\<close>

lemma mark_walk_linked:
  assumes "reaches_zero blocks zero k n" and "map_of blocks k = Some cur" and "sound_heights blocks zero hs"
    and "\<And>i. i < length list \<Longrightarrow> reaches_zero blocks zero (rev list ! i) (n + i)"
  shows "\<exists>hs'. mark_walk blocks zero list cur hs = Some hs' \<and> marks blocks zero list hs hs'"
  using assms
proof (induction arbitrary: cur list hs rule: reaches_zero.induct)
  case (genesis k b)
  have "bh_prev_hash cur = zero" using genesis.hyps genesis.prems(1) by simp
  then have "mark_walk blocks zero list cur hs = Some (assign_heights (rev list) (int 0) hs)"
    by (simp add: mark_walk.simps [of blocks zero list cur hs])
  moreover have "marks blocks zero list hs (assign_heights (rev list) (int 0) hs)"
    using genesis.prems(3) by (intro assign_path_marks [OF genesis.prems(2)]) simp
  ultimately show ?case by blast
next
  case (link k b n)
  let ?p = "bh_prev_hash b"
  have cur: "cur = b" using link.hyps(1) link.prems(1) by simp
  obtain p where p: "map_of blocks ?p = Some p" using link.hyps(3) reaches_zero_block by blast
  obtain h hs1 where ix: "map_index 0 hs ?p = (h, hs1)" by (cases "map_index 0 hs ?p")
  note s1 = sound_heights_index [OF link.prems(2) ix]
  have h: "h = 0 \<or> h = int n"
    using s1(4) p link.hyps(3) reaches_zero_unique by blast
  show ?case
  proof (cases "h = 0")
    case False
    with h have n: "h = int n" "0 < n" by auto
    have "mark_walk blocks zero list cur hs = Some (assign_heights (rev list) (int n) hs1)"
      using link.hyps(2) p ix n by (simp add: mark_walk.simps [of blocks zero list b hs] cur)
    moreover have "marks blocks zero list hs1 (assign_heights (rev list) (int n) hs1)"
      using link.prems(3) by (intro assign_path_marks [OF s1(1)]) simp
    ultimately show ?thesis using marks_weaken s1(3) by blast
  next
    case True
    have eq: "mark_walk blocks zero list cur hs = mark_walk blocks zero (list @ [?p]) p hs1"
      using link.hyps(2) p ix True by (simp add: mark_walk.simps [of blocks zero list b hs] cur)
    have path: "reaches_zero blocks zero (rev (list @ [?p]) ! i) (n + i)" if "i < length (list @ [?p])" for i
      using link.hyps(3) link.prems(3) [of "i - 1"] that by (cases i) simp_all
    from link.IH [OF p s1(1) path] obtain hs' where
      "mark_walk blocks zero (list @ [?p]) p hs1 = Some hs'" "marks blocks zero (list @ [?p]) hs1 hs'"
      by blast
    then show ?thesis unfolding eq using marks_weaken [of blocks zero "list @ [?p]" hs1 hs' list hs] s1(3) by auto
  qed
qed

text \<open>A set of blocks whose links stay inside it and never reach the zero block.\<close>

definition trapped :: "(bytes, header) std_map \<Rightarrow> bytes \<Rightarrow> bytes set \<Rightarrow> bool" where
  "trapped blocks zero K \<longleftrightarrow>
     (\<forall>k \<in> K. \<exists>b. map_of blocks k = Some b \<and> bh_prev_hash b \<noteq> zero \<and> bh_prev_hash b \<in> K)"

lemma trapped_unreachable: "reaches_zero blocks zero k n \<Longrightarrow> trapped blocks zero K \<Longrightarrow> k \<notin> K"
  by (induction rule: reaches_zero.induct) (auto simp: trapped_def)

lemma mark_walk_trapped:
  assumes "sound_heights blocks zero hs" and "trapped blocks zero K"
    and "bh_prev_hash cur \<noteq> zero" and "bh_prev_hash cur \<in> K"
  shows "mark_walk blocks zero list cur hs = None"
proof (rule ccontr)
  let ?P = "\<lambda>blocks zero list cur hs r. sound_heights blocks zero hs \<longrightarrow> trapped blocks zero K \<longrightarrow>
    bh_prev_hash cur \<noteq> zero \<longrightarrow> bh_prev_hash cur \<in> K \<longrightarrow> False"
  assume "mark_walk blocks zero list cur hs \<noteq> None"
  then obtain r where r: "mark_walk blocks zero list cur hs = Some r" by blast
  have "?P blocks zero list cur hs r"
  proof (rule mark_walk.raw_induct [where P = ?P, OF _ r], intro impI)
    fix walk blocks zero list cur hs r
    assume IH: "\<And>blocks zero list cur hs r. walk blocks zero list cur hs = Some r \<Longrightarrow> ?P blocks zero list cur hs r"
      and body: "(if bh_prev_hash cur = zero then Some (assign_heights (rev list) 0 hs)
        else (case map_of blocks (bh_prev_hash cur) of
           None \<Rightarrow> Some (assign_all list (- 1) hs)
         | Some prev \<Rightarrow>
             let (h, hs) = map_index 0 hs (bh_prev_hash cur) in
             if h = - 1 then Some (assign_all list (- 1) hs)
             else if h > 0 then Some (assign_heights (rev list) h hs)
             else walk blocks zero (list @ [bh_prev_hash cur]) prev hs)) = Some r"
      and sound: "sound_heights blocks zero hs" and trap: "trapped blocks zero K"
      and cur: "bh_prev_hash cur \<noteq> zero" "bh_prev_hash cur \<in> K"
    obtain p where p: "map_of blocks (bh_prev_hash cur) = Some p" "bh_prev_hash p \<noteq> zero" "bh_prev_hash p \<in> K"
      using trap cur(2) unfolding trapped_def by blast
    obtain h hs1 where ix: "map_index 0 hs (bh_prev_hash cur) = (h, hs1)"
      by (cases "map_index 0 hs (bh_prev_hash cur)")
    note s1 = sound_heights_index [OF sound ix]
    have "h = 0" using s1(4) p(1) trapped_unreachable [OF _ trap] cur(2) by blast
    then have "walk blocks zero (list @ [bh_prev_hash cur]) p hs1 = Some r"
      using body cur(1) p(1) ix by simp
    from IH [OF this] s1(1) trap p(2,3) show False by blast
  qed
  with assms show False by blast
qed

section \<open>All blocks\<close>

lemma mark_each_linked:
  assumes "\<And>k b. (k, b) \<in> set bs \<Longrightarrow> map_of blocks k = Some b"
    and "\<forall>k \<in> fst ` set bs. \<exists>n. reaches_zero blocks zero k n" and "sound_heights blocks zero hs"
  shows "\<exists>hs'. mark_each blocks zero bs hs = Some hs' \<and> marks blocks zero (map fst bs) hs hs'"
  using assms
proof (induction bs arbitrary: hs)
  case (Cons kb bs)
  obtain k b where kb: "kb = (k, b)" by (cases kb)
  have b: "map_of blocks k = Some b" using Cons.prems(1) kb by simp
  obtain n where n: "reaches_zero blocks zero k n" using Cons.prems(2) kb by auto
  obtain h hs1 where ix: "map_index 0 hs k = (h, hs1)" by (cases "map_index 0 hs k")
  note s1 = sound_heights_index [OF Cons.prems(3) ix]
  have h: "h \<noteq> - 1" using s1(4) b by fastforce
  obtain hs2 where hs2: "mark_walk blocks zero [k] b hs1 = Some hs2" "marks blocks zero [k] hs1 hs2"
    using mark_walk_linked [OF n b s1(1), of "[k]"] n by auto
  have "\<exists>hs'. mark_each blocks zero bs hs2 = Some hs' \<and> marks blocks zero (map fst bs) hs2 hs'"
    using Cons.prems(1,2) hs2(2) by (intro Cons.IH) (simp_all add: marks_def)
  then obtain hs' where hs': "mark_each blocks zero bs hs2 = Some hs'" "marks blocks zero (map fst bs) hs2 hs'"
    by blast
  have "map_of hs' k = Some (int n)"
    using hs2(2) hs'(2) reaches_zero_unique [OF n] reaches_zero_pos [OF n] b unfolding marks_def by fastforce
  then have "marks blocks zero (map fst (kb # bs)) hs hs'"
    using hs2(2) hs'(2) n s1(3) unfolding marks_def kb by auto
  moreover have "mark_each blocks zero (kb # bs) hs = Some hs'"
    using hs2(1) hs'(1) h ix by (simp add: kb)
  ultimately show ?case by blast
qed (simp add: marks_def)

lemma mark_each_trapped:
  assumes "\<And>k b. (k, b) \<in> set bs \<Longrightarrow> map_of blocks k = Some b"
    and "\<forall>k \<in> fst ` set bs - K. \<exists>n. reaches_zero blocks zero k n"
    and "sound_heights blocks zero hs" and "trapped blocks zero K" and "\<exists>k \<in> K. k \<in> fst ` set bs"
  shows "mark_each blocks zero bs hs = None"
  using assms
proof (induction bs arbitrary: hs)
  case (Cons kb bs)
  obtain k b where kb: "kb = (k, b)" by (cases kb)
  have b: "map_of blocks k = Some b" using Cons.prems(1) kb by simp
  obtain h hs1 where ix: "map_index 0 hs k = (h, hs1)" by (cases "map_index 0 hs k")
  note s1 = sound_heights_index [OF Cons.prems(3) ix]
  have h: "h \<noteq> - 1" using s1(4) b by fastforce
  show ?case
  proof (cases "k \<in> K")
    case True
    then have "bh_prev_hash b \<noteq> zero" "bh_prev_hash b \<in> K"
      using b Cons.prems(4) unfolding trapped_def by fastforce+
    with mark_walk_trapped [OF s1(1) Cons.prems(4)] h ix show ?thesis by (simp add: kb)
  next
    case False
    then obtain n where n: "reaches_zero blocks zero k n" using Cons.prems(2) kb by auto
    obtain hs2 where hs2: "mark_walk blocks zero [k] b hs1 = Some hs2" "marks blocks zero [k] hs1 hs2"
      using mark_walk_linked [OF n b s1(1), of "[k]"] n by auto
    have "mark_each blocks zero bs hs2 = None"
      using Cons.prems False hs2(2) kb by (intro Cons.IH) (auto simp: marks_def)
    with hs2(1) h ix show ?thesis by (simp add: kb)
  qed
qed simp

lemma assign_all_lookup:
  "map_ok hs \<Longrightarrow> map_ok (assign_all es v hs) \<and>
     map_of (assign_all es v hs) = (\<lambda>k. if k \<in> set es then Some v else map_of hs k)"
  unfolding assign_all_def
  using std_map.ok_fold_same [of hs v es] std_map.find_fold_same [of hs v es] by simp

lemma start_sound:
  assumes "map_ok hs"
  shows "sound_heights blocks zero (assign_all (map fst blocks) 0 hs)"
proof -
  have "k \<in> set (map fst blocks)" if "map_of blocks k \<noteq> None" for k
    using that by (force dest: map_of_SomeD)
  with assign_all_lookup [OF assms, of "map fst blocks" 0] show ?thesis
    by (simp add: sound_heights_def)
qed

lemma map_ok_entries: "map_ok m \<Longrightarrow> (k, v) \<in> set m \<Longrightarrow> map_of m k = Some v"
  by (metis map_ok_def map_of_is_SomeI strict_sorted_iff)

section \<open>Properties\<close>

text \<open>C13: when every block is linked to the zero block, \<open>mark_blocks\<close> comes back and gives every block
  its distance from it, whatever heights were there before.\<close>

theorem mark_blocks_heights:
  assumes "map_ok (bc_blocks ch)" and "map_ok (bc_heights ch)"
    and "\<forall>k \<in> fst ` set (bc_blocks ch). \<exists>n. reaches_zero (bc_blocks ch) (bc_zero_block ch) k n"
  shows "\<exists>hs. mark_blocks ch = Some (ch\<lparr>bc_heights := hs\<rparr>)
    \<and> (\<forall>k n. reaches_zero (bc_blocks ch) (bc_zero_block ch) k n \<longrightarrow> map_of hs k = Some (int n))"
proof -
  let ?bs = "bc_blocks ch" and ?z = "bc_zero_block ch"
  obtain hs where hs: "mark_each ?bs ?z ?bs (assign_all (map fst ?bs) 0 (bc_heights ch)) = Some hs"
      "marks ?bs ?z (map fst ?bs) (assign_all (map fst ?bs) 0 (bc_heights ch)) hs"
    using mark_each_linked [of ?bs ?bs ?z, OF map_ok_entries [OF assms(1)] assms(3) start_sound [OF assms(2)]]
    by blast
  have "map_of hs k = Some (int n)" if "reaches_zero ?bs ?z k n" for k n
  proof -
    from that obtain b where "map_of ?bs k = Some b" using reaches_zero_block by blast
    then have "k \<in> set (map fst ?bs)" by (force dest: map_of_SomeD)
    then obtain m where "reaches_zero ?bs ?z k m" "map_of hs k = Some (int m)"
      using hs(2) unfolding marks_def by blast
    with reaches_zero_unique [OF that] show ?thesis by simp
  qed
  with hs(1) show ?thesis by (auto simp: mark_blocks_def Let_def)
qed

text \<open>C14: when some blocks only link to one another, in a ring, and all others are linked to the zero
  block, \<open>mark_blocks\<close> never comes back: it does not notice that it has seen a block before.\<close>

theorem mark_blocks_ring:
  assumes "map_ok (bc_blocks ch)" and "map_ok (bc_heights ch)" and "trapped (bc_blocks ch) (bc_zero_block ch) K"
    and "K \<noteq> {}"
    and "\<forall>k \<in> fst ` set (bc_blocks ch) - K. \<exists>n. reaches_zero (bc_blocks ch) (bc_zero_block ch) k n"
  shows "mark_blocks ch = None"
proof -
  let ?bs = "bc_blocks ch"
  obtain k where k: "k \<in> K" using assms(4) by blast
  then have "k \<in> fst ` set ?bs"
    using assms(3) unfolding trapped_def by (force dest: map_of_SomeD)
  with k have "\<exists>k \<in> K. k \<in> fst ` set ?bs" by blast
  with mark_each_trapped [of ?bs ?bs K "bc_zero_block ch", OF map_ok_entries [OF assms(1)] assms(5) start_sound [OF assms(2)] assms(3)]
  show ?thesis by (simp add: mark_blocks_def)
qed

text \<open>A block without a link to the zero block can leave others without a height: once the block of
  an earlier walk is met again with the mark -1, the loop over all blocks ends. Here the block \<open>k3\<close>,
  which follows the zero block, keeps the height 0.\<close>

lemma mark_blocks_stops_early:
  assumes "bc_blocks ch = [(k1, b1), (k2, b2), (k3, b3)]" and "k1 < k2" and "k2 < k3" and "map_ok (bc_heights ch)"
    and "bh_prev_hash b1 = k2" and "k2 \<noteq> bc_zero_block ch"
    and "bh_prev_hash b2 \<notin> {k1, k2, k3, bc_zero_block ch}" and "bh_prev_hash b3 = bc_zero_block ch"
  shows "\<exists>hs. mark_blocks ch = Some (ch\<lparr>bc_heights := hs\<rparr>)
    \<and> map_of hs k1 = Some (- 1) \<and> map_of hs k2 = Some (- 1) \<and> map_of hs k3 = Some 0
    \<and> reaches_zero (bc_blocks ch) (bc_zero_block ch) k3 1"
proof -
  let ?bs = "[(k1, b1), (k2, b2), (k3, b3)]" and ?z = "bc_zero_block ch"
  let ?hs = "assign_all [k1, k2, k3] 0 (bc_heights ch)" and ?p = "bh_prev_hash b2"
  have ne: "k1 \<noteq> k2" "k1 \<noteq> k3" "k2 \<noteq> k3" using assms(2,3) by auto
  have look: "map_of ?hs k1 = Some 0" "map_of ?hs k2 = Some 0" "map_of ?hs k3 = Some 0" and ok: "map_ok ?hs"
    using assign_all_lookup [OF assms(4), of "[k1, k2, k3]" 0] by simp_all
  let ?m = "assign_all [k1, k2] (- 1) ?hs"
  have m: "map_of ?m k1 = Some (- 1)" "map_of ?m k2 = Some (- 1)" "map_of ?m k3 = Some 0"
    using assign_all_lookup [OF ok, of "[k1, k2]" "- 1"] look(3) ne by auto
  have ix: "map_index 0 ?hs k1 = (0, ?hs)" "map_index 0 ?hs k2 = (0, ?hs)"
    using look by (simp_all add: map_index_def)
  have ix2: "map_index 0 ?m k2 = (- 1, ?m)" using m by (simp add: map_index_def)
  have b2: "map_of ?bs k2 = Some b2" and orphan: "map_of ?bs ?p = None" "?p \<noteq> ?z"
    using ne assms(7) by auto
  have w2: "mark_walk ?bs ?z [k1, k2] b2 ?hs = Some ?m"
    using orphan by (simp add: mark_walk.simps [of ?bs ?z "[k1, k2]" b2 ?hs])
  have w1: "mark_walk ?bs ?z [k1] b1 ?hs = Some ?m"
    using b2 ix(2) w2 assms(5,6) by (simp add: mark_walk.simps [of ?bs ?z "[k1]" b1 ?hs])
  have "mark_each ?bs ?z ?bs ?hs = Some ?m" using ix(1) ix2 w1 by simp
  moreover have "reaches_zero ?bs ?z k3 1"
    using ne assms(8) by (intro reaches_zero.genesis [of _ _ b3]) auto
  ultimately show ?thesis using m assms(1) by (auto simp: mark_blocks_def Let_def)
qed

definition sample_block :: "bytes \<Rightarrow> header" where
  "sample_block prev = header_new\<lparr>bh_prev_hash := prev\<rparr>"

lemma mark_blocks_heights_witness:
  "\<exists>hs. mark_blocks (chain_new\<lparr>bc_blocks := [([1], sample_block (replicate 32 0)), ([2], sample_block [1])]\<rparr>)
      = Some (chain_new\<lparr>bc_blocks := [([1], sample_block (replicate 32 0)), ([2], sample_block [1])], bc_heights := hs\<rparr>)
    \<and> map_of hs [2] = Some 2"
proof -
  let ?bs = "[([1], sample_block (replicate 32 0)), ([2], sample_block [1])]"
  let ?ch = "chain_new\<lparr>bc_blocks := ?bs\<rparr>"
  have z: "bc_zero_block ?ch = replicate 32 0" by (simp add: chain_new_def bytes_of_size_def)
  have 1: "reaches_zero ?bs (replicate 32 0) [1] 1"
    by (rule reaches_zero.genesis [of _ _ "sample_block (replicate 32 0)"]) (simp_all add: sample_block_def)
  have 2: "reaches_zero ?bs (replicate 32 0) [2] (Suc 1)"
    by (rule reaches_zero.link [of _ _ "sample_block [1]"])
      (use 1 in \<open>simp_all add: sample_block_def numeral_eq_Suc\<close>)
  have "map_ok (bc_blocks ?ch)" "map_ok (bc_heights ?ch)"
    by (simp_all add: map_ok_def chain_new_def)
  then show ?thesis
    using mark_blocks_heights [of ?ch] 1 2 z by fastforce
qed

lemma mark_blocks_ring_witness:
  "mark_blocks (chain_new\<lparr>bc_blocks := [([1], sample_block [1])]\<rparr>) = None"
proof -
  let ?ch = "chain_new\<lparr>bc_blocks := [([1], sample_block [1])]\<rparr>"
  have "trapped (bc_blocks ?ch) (bc_zero_block ?ch) {[1]}"
    by (simp add: trapped_def sample_block_def chain_new_def bytes_of_size_def numeral_eq_Suc)
  moreover have "map_ok (bc_blocks ?ch)" "map_ok (bc_heights ?ch)"
    by (simp_all add: map_ok_def chain_new_def)
  ultimately show ?thesis by (intro mark_blocks_ring [of ?ch "{[1]}"]) simp_all
qed

end
