(* ===== verification/Bloom.thy ===== *)
theory Bloom
  imports Curve "HOL-Library.Signed_Division"
begin

text \<open>
  \<open>inc/bloom_filter.h\<close>: the Bloom filter the nodes exchange to find out which transactions the
  other side lacks, with the keyed short hash of \<open>inc/curve.h\<close> it is built on, and the
  serialisation of its bits into the \<open>BloomSet\<close> message.
\<close>

section \<open>The short hash\<close>

text \<open>\<open>crypto_shorthash\<close> reads 16 bytes of key; keys that come from the network have any size.\<close>

definition short_hash :: "sodium \<Rightarrow> bytes \<Rightarrow> bytes \<Rightarrow> bytes result" where
  "short_hash S key b =
     bindR (assertR (SHORTHASH_KEYBYTES \<le> length key) OutOfBounds) (\<lambda>_. Inr (shorthash S key b))"

text \<open>A little-endian load of eight bytes, the multiplication wrapping at 64 bits.\<close>

definition to_uint :: "bytes \<Rightarrow> int \<Rightarrow> u64 result" where
  "to_uint h m = bindR (assertR (8 \<le> length h) OutOfBounds) (\<lambda>_.
     let val = of_nat (value_of 8 (take 8 h)) :: u64;
         val = drop_bit 32 val;
         val = val * of_int m
     in Inr (drop_bit 32 val))"

section \<open>The filter\<close>

record bloom =
  bl_P :: int
  bl_hits :: "bool list"
  bl_key :: bytes
  bl_n_on :: int

text \<open>\<open>Bloom(int p)\<close>; the key the member's constructor draws is an argument.\<close>

definition bloom_new :: "bytes \<Rightarrow> int \<Rightarrow> bloom result" where
  "bloom_new key p = bindR (assertR (0 \<le> p) (Thrown ''length_error'')) (\<lambda>_.
     Inr \<lparr>bl_P = p, bl_hits = replicate (nat p) False, bl_key = key, bl_n_on = 0\<rparr>)"

text \<open>
  \<open>Bloom(Bytes data, uint64_t p, ShortHashKey key_)\<close>: the loop over \<open>k\<close> remaining bits with its
  counters \<open>n\<close> and \<open>idx\<close>. \<open>P\<close> is \<open>p\<close> narrowed to 32 bits, and \<open>n_on\<close> is not computed.
\<close>

fun load_hits :: "bytes \<Rightarrow> nat \<Rightarrow> nat \<Rightarrow> nat \<Rightarrow> bool list result" where
  "load_hits data 0 n idx = Inr []"
| "load_hits data (Suc k) n idx =
     bindR (vec_get data idx) (\<lambda>d.
       let hit = (d AND push_bit (7 - n) 1 \<noteq> 0); n' = n + 1 in
       bindR (if n' = 8 then load_hits data k 0 (idx + 1) else load_hits data k n' idx)
         (\<lambda>hits. Inr (hit # hits)))"

definition bloom_load :: "bytes \<Rightarrow> u64 \<Rightarrow> bytes \<Rightarrow> bloom result" where
  "bloom_load data p key =
     bindR (assertR (unat p < 2 ^ 63) (Thrown ''length_error'')) (\<lambda>_.
       bindR (load_hits data (unat p) 0 0) (\<lambda>hits.
         Inr \<lparr>bl_P = sint (ucast p :: u32), bl_hits = hits, bl_key = key, bl_n_on = 0\<rparr>))"

definition bloom_reset :: "bloom \<Rightarrow> bloom" where
  "bloom_reset bl = bl\<lparr>bl_hits := map (\<lambda>_. False) (bl_hits bl), bl_n_on := 0\<rparr>"

definition bloom_hash :: "sodium \<Rightarrow> bloom \<Rightarrow> bytes \<Rightarrow> u64 result" where
  "bloom_hash S bl b = bindR (short_hash S (bl_key bl) b) (\<lambda>h. to_uint h (bl_P bl))"

definition bloom_has :: "sodium \<Rightarrow> bloom \<Rightarrow> bytes \<Rightarrow> bool result" where
  "bloom_has S bl b =
     (if bl_P bl = 0 then Inr False
      else bindR (bloom_hash S bl b) (\<lambda>val. vec_get (bl_hits bl) (unat val)))"

text \<open>\<open>bool set(Bytes &)\<close> has no \<open>return\<close>.\<close>

definition bloom_set :: "sodium \<Rightarrow> bloom \<Rightarrow> bytes \<Rightarrow> (bool option \<times> bloom) result" where
  "bloom_set S bl b =
     bindR (bloom_hash S bl b) (\<lambda>val. bindR (vec_get (bl_hits bl) (unat val)) (\<lambda>hit.
       let bl = (if \<not> hit then bl\<lparr>bl_n_on := bl_n_on bl + 1\<rparr> else bl) in
       Inr (None, bl\<lparr>bl_hits := (bl_hits bl)[unat val := True]\<rparr>)))"

definition bloom_has_set :: "sodium \<Rightarrow> bloom \<Rightarrow> bytes \<Rightarrow> (bool \<times> bloom) result" where
  "bloom_has_set S bl b =
     bindR (bloom_hash S bl b) (\<lambda>val. bindR (vec_get (bl_hits bl) (unat val)) (\<lambda>hit.
       let bl = bl\<lparr>bl_hits := (bl_hits bl)[unat val := True]\<rparr>;
           bl = (if \<not> hit then bl\<lparr>bl_n_on := bl_n_on bl + 1\<rparr> else bl) in
       Inr (hit, bl)))"

text \<open>The loop of \<open>bytes()\<close> and its counters \<open>i\<close> and \<open>n\<close>.\<close>

fun store_hits :: "bool list \<Rightarrow> nat \<Rightarrow> nat \<Rightarrow> bytes \<Rightarrow> (nat \<times> bytes) result" where
  "store_hits [] i n b = Inr (n, b)"
| "store_hits (hit # hits) i n b =
     bindR (vec_get b i) (\<lambda>u. bindR (vec_set b i (shift_in u hit)) (\<lambda>b.
       let n' = n + 1 in
       if n' = 8 then store_hits hits (i + 1) 0 b else store_hits hits i n' b))"

definition bloom_bytes :: "bloom \<Rightarrow> bytes result" where
  "bloom_bytes bl =
     bindR (assertR (bl_P bl + 7 < 2 ^ 31) SignedOverflow) (\<lambda>_.
     let size = (bl_P bl + 7) sdiv 8 in
     bindR (assertR (0 \<le> size) (Thrown ''length_error'')) (\<lambda>_.
     bindR (store_hits (bl_hits bl) 0 0 (bytes_of_size (nat size))) (\<lambda>(n, b).
     bindR (assertR (b \<noteq> []) OutOfBounds) (\<lambda>_.
     Inr (b[length b - 1 := push_bit (8 - n) (b ! (length b - 1))])))))"

section \<open>Where an element goes\<close>

definition bloom_slot :: "sodium \<Rightarrow> bytes \<Rightarrow> int \<Rightarrow> bytes \<Rightarrow> nat" where
  "bloom_slot S key P b = (value_of 8 (take 8 (shorthash S key b)) div 2 ^ 32 * nat P) div 2 ^ 32"

definition bloom_ok :: "bloom \<Rightarrow> bool" where
  "bloom_ok bl \<longleftrightarrow> 0 < bl_P bl \<and> bl_P bl < 2 ^ 31 \<and> length (bl_hits bl) = nat (bl_P bl)
     \<and> SHORTHASH_KEYBYTES \<le> length (bl_key bl)"

lemma value_of_8_bytes: "value_of 8 (take 8 h) < 2 ^ 64"
proof -
  have "value_of 8 (take 8 h) < 2 ^ (8 * length (take 8 h))" by (rule value_of_bytes_less)
  also have "\<dots> \<le> 2 ^ 64" by (rule power_increasing) simp_all
  finally show ?thesis .
qed

lemma scaled_less:
  fixes v m :: nat
  assumes "v < 2 ^ 64" and "0 < m"
  shows "v div 2 ^ 32 * m div 2 ^ 32 < m"
proof -
  have "v div 2 ^ 32 < 2 ^ 32" using assms(1) by (simp add: div_less_iff_less_mult)
  with assms(2) have "v div 2 ^ 32 * m < 2 ^ 32 * m" by simp
  then show ?thesis by (simp add: div_less_iff_less_mult mult.commute)
qed

lemma unat_drop_bit_32: "unat (drop_bit 32 w) = unat w div 2 ^ 32" for w :: u64
  by (subst unat_drop_bit_eq) (rule drop_bit_eq_div)

lemma unat_scaled:
  fixes x :: u64 and m :: int
  assumes "unat x < 2 ^ 32" and "0 \<le> m" and "m < 2 ^ 31"
  shows "unat (x * of_int m) = unat x * nat m"
proof -
  obtain k where k: "m = int k" using assms(2) nonneg_int_cases by blast
  with assms(3) have "k < 2 ^ 31" by simp
  then have "unat (of_nat k :: u64) = k" by (simp add: unat_of_nat take_bit_nat_eq_self)
  moreover have "unat x * k < 2 ^ 32 * 2 ^ 31"
    using assms(1) \<open>k < 2 ^ 31\<close> by (intro mult_strict_mono) simp_all
  ultimately show ?thesis unfolding k of_int_of_nat_eq by (simp add: unat_word_ariths)
qed

lemma to_uint_eq:
  assumes "8 \<le> length h" and "0 \<le> m" and "m < 2 ^ 31"
  shows "\<exists>w. to_uint h m = Inr w \<and> unat w = value_of 8 (take 8 h) div 2 ^ 32 * nat m div 2 ^ 32"
proof -
  let ?v = "of_nat (value_of 8 (take 8 h)) :: u64"
  have v: "unat ?v = value_of 8 (take 8 h)"
    using value_of_8_bytes [of h] by (simp add: unat_of_nat take_bit_nat_eq_self)
  have "unat (drop_bit 32 ?v) < 2 ^ 32"
    unfolding unat_drop_bit_32 v using value_of_8_bytes [of h] by (simp add: div_less_iff_less_mult)
  then have "unat (drop_bit 32 ?v * of_int m) = value_of 8 (take 8 h) div 2 ^ 32 * nat m"
    using unat_scaled assms(2,3) unat_drop_bit_32 v by metis
  then show ?thesis using assms(1) unat_drop_bit_32 by (simp add: to_uint_def Let_def)
qed

lemma bloom_slot_less: "0 < P \<Longrightarrow> bloom_slot S key P b < nat P"
  unfolding bloom_slot_def by (rule scaled_less [OF value_of_8_bytes]) simp

lemma bloom_hash_eq:
  assumes "hash_lengths_ok S" and "bloom_ok bl"
  shows "\<exists>w. bloom_hash S bl b = Inr w \<and> unat w = bloom_slot S (bl_key bl) (bl_P bl) b"
proof -
  have "8 \<le> length (shorthash S (bl_key bl) b)"
    using assms(1) unfolding hash_lengths_ok_def by simp
  moreover from assms(2) have "0 \<le> bl_P bl" "bl_P bl < 2 ^ 31" by (simp_all add: bloom_ok_def)
  moreover from assms(2) have "short_hash S (bl_key bl) b = Inr (shorthash S (bl_key bl) b)"
    by (simp add: short_hash_def bloom_ok_def)
  ultimately show ?thesis using to_uint_eq by (simp add: bloom_hash_def bloom_slot_def)
qed

text \<open>What \<open>set\<close> does to a well-formed filter.\<close>

definition bloom_mark :: "nat \<Rightarrow> bloom \<Rightarrow> bloom" where
  "bloom_mark i bl = bl\<lparr>bl_hits := (bl_hits bl)[i := True],
     bl_n_on := bl_n_on bl + (if bl_hits bl ! i then 0 else 1)\<rparr>"

lemma bloom_ops_eq:
  fixes b :: bytes
  assumes "hash_lengths_ok S" and "bloom_ok bl"
  defines "i \<equiv> bloom_slot S (bl_key bl) (bl_P bl) b"
  shows "bloom_has S bl b = Inr (bl_hits bl ! i)"
    and "bloom_set S bl b = Inr (None, bloom_mark i bl)"
    and "bloom_has_set S bl b = Inr (bl_hits bl ! i, bloom_mark i bl)"
proof -
  obtain w where w: "bloom_hash S bl b = Inr w" "unat w = i"
    using bloom_hash_eq [OF assms(1,2)] i_def by blast
  have i: "i < length (bl_hits bl)"
    using assms(2) bloom_slot_less unfolding i_def bloom_ok_def by simp
  from assms(2) have "bl_P bl \<noteq> 0" by (simp add: bloom_ok_def)
  with w i show "bloom_has S bl b = Inr (bl_hits bl ! i)" by (simp add: bloom_has_def)
  from w i show "bloom_set S bl b = Inr (None, bloom_mark i bl)"
    by (simp add: bloom_set_def bloom_mark_def Let_def)
  from w i show "bloom_has_set S bl b = Inr (bl_hits bl ! i, bloom_mark i bl)"
    by (simp add: bloom_has_set_def bloom_mark_def Let_def)
qed

lemma bloom_mark_fields [simp]:
  "bl_P (bloom_mark i bl) = bl_P bl" "bl_key (bloom_mark i bl) = bl_key bl"
  "bl_hits (bloom_mark i bl) = (bl_hits bl)[i := True]"
  by (simp_all add: bloom_mark_def)

lemma bloom_ok_mark [simp]: "bloom_ok (bloom_mark i bl) \<longleftrightarrow> bloom_ok bl"
  by (simp add: bloom_ok_def)

lemma count_True_update:
  assumes "i < length hs"
  shows "int (count_list (hs[i := True]) True) = int (count_list hs True) + (if hs ! i then 0 else 1)"
  using assms
proof (induction hs arbitrary: i)
  case (Cons h hs)
  show ?case
  proof (cases i)
    case (Suc k)
    with Cons.prems have "k < length hs" by simp
    from Cons.IH [OF this] Suc show ?thesis by (cases h) simp_all
  qed (use Cons.prems in auto)
qed simp

section \<open>The filter as a set that may say too much\<close>

text \<open>What the users of a filter rely on: what was put in is a member, and stays one.\<close>

locale membership_filter =
  fixes put :: "'a \<Rightarrow> 'f \<Rightarrow> 'f"
    and member :: "'f \<Rightarrow> 'a \<Rightarrow> bool"
    and ok :: "'f \<Rightarrow> bool"
  assumes ok_put: "ok f \<Longrightarrow> ok (put x f)"
    and member_put: "ok f \<Longrightarrow> member (put x f) x"
    and member_mono: "ok f \<Longrightarrow> member f y \<Longrightarrow> member (put x f) y"
begin

lemma ok_fold: "ok f \<Longrightarrow> ok (fold put xs f)"
  by (induction xs arbitrary: f) (simp_all add: ok_put)

lemma member_fold_mono: "ok f \<Longrightarrow> member f y \<Longrightarrow> member (fold put xs f) y"
  by (induction xs arbitrary: f) (simp_all add: ok_put member_mono)

lemma member_fold: "ok f \<Longrightarrow> x \<in> set xs \<Longrightarrow> member (fold put xs f) x"
  by (induction xs arbitrary: f) (auto simp: ok_put member_put member_fold_mono)

text \<open>An element every one of several holders has put into its filter passes all the filters.\<close>

lemma passes_all:
  assumes "\<forall>f \<in> set fs. \<exists>f0 xs. ok f0 \<and> f = fold put xs f0 \<and> x \<in> set xs"
  shows "\<forall>f \<in> set fs. member f x"
proof
  fix f assume "f \<in> set fs"
  with assms obtain f0 xs where "ok f0" "f = fold put xs f0" "x \<in> set xs" by blast
  then show "member f x" using member_fold by simp
qed

lemma kept_by_all:
  assumes "\<forall>f \<in> set fs. \<exists>f0 xs. ok f0 \<and> f = fold put xs f0 \<and> T \<subseteq> set xs"
  shows "T \<inter> set local \<subseteq> set (filter (\<lambda>x. \<forall>f \<in> set fs. member f x) local)"
proof
  fix x assume x: "x \<in> T \<inter> set local"
  with assms have "\<forall>f \<in> set fs. \<exists>f0 xs. ok f0 \<and> f = fold put xs f0 \<and> x \<in> set xs" by blast
  from passes_all [OF this] x show "x \<in> set (filter (\<lambda>x. \<forall>f \<in> set fs. member f x) local)" by simp
qed

end

definition bloom_put :: "sodium \<Rightarrow> bytes \<Rightarrow> bloom \<Rightarrow> bloom" where
  "bloom_put S b bl = bloom_mark (bloom_slot S (bl_key bl) (bl_P bl) b) bl"

definition bloom_contains :: "sodium \<Rightarrow> bloom \<Rightarrow> bytes \<Rightarrow> bool" where
  "bloom_contains S bl b = bl_hits bl ! bloom_slot S (bl_key bl) (bl_P bl) b"

interpretation bloom_set: membership_filter "bloom_put S" "bloom_contains S" bloom_ok for S
proof
  fix f :: bloom and x y :: bytes
  assume ok: "bloom_ok f"
  then have "bloom_slot S (bl_key f) (bl_P f) x < length (bl_hits f)"
    using bloom_slot_less by (simp add: bloom_ok_def)
  then show "bloom_contains S (bloom_put S x f) x"
    by (simp add: bloom_contains_def bloom_put_def)
  show "bloom_ok (bloom_put S x f)" using ok by (simp add: bloom_put_def)
  show "bloom_contains S (bloom_put S x f) y" if "bloom_contains S f y"
    using that by (auto simp: bloom_contains_def bloom_put_def nth_list_update)
      (metis list_update_beyond not_le nth_list_update)
qed

lemma bloom_set_put: "hash_lengths_ok S \<Longrightarrow> bloom_ok bl \<Longrightarrow> bloom_set S bl b = Inr (None, bloom_put S b bl)"
  and bloom_has_contains: "hash_lengths_ok S \<Longrightarrow> bloom_ok bl \<Longrightarrow> bloom_has S bl b = Inr (bloom_contains S bl b)"
  by (simp_all add: bloom_ops_eq bloom_put_def bloom_contains_def)

section \<open>A run of the filter\<close>

definition bloom_add_all :: "sodium \<Rightarrow> bytes list \<Rightarrow> bloom \<Rightarrow> bloom result" where
  "bloom_add_all S bs bl = foldR (\<lambda>b bl. bindR (bloom_set S bl b) (\<lambda>(_, bl). Inr bl)) bs bl"

lemma bloom_add_all_ok:
  assumes "hash_lengths_ok S" and "bloom_ok bl" and "bl_n_on bl = int (count_list (bl_hits bl) True)"
  shows "\<exists>bl'. bloom_add_all S bs bl = Inr bl' \<and> bloom_ok bl'
    \<and> bl_P bl' = bl_P bl \<and> bl_key bl' = bl_key bl
    \<and> bl_n_on bl' = int (count_list (bl_hits bl') True)
    \<and> (\<forall>i < nat (bl_P bl). bl_hits bl' ! i \<longleftrightarrow>
         bl_hits bl ! i \<or> (\<exists>b \<in> set bs. bloom_slot S (bl_key bl) (bl_P bl) b = i))"
  using assms(2,3)
proof (induction bs arbitrary: bl)
  case (Cons b bs)
  let ?i = "bloom_slot S (bl_key bl) (bl_P bl) b" and ?m = "bloom_mark (bloom_slot S (bl_key bl) (bl_P bl) b) bl"
  have len: "length (bl_hits bl) = nat (bl_P bl)" and i: "?i < nat (bl_P bl)"
    using Cons.prems(1) bloom_slot_less by (simp_all add: bloom_ok_def)
  have "bloom_ok ?m" using Cons.prems(1) by simp
  moreover have "bl_n_on ?m = int (count_list (bl_hits ?m) True)"
    using Cons.prems(2) count_True_update [of ?i "bl_hits bl"] len i by (simp add: bloom_mark_def)
  ultimately obtain bl' where bl': "bloom_add_all S bs ?m = Inr bl'" "bloom_ok bl'"
      "bl_P bl' = bl_P ?m" "bl_key bl' = bl_key ?m" "bl_n_on bl' = int (count_list (bl_hits bl') True)"
      "\<forall>i < nat (bl_P ?m). bl_hits bl' ! i \<longleftrightarrow>
         bl_hits ?m ! i \<or> (\<exists>b \<in> set bs. bloom_slot S (bl_key ?m) (bl_P ?m) b = i)"
    using Cons.IH by blast
  moreover have "bloom_add_all S (b # bs) bl = bloom_add_all S bs ?m"
    using bloom_ops_eq(2) [OF assms(1) Cons.prems(1)] by (simp add: bloom_add_all_def)
  ultimately show ?case using len i by (auto simp: nth_list_update)
qed (simp add: bloom_add_all_def)

lemma bloom_filled:
  assumes "hash_lengths_ok S" and "0 < P" and "P < 2 ^ 31" and "SHORTHASH_KEYBYTES \<le> length key"
  shows "\<exists>bl. bindR (bloom_new key P) (bloom_add_all S bs) = Inr bl
    \<and> (\<forall>x. bloom_has S bl x = Inr (\<exists>b \<in> set bs. bloom_slot S key P b = bloom_slot S key P x))
    \<and> bl_n_on bl = int (count_list (bl_hits bl) True) \<and> length (bl_hits bl) = nat P
    \<and> bl_P bl = P \<and> bl_key bl = key \<and> bloom_ok bl"
proof -
  let ?bl = "\<lparr>bl_P = P, bl_hits = replicate (nat P) False, bl_key = key, bl_n_on = 0\<rparr>"
  have "bloom_ok ?bl" and "bl_n_on ?bl = int (count_list (bl_hits ?bl) True)"
    using assms(2-4) by (simp_all add: bloom_ok_def count_list_0_iff)
  from bloom_add_all_ok [OF assms(1) this, of bs]
  obtain bl where bl: "bloom_add_all S bs ?bl = Inr bl" "bloom_ok bl" "bl_P bl = P" "bl_key bl = key"
      "bl_n_on bl = int (count_list (bl_hits bl) True)"
      "\<forall>i < nat P. bl_hits bl ! i \<longleftrightarrow> (\<exists>b \<in> set bs. bloom_slot S key P b = i)"
    by auto
  have "bloom_has S bl x = Inr (\<exists>b \<in> set bs. bloom_slot S key P b = bloom_slot S key P x)" for x
    using bloom_ops_eq(1) [OF assms(1) bl(2)] bl(3,4,6) bloom_slot_less [OF assms(2)] by simp
  moreover have "bindR (bloom_new key P) (bloom_add_all S bs) = Inr bl"
    using bl(1) assms(2) by (simp add: bloom_new_def)
  ultimately show ?thesis using bl(2-5) by (auto simp: bloom_ok_def)
qed

text \<open>C17: a filter of \<open>P > 0\<close> bits into which any list of elements has been put reports an element
  exactly when some element of the list has the same slot, so it has no false negatives; \<open>n_on\<close> is
  the number of bits that are on, and no access leaves the vector.\<close>

theorem bloom_membership:
  assumes "hash_lengths_ok S" and "0 < P" and "P < 2 ^ 31" and "SHORTHASH_KEYBYTES \<le> length key"
  shows "\<exists>bl. bindR (bloom_new key P) (bloom_add_all S bs) = Inr bl
    \<and> (\<forall>x. bloom_has S bl x = Inr (\<exists>b \<in> set bs. bloom_slot S key P b = bloom_slot S key P x))
    \<and> bl_n_on bl = int (count_list (bl_hits bl) True) \<and> length (bl_hits bl) = nat P"
  using bloom_filled [OF assms] by blast

lemma bloom_membership_witness:
  "\<exists>bl. bindR (bloom_new (replicate 16 0) 4999) (bloom_add_all toy_sodium [[1], [2]]) = Inr bl
    \<and> bloom_has toy_sodium bl [2] = Inr True"
  using bloom_membership [OF toy_hash_lengths_ok, of 4999 "replicate 16 0" "[[1], [2]]"] by auto

end
