(* ===== verification/Storage.thy ===== *)
theory Storage
  imports Bloom
begin

text \<open>
  The cuckoo cache of \<open>inc/bloom_filter.h\<close> and the stores of \<open>inc/db.h\<close>: \<open>DB\<close>, a wrapper around
  RocksDB, and \<open>CachedDB\<close>, the same behind the cache. RocksDB is not part of the repository: its
  three operations are the fields of a record the definitions take as an argument, over an abstract
  type of database states.
\<close>

section \<open>The cache\<close>

text \<open>\<open>None\<close> is a null pointer. Only \<open>hashes\<close> is given a size by the constructor.\<close>

record cuckoo =
  cu_filter1 :: bloom
  cu_filter2 :: bloom
  cu_hashes :: "bytes option list"
  cu_data :: "bytes option list"
  cu_N :: u64

definition cuckoo_new :: "bytes \<Rightarrow> bytes \<Rightarrow> u64 \<Rightarrow> cuckoo result" where
  "cuckoo_new key1 key2 N =
     bindR (bloom_new key1 (sint (ucast N :: u32))) (\<lambda>f1.
     bindR (bloom_new key2 (sint (ucast N :: u32))) (\<lambda>f2.
     bindR (assertR (unat N < 2 ^ 60) (Thrown ''length_error'')) (\<lambda>_.
       Inr \<lparr>cu_filter1 = f1, cu_filter2 = f2, cu_hashes = replicate (unat N) None, cu_data = [], cu_N = N\<rparr>)))"

text \<open>\<open>int p = filter.hash(hash)\<close>, used as an index.\<close>

definition slot_of :: "sodium \<Rightarrow> bloom \<Rightarrow> bytes \<Rightarrow> nat result" where
  "slot_of S f h = bindR (bloom_hash S f h) (\<lambda>v.
     let p = sint (ucast v :: u32) in bindR (assertR (0 \<le> p) OutOfBounds) (\<lambda>_. Inr (nat p)))"

definition cuckoo_store :: "sodium \<Rightarrow> bytes \<Rightarrow> bytes \<Rightarrow> cuckoo \<Rightarrow> cuckoo result" where
  "cuckoo_store S h new_data c =
     bindR (slot_of S (cu_filter1 c) h) (\<lambda>p1. bindR (vec_get (cu_hashes c) p1) (\<lambda>e1.
     bindR (case e1 of
         None \<Rightarrow> Inr p1
       | Some _ \<Rightarrow> bindR (slot_of S (cu_filter2 c) h) (\<lambda>p2. bindR (vec_get (cu_hashes c) p2) (\<lambda>e2.
           case e2 of
             None \<Rightarrow> Inr p2
           | Some _ \<Rightarrow> bindR (vec_get (cu_data c) p2) (\<lambda>_. Inr p2)))) (\<lambda>p.
     bindR (vec_set (cu_hashes c) p (Some h)) (\<lambda>hs.
     bindR (vec_set (cu_data c) p (Some new_data)) (\<lambda>ds.
       Inr (c\<lparr>cu_hashes := hs, cu_data := ds\<rparr>))))))"

definition cuckoo_get :: "sodium \<Rightarrow> bytes \<Rightarrow> cuckoo \<Rightarrow> bytes option result" where
  "cuckoo_get S h c =
     bindR (slot_of S (cu_filter1 c) h) (\<lambda>p. bindR (vec_get (cu_hashes c) p) (\<lambda>e. case e of
       None \<Rightarrow>
         bindR (slot_of S (cu_filter2 c) h) (\<lambda>p. bindR (vec_get (cu_hashes c) p) (\<lambda>e. case e of
           None \<Rightarrow> Inr None
         | Some h' \<Rightarrow> if h' \<noteq> h then Inr None else vec_get (cu_data c) p))
     | Some h' \<Rightarrow> if h' \<noteq> h then Inr None else vec_get (cu_data c) p))"

section \<open>The stores\<close>

record 'db rocks =
  rk_put :: "bytes \<Rightarrow> bytes \<Rightarrow> 'db \<Rightarrow> bool \<times> 'db"
  rk_delete :: "bytes \<Rightarrow> 'db \<Rightarrow> bool \<times> 'db"
  rk_get :: "bytes \<Rightarrow> 'db \<Rightarrow> bytes option"

text \<open>What RocksDB documents: a successful \<open>Put\<close> is what \<open>Get\<close> finds, other keys are untouched, and a
  failed operation leaves the database as it was.\<close>

definition rocks_ok :: "'db rocks \<Rightarrow> bool" where
  "rocks_ok R \<longleftrightarrow>
     (\<forall>k v db k'. rk_get R k' (snd (rk_put R k v db)) =
        (if fst (rk_put R k v db) \<and> k' = k then Some v else rk_get R k' db)) \<and>
     (\<forall>k db k'. rk_get R k' (snd (rk_delete R k db)) =
        (if fst (rk_delete R k db) \<and> k' = k then None else rk_get R k' db))"

definition db_put :: "'db rocks \<Rightarrow> bytes \<Rightarrow> bytes \<Rightarrow> 'db \<Rightarrow> bool \<times> 'db" where
  "db_put R i d db = rk_put R i d db"

definition db_del :: "'db rocks \<Rightarrow> bytes \<Rightarrow> 'db \<Rightarrow> bool \<times> 'db" where
  "db_del R i db = rk_delete R i db"

text \<open>The second argument is the buffer \<open>data\<close> points to, \<open>None\<close> for a null pointer.\<close>

definition db_get :: "'db rocks \<Rightarrow> bytes \<Rightarrow> bytes option \<Rightarrow> 'db \<Rightarrow> (bool \<times> bytes option) result" where
  "db_get R i data db =
     (case rk_get R i db of
        Some v \<Rightarrow> (case data of None \<Rightarrow> Inl NullDeref | Some _ \<Rightarrow> Inr (True, Some v))
      | None \<Rightarrow> Inr (False, data))"

record 'db cached_db =
  cd_db :: 'db
  cd_cache :: cuckoo

text \<open>\<open>put\<close> and \<open>del\<close> have no \<open>return\<close>.\<close>

definition cached_put ::
  "'db rocks \<Rightarrow> sodium \<Rightarrow> bytes \<Rightarrow> bytes \<Rightarrow> 'db cached_db \<Rightarrow> (bool option \<times> 'db cached_db) result" where
  "cached_put R S i d cd =
     bindR (cuckoo_store S i d (cd_cache cd)) (\<lambda>c.
       Inr (None, cd\<lparr>cd_cache := c, cd_db := snd (db_put R i d (cd_db cd))\<rparr>))"

definition cached_del :: "'db rocks \<Rightarrow> bytes \<Rightarrow> 'db cached_db \<Rightarrow> bool option \<times> 'db cached_db" where
  "cached_del R i cd = (None, cd\<lparr>cd_db := snd (db_del R i (cd_db cd))\<rparr>)"

text \<open>\<open>get\<close> assigns the cached pointer to its own parameter: the caller's buffer, the last component
  here, is not written.\<close>

definition cached_get ::
  "'db rocks \<Rightarrow> sodium \<Rightarrow> bytes \<Rightarrow> bytes \<Rightarrow> 'db cached_db \<Rightarrow> (bool \<times> 'db cached_db \<times> bytes) result" where
  "cached_get R S i out cd =
     bindR (cuckoo_get S i (cd_cache cd)) (\<lambda>data. case data of
       Some _ \<Rightarrow> Inr (True, cd, out)
     | None \<Rightarrow> bindR (db_get R i data (cd_db cd)) (\<lambda>(found, data).
         if \<not> found then Inr (False, cd, out)
         else (case data of
             None \<Rightarrow> Inl NullDeref
           | Some d \<Rightarrow> bindR (cuckoo_store S i d (cd_cache cd)) (\<lambda>c. Inr (True, cd\<lparr>cd_cache := c\<rparr>, out)))))"

section \<open>Properties\<close>

lemma slot_of_eq:
  assumes "hash_lengths_ok S" and "bloom_ok bl"
  shows "slot_of S bl h = Inr (bloom_slot S (bl_key bl) (bl_P bl) h)"
proof -
  obtain w where w: "bloom_hash S bl h = Inr w" "unat w = bloom_slot S (bl_key bl) (bl_P bl) h"
    using bloom_hash_eq [OF assms] by blast
  moreover from assms(2) have "0 < bl_P bl" and "nat (bl_P bl) < 2 ^ 31" by (auto simp: bloom_ok_def)
  then have "unat w < 2 ^ 31" using bloom_slot_less [of "bl_P bl" S "bl_key bl" h] w(2) by linarith
  ultimately show ?thesis using sint_ucast_small [of w] by (simp add: slot_of_def Let_def)
qed

definition fresh_cache :: "cuckoo \<Rightarrow> bool" where
  "fresh_cache c \<longleftrightarrow> bloom_ok (cu_filter1 c) \<and> bloom_ok (cu_filter2 c) \<and> cu_data c = []
     \<and> cu_hashes c = replicate (nat (bl_P (cu_filter1 c))) None
     \<and> bl_P (cu_filter2 c) = bl_P (cu_filter1 c)"

lemma cuckoo_new_fresh:
  assumes "0 < unat N" and "unat N < 2 ^ 31"
    and "SHORTHASH_KEYBYTES \<le> length k1" and "SHORTHASH_KEYBYTES \<le> length k2"
    and "cuckoo_new k1 k2 N = Inr c"
  shows "fresh_cache c"
proof -
  obtain n where n: "unat N = n" "uint N = int n" using uint_nat by blast
  with assms(1,2) have u: "0 < uint N" "uint N < 2 ^ 31" by simp_all
  have "sint (ucast N :: u32) = uint N" using sint_ucast_small [OF assms(2)] uint_nat by simp
  with assms(3-5) u show ?thesis
    by (auto simp: cuckoo_new_def bloom_new_def bindR_eq_Inr fresh_cache_def bloom_ok_def)
qed

lemma fresh_cache_slots:
  assumes "hash_lengths_ok S" and "fresh_cache c"
  shows "\<exists>p. slot_of S (cu_filter1 c) h = Inr p \<and> vec_get (cu_hashes c) p = Inr None"
    and "\<exists>p. slot_of S (cu_filter2 c) h = Inr p \<and> vec_get (cu_hashes c) p = Inr None"
proof -
  have ok: "bloom_ok (cu_filter1 c)" "bloom_ok (cu_filter2 c)" "0 < bl_P (cu_filter1 c)"
      "bl_P (cu_filter2 c) = bl_P (cu_filter1 c)"
      "cu_hashes c = replicate (nat (bl_P (cu_filter1 c))) None"
    using assms(2) by (simp_all add: fresh_cache_def bloom_ok_def)
  show "\<exists>p. slot_of S (cu_filter1 c) h = Inr p \<and> vec_get (cu_hashes c) p = Inr None"
    using slot_of_eq [OF assms(1) ok(1)] bloom_slot_less ok(3,5) by simp
  show "\<exists>p. slot_of S (cu_filter2 c) h = Inr p \<and> vec_get (cu_hashes c) p = Inr None"
    using slot_of_eq [OF assms(1) ok(2)] bloom_slot_less [of "bl_P (cu_filter1 c)"] ok(3-5) by simp
qed

lemma fresh_cache_store: 
  assumes "hash_lengths_ok S" and "fresh_cache c"
  shows "cuckoo_store S h d c = Inl OutOfBounds"
proof -
  have "cu_data c = []" using assms(2) by (simp add: fresh_cache_def)
  with fresh_cache_slots(1) [OF assms, of h] show ?thesis
    by (auto simp: cuckoo_store_def vec_get_eq_Inr)
qed

lemma fresh_cache_get:
  "hash_lengths_ok S \<Longrightarrow> fresh_cache c \<Longrightarrow> cuckoo_get S h c = Inr None"
  using fresh_cache_slots [of S c h] by (auto simp: cuckoo_get_def)

text \<open>\<open>CachedDB\<close> can neither store nor fetch. The cache's vector of values is never given a size,
  so every \<open>put\<close> writes outside it before it reaches the database; and \<open>get\<close> looks the value up in
  the cache into its own parameter, so a key the database has makes it write through a null
  pointer. The only call that comes back is a \<open>get\<close> of a key that is not there.\<close>

lemma cached_db_serves_nothing:
  assumes "hash_lengths_ok S" and "cuckoo_new k1 k2 N = Inr (cd_cache cd)"
    and "0 < unat N" and "unat N < 2 ^ 31"
    and "SHORTHASH_KEYBYTES \<le> length k1" and "SHORTHASH_KEYBYTES \<le> length k2"
  shows "cached_put R S i d cd = Inl OutOfBounds
    \<and> cached_get R S i out cd =
        (if rk_get R i (cd_db cd) = None then Inr (False, cd, out) else Inl NullDeref)"
proof -
  have fresh: "fresh_cache (cd_cache cd)" using cuckoo_new_fresh assms(2-6) by blast
  show ?thesis
    using fresh_cache_store [OF assms(1) fresh] fresh_cache_get [OF assms(1) fresh]
    by (auto simp: cached_put_def cached_get_def db_get_def)
qed

text \<open>RocksDB as a map, every operation succeeding.\<close>

definition toy_rocks :: "(bytes \<Rightarrow> bytes option) rocks" where
  "toy_rocks = \<lparr>rk_put = (\<lambda>k v m. (True, m(k \<mapsto> v))), rk_delete = (\<lambda>k m. (True, m(k := None))), rk_get = (\<lambda>k m. m k)\<rparr>"

lemma toy_rocks_ok: "rocks_ok toy_rocks"
  by (simp add: rocks_ok_def toy_rocks_def)

text \<open>The plain \<open>DB\<close> is a map: after a successful \<open>put\<close> of \<open>i\<close> and any number of operations on
  other keys, \<open>get\<close> of \<open>i\<close> fills the caller's buffer with what was put, and after a successful
  \<open>del\<close> it fails.\<close>

lemma db_put_others_get:
  assumes "rocks_ok R" and "fst (db_put R i d db)" and "i \<notin> fst ` set others"
  shows "db_get R i (Some buf)
      (fold (\<lambda>(j, v) db. snd (case v of Some d \<Rightarrow> db_put R j d db | None \<Rightarrow> db_del R j db)) others
        (snd (db_put R i d db))) = Inr (True, Some d)
    \<and> (fst (db_del R i db) \<longrightarrow> db_get R i (Some buf) (snd (db_del R i db)) = Inr (False, Some buf))"
proof -
  have put: "rk_get R k' (snd (rk_put R k v db)) =
      (if fst (rk_put R k v db) \<and> k' = k then Some v else rk_get R k' db)"
    and del: "rk_get R k' (snd (rk_delete R k db)) =
      (if fst (rk_delete R k db) \<and> k' = k then None else rk_get R k' db)" for k v db k'
    using assms(1) unfolding rocks_ok_def by blast+
  have "rk_get R i db' = Some d \<Longrightarrow> rk_get R i
      (fold (\<lambda>(j, v) db. snd (case v of Some d \<Rightarrow> db_put R j d db | None \<Rightarrow> db_del R j db)) others db') = Some d"
    for db'
    using assms(3)
    by (induction others arbitrary: db') (auto simp: put del db_put_def db_del_def split: option.splits)
  with assms(2) show ?thesis by (auto simp: put del db_get_def db_put_def db_del_def)
qed

end
