(* ===== verification/Reconcile.thy ===== *)
theory Reconcile
  imports Chain Bloom "HOL-Library.Multiset"
begin

text \<open>
  \<open>SetReconsiler\<close> and \<open>pttp::BlockChainReconsiler\<close> of \<open>bin/p2p.cc\<close>: finding out which of the known
  transactions make up a set of which only the root hash is known, with the filters other nodes
  sent.
\<close>

section \<open>One set\<close>

record set_reconsiler =
  sr_hash :: bytes
  sr_N :: nat
  sr_filters :: "bloom list"
  sr_current :: "bytes list"

definition sr_new :: "bytes \<Rightarrow> set_reconsiler" where
  "sr_new h = \<lparr>sr_hash = h, sr_N = 0, sr_filters = [], sr_current = []\<rparr>"

text \<open>The inner loop of \<open>filter\<close>, which stops at the first filter that does not have the element.\<close>

fun in_filters :: "sodium \<Rightarrow> bloom list \<Rightarrow> bytes \<Rightarrow> bool result" where
  "in_filters S [] s = Inr True"
| "in_filters S (f # fs) s = bindR (bloom_has S f s) (\<lambda>has. if \<not> has then Inr False else in_filters S fs s)"

definition sr_filter :: "sodium \<Rightarrow> bytes list \<Rightarrow> set_reconsiler \<Rightarrow> set_reconsiler result" where
  "sr_filter S elems r =
     bindR (filterR (in_filters S (sr_filters r)) elems) (\<lambda>cur. Inr (r\<lparr>sr_current := cur\<rparr>))"

definition sr_check :: "sodium \<Rightarrow> set_reconsiler \<Rightarrow> bool result" where
  "sr_check S r =
     (if length (sr_current r) = 0 then Inr False
      else bindR (hash_vec S (sort (sr_current r))) (\<lambda>current_hash. Inr (sr_hash r = current_hash)))"

section \<open>The sets of the chain\<close>

text \<open>The map from root hashes; a null pointer is \<open>None\<close>.\<close>

type_synonym reconsilers = "(bytes, set_reconsiler option) std_map"

text \<open>\<open>add_filter\<close> does not use the filter it is given.\<close>

definition add_filter :: "bytes \<Rightarrow> int \<Rightarrow> bloom \<Rightarrow> reconsilers \<Rightarrow> reconsilers" where
  "add_filter h n bl m = (if \<not> map_count m h then map_assign h (Some (sr_new h)) m else m)"

definition init_hash :: "bytes \<Rightarrow> reconsilers \<Rightarrow> reconsilers" where
  "init_hash h m = (if \<not> map_count m h then map_assign h (Some (sr_new h)) m else m)"

text \<open>\<open>hash_reconsilers[hash]\<close>, dereferenced.\<close>

definition reconsiler_at :: "bytes \<Rightarrow> reconsilers \<Rightarrow> (set_reconsiler \<times> reconsilers) result" where
  "reconsiler_at h m =
     (case map_index None m h of (None, m) \<Rightarrow> Inl NullDeref | (Some r, m) \<Rightarrow> Inr (r, m))"

text \<open>\<open>check\<close> does not return what the reconsiler's \<open>check\<close> returned, and \<open>filters\<close> returns nothing.\<close>

definition reconsiler_check :: "sodium \<Rightarrow> bytes \<Rightarrow> reconsilers \<Rightarrow> (bool option \<times> reconsilers) result" where
  "reconsiler_check S h m =
     (if \<not> map_count m h then Inr (Some False, m)
      else bindR (reconsiler_at h m) (\<lambda>(r, m). bindR (sr_check S r) (\<lambda>_. Inr (None, m))))"

definition reconsiler_filters :: "bytes \<Rightarrow> reconsilers \<Rightarrow> (bloom list option \<times> reconsilers) result" where
  "reconsiler_filters h m = bindR (reconsiler_at h m) (\<lambda>(r, m). Inr (None, m))"

definition get_set_or_filter :: "bytes \<Rightarrow> reconsilers \<Rightarrow> (bool \<times> reconsilers) result" where
  "get_set_or_filter h m =
     bindR (reconsiler_filters h m) (\<lambda>(ret, m). bindR (used ret) (\<lambda>filters.
       if length filters = 0 then Inr (False, m)
       else bindR (reconsiler_at h m) (\<lambda>(r, m). Inr (length (sr_current r) < sr_N r, m))))"

section \<open>Properties\<close>

lemma in_filters_eq:
  assumes "hash_lengths_ok S" and "\<forall>f \<in> set fs. bloom_ok f"
  shows "in_filters S fs s = Inr (\<forall>f \<in> set fs. bloom_contains S f s)"
  using assms(2) by (induction fs) (simp_all add: bloom_has_contains [OF assms(1)])

text \<open>C35: \<open>filter\<close> loses nothing: if every filter was filled by a node that has all of a set \<open>T\<close>, then all
  elements of \<open>T\<close> among those offered are kept, in their order, whatever else passes.\<close>

theorem filter_keeps_common:
  assumes "hash_lengths_ok S"
    and "\<forall>f \<in> set (sr_filters r). \<exists>f0 xs. bloom_ok f0 \<and> bloom_add_all S xs f0 = Inr f \<and> T \<subseteq> set xs"
  shows "\<exists>cur. sr_filter S elems r = Inr (r\<lparr>sr_current := cur\<rparr>) \<and> T \<inter> set elems \<subseteq> set cur
    \<and> cur = filter (\<lambda>x. \<forall>f \<in> set (sr_filters r). bloom_contains S f x) elems"
proof -
  let ?fs = "sr_filters r"
  have filled: "bloom_add_all S xs f0 = Inr (fold (bloom_put S) xs f0)" if "bloom_ok f0" for xs f0
    using that
  proof (induction xs arbitrary: f0)
    case (Cons x xs)
    from Cons.prems have "bloom_ok (bloom_put S x f0)" by (rule bloom_set.ok_put)
    with Cons show ?case by (simp add: bloom_add_all_def bloom_set_put [OF assms(1)])
  qed (simp add: bloom_add_all_def)
  have fs: "\<forall>f \<in> set ?fs. \<exists>f0 xs. bloom_ok f0 \<and> f = fold (bloom_put S) xs f0 \<and> T \<subseteq> set xs"
    using assms(2) filled by fastforce
  have "\<forall>f \<in> set ?fs. bloom_ok f"
  proof
    fix f assume "f \<in> set ?fs"
    with fs obtain f0 xs where "bloom_ok f0" "f = fold (bloom_put S) xs f0" by blast
    then show "bloom_ok f" using bloom_set.ok_fold by simp
  qed
  then have "filterR (in_filters S ?fs) elems = Inr (filter (\<lambda>x. \<forall>f \<in> set ?fs. bloom_contains S f x) elems)"
    by (intro filterR_total in_filters_eq [OF assms(1)])
  then show ?thesis
    using bloom_set.kept_by_all [OF fs, of elems] by (auto simp: sr_filter_def)
qed

lemma filter_keeps_common_witness:
  "\<exists>bl cur. bindR (bloom_new (replicate 16 0) 8) (bloom_add_all toy_sodium [[1], [2]]) = Inr bl
    \<and> sr_filter toy_sodium [[2], [7]] ((sr_new [])\<lparr>sr_filters := [bl]\<rparr>) =
        Inr ((sr_new [])\<lparr>sr_filters := [bl], sr_current := cur\<rparr>) \<and> [2] \<in> set cur"
proof -
  let ?f0 = "\<lparr>bl_P = 8, bl_hits = replicate 8 False, bl_key = replicate 16 0, bl_n_on = 0\<rparr>"
  have ok: "bloom_ok ?f0" by (simp add: bloom_ok_def)
  obtain bl where bl: "bloom_add_all toy_sodium [[1], [2]] ?f0 = Inr bl"
    using bloom_add_all_ok [OF toy_hash_lengths_ok ok, of "[[1], [2]]"] by (auto simp: count_list_0_iff)
  with ok filter_keeps_common [OF toy_hash_lengths_ok, of "(sr_new [])\<lparr>sr_filters := [bl]\<rparr>" "{[1], [2]}" "[[2], [7]]"]
  obtain cur where "sr_filter toy_sodium [[2], [7]] ((sr_new [])\<lparr>sr_filters := [bl]\<rparr>) =
        Inr ((sr_new [])\<lparr>sr_filters := [bl], sr_current := cur\<rparr>)" "[2] \<in> set cur"
    by fastforce
  moreover have "bindR (bloom_new (replicate 16 0) 8) (bloom_add_all toy_sodium [[1], [2]]) = Inr bl"
    using bl by (simp add: bloom_new_def)
  ultimately show ?thesis by blast
qed

text \<open>C36: \<open>check\<close> does not depend on the order in which the elements were found, and when it succeeds
  against the root of a list of the same size, with entries of one size, the elements are those of
  the list, unless the hash function has a collision among the inputs of the two trees.\<close>

theorem check_identifies_set:
  assumes "hash_lengths_ok S" and "sr_check S r = Inr True"
    and "hash_vec S (sort target) = Inr (sr_hash r)" and "length target = length (sr_current r)"
    and "\<forall>x \<in> set target \<union> set (sr_current r). length x = m"
  shows "(mset target = mset (sr_current r)
      \<or> collision S (tree_inputs S (sort target)) (tree_inputs S (sort (sr_current r))))
    \<and> (\<forall>cur. mset cur = mset (sr_current r) \<longrightarrow> sr_check S (r\<lparr>sr_current := cur\<rparr>) = Inr True)"
proof -
  have cur: "sr_current r \<noteq> []" and root: "hash_vec S (sort (sr_current r)) = Inr (sr_hash r)"
    using assms(2) by (auto simp: sr_check_def bindR_eq_Inr split: if_splits)
  have "length (sort target) = length (sort (sr_current r))"
    and "\<forall>x \<in> set (sort target) \<union> set (sort (sr_current r)). length x = m"
    using assms(4,5) by simp_all
  from hash_vec_binds [OF assms(1) this assms(3) root] have
    "mset target = mset (sr_current r)
      \<or> collision S (tree_inputs S (sort target)) (tree_inputs S (sort (sr_current r)))"
    by (metis mset_sort)
  moreover have "sr_check S (r\<lparr>sr_current := cur\<rparr>) = Inr True" if "mset cur = mset (sr_current r)" for cur
  proof -
    have "sort cur = sort (sr_current r)" using that by (metis sorted_list_of_multiset_mset)
    moreover have "cur \<noteq> []" using that \<open>sr_current r \<noteq> []\<close> by auto
    ultimately show ?thesis using root by (simp add: sr_check_def)
  qed
  ultimately show ?thesis by blast
qed

lemma check_identifies_set_witness:
  "sr_check toy_sodium (((sr_new (hash_twin toy_sodium [1] [2]))\<lparr>sr_current := [[2], [1]]\<rparr>)) = Inr True"
proof -
  let ?r = "(sr_new (hash_twin toy_sodium [1] [2]))\<lparr>sr_current := [[1], [2]]\<rparr>"
  have "hash_vec toy_sodium [[1], [2]] = Inr (hash_twin toy_sodium [1] [2])"
    by (simp add: hash_vec_def hash_levels.simps)
  moreover have "sort [[1], [2]] = [[1 :: u8], [2]]" by simp
  ultimately show ?thesis
    using check_identifies_set [OF toy_hash_lengths_ok, of ?r "[[1], [2]]" 1]
    by (simp add: sr_check_def sr_new_def)
qed

text \<open>What the program does to the map: filters added, and sets initialised.\<close>

definition run_reconsiler :: "(bytes \<times> (int \<times> bloom) option) list \<Rightarrow> reconsilers" where
  "run_reconsiler ops = fold (\<lambda>(h, add) m. case add of
     Some (n, bl) \<Rightarrow> add_filter h n bl m | None \<Rightarrow> init_hash h m) ops []"

lemma run_reconsiler_fresh:
  "map_ok (run_reconsiler ops) \<and>
   map_of (run_reconsiler ops) = (\<lambda>h. if h \<in> fst ` set ops then Some (Some (sr_new h)) else None)"
proof (induction ops rule: rev_induct)
  case (snoc op ops)
  let ?m = "run_reconsiler ops"
  have "run_reconsiler (ops @ [op]) = init_hash (fst op) ?m"
    by (cases op) (auto simp: run_reconsiler_def add_filter_def init_hash_def split: option.split)
  then show ?case using snoc by (auto simp: init_hash_def map_count_def fun_eq_iff)
qed (simp add: run_reconsiler_def)

text \<open>The reconsiler of the chain never finishes a set: whatever filters are added, none is kept, so
  the state of every set stays the initial one; asked about a set it knows, neither \<open>check\<close> nor
  \<open>get_set_or_filter\<close> has a value to go on with.\<close>

lemma reconsiler_never_completes:
  "map_of (run_reconsiler ops) h = (if h \<in> fst ` set ops then Some (Some (sr_new h)) else None)
    \<and> bindR (reconsiler_check S h (run_reconsiler ops)) (\<lambda>(ret, m). used ret) =
        (if h \<in> fst ` set ops then Inl MissingReturn else Inr False)
    \<and> get_set_or_filter h (run_reconsiler ops) = Inl (if h \<in> fst ` set ops then MissingReturn else NullDeref)"
proof -
  let ?m = "run_reconsiler ops"
  have m: "map_of ?m = (\<lambda>h. if h \<in> fst ` set ops then Some (Some (sr_new h)) else None)"
    using run_reconsiler_fresh by blast
  have chk: "sr_check S (sr_new h) = Inr False" by (simp add: sr_check_def sr_new_def)
  show ?thesis
  proof (cases "h \<in> fst ` set ops")
    case True
    then have "map_index None ?m h = (Some (sr_new h), ?m)" using m by (simp add: map_index_def)
    with True m chk show ?thesis
      by (simp add: reconsiler_check_def map_count_def reconsiler_at_def get_set_or_filter_def reconsiler_filters_def)
  next
    case False
    then have "fst (map_index None ?m h) = None" using m by (simp add: map_index_def)
    then obtain m' where "map_index None ?m h = (None, m')" by (cases "map_index None ?m h") auto
    with False m show ?thesis
      by (simp add: reconsiler_check_def map_count_def reconsiler_at_def get_set_or_filter_def reconsiler_filters_def)
  qed
qed

end
