(* ===== verification/Gtd.thy ===== *)
theory Gtd
  imports Prelude "HOL-Library.Multiset"
begin

text \<open>
  \<open>inc/gtd.h\<close>: the task queue every connection and the manager own. Threads put tasks in, to be run
  at once or after a delay, and the owner takes the most urgent one that is due. All accesses hold
  the queue's mutex, so a run of several threads is a sequence of the operations below.
\<close>

section \<open>Tasks\<close>

datatype task_type =
    SENDPRIORITY | SEND | HELLO | SYNC_UTXO | EXPAND_CONNECTION | REQ_IPS
  | REQ_HASHSET_FILTER | REQ_HASHSET | SYNC_HASHSET

fun task_number :: "task_type \<Rightarrow> nat" where
  "task_number SENDPRIORITY = 0"
| "task_number SEND = 1"
| "task_number HELLO = 2"
| "task_number SYNC_UTXO = 3"
| "task_number EXPAND_CONNECTION = 4"
| "task_number REQ_IPS = 5"
| "task_number REQ_HASHSET_FILTER = 6"
| "task_number REQ_HASHSET = 7"
| "task_number SYNC_HASHSET = 8"

lemma task_number_inj: "task_number a = task_number b \<Longrightarrow> a = b"
  by (cases a; cases b) simp_all

text \<open>The comparison of enumerators is that of their numbers.\<close>

instantiation task_type :: linorder
begin

definition less_eq_task_type :: "task_type \<Rightarrow> task_type \<Rightarrow> bool" where
  "less_eq_task_type a b \<longleftrightarrow> task_number a \<le> task_number b"

definition less_task_type :: "task_type \<Rightarrow> task_type \<Rightarrow> bool" where
  "less_task_type a b \<longleftrightarrow> task_number a < task_number b"

instance
  by intro_classes (auto simp: less_eq_task_type_def less_task_type_def intro: task_number_inj)

end

record task =
  t_type :: task_type
  t_data :: bytes
  t_time :: int

definition task_less :: "task \<Rightarrow> task \<Rightarrow> bool" where
  "task_less l r = (if t_time l = t_time r then t_type l < t_type r else t_time l < t_time r)"

definition task_greater :: "task \<Rightarrow> task \<Rightarrow> bool" where
  "task_greater l r = (if t_time l = t_time r then t_type l > t_type r else t_time l > t_time r)"

lemma task_greater_less: "task_greater l r \<longleftrightarrow> task_less r l"
  by (auto simp: task_greater_def task_less_def)

lemma task_less_irrefl: "\<not> task_less t t"
  by (simp add: task_less_def)

lemma task_less_trans: "task_less a b \<Longrightarrow> task_less b c \<Longrightarrow> task_less a c"
  by (auto simp: task_less_def split: if_splits)

lemma task_less_negtrans: "task_less a c \<Longrightarrow> task_less a b \<or> task_less b c"
  by (auto simp: task_less_def split: if_splits)

section \<open>The heap\<close>

text \<open>What \<open>std::priority_queue\<close> promises: \<open>top\<close> is an element no other one precedes. Which of two
  equivalent elements comes first is left open.\<close>

locale priority_queue =
  fixes empty :: 'q
    and push :: "'a \<Rightarrow> 'q \<Rightarrow> 'q"
    and top :: "'q \<Rightarrow> 'a option"
    and pop :: "'q \<Rightarrow> 'q"
    and bag :: "'q \<Rightarrow> 'a multiset"
    and less :: "'a \<Rightarrow> 'a \<Rightarrow> bool"
  assumes bag_empty: "bag empty = {#}"
    and bag_push: "bag (push x q) = add_mset x (bag q)"
    and top_None: "top q = None \<longleftrightarrow> bag q = {#}"
    and top_in: "top q = Some x \<Longrightarrow> x \<in># bag q"
    and top_least: "top q = Some x \<Longrightarrow> y \<in># bag q \<Longrightarrow> \<not> less y x"
    and bag_pop: "top q = Some x \<Longrightarrow> bag (pop q) = bag q - {#x#}"
    and irrefl: "\<not> less x x"
    and trans: "less x y \<Longrightarrow> less y z \<Longrightarrow> less x z"
    and negtrans: "less x z \<Longrightarrow> less x y \<or> less y z"
begin

lemma bag_top_pop: "top q = Some x \<Longrightarrow> bag q = add_mset x (bag (pop q))"
  by (simp add: bag_pop top_in)

lemma top_stays_least: "top q = Some x \<Longrightarrow> y \<in># bag (pop q) \<Longrightarrow> \<not> less y x"
  by (metis bag_pop in_diffD top_least)

lemma top_exists: "x \<in># bag q \<Longrightarrow> \<exists>y. top q = Some y"
  by (metis empty_iff option.exhaust set_mset_empty top_None)

text \<open>An element that precedes all others is the one taken.\<close>

lemma top_unique_least:
  assumes "x \<in># bag q" and "\<And>y. y \<in># bag q \<Longrightarrow> y \<noteq> x \<Longrightarrow> less x y"
  shows "top q = Some x"
  using assms top_exists top_in top_least by metis

text \<open>What is taken out one after the other comes in order, and nothing is lost.\<close>

lemma taken_in_order:
  assumes "\<And>i. i < length xs \<Longrightarrow> top ((pop ^^ i) q) = Some (xs ! i)"
  shows "sorted_wrt (\<lambda>x y. \<not> less y x) xs \<and> bag q = mset xs + bag ((pop ^^ length xs) q)"
  using assms
proof (induction xs arbitrary: q)
  case (Cons x xs)
  from Cons.prems [of 0] have x: "top q = Some x" by simp
  have "top ((pop ^^ i) (pop q)) = Some (xs ! i)" if "i < length xs" for i
    using Cons.prems [of "Suc i"] that by (simp add: funpow_swap1)
  with Cons.IH have rest: "sorted_wrt (\<lambda>x y. \<not> less y x) xs"
    and b: "bag (pop q) = mset xs + bag ((pop ^^ length xs) (pop q))" by blast+
  have "\<not> less y x" if "y \<in> set xs" for y
    using top_stays_least [OF x, of y] b that by simp
  with rest b x show ?case by (simp add: bag_top_pop funpow_swap1)
qed simp

end

text \<open>The queue of the model: a list in the order of arrival, the first of equivalent tasks first.\<close>

type_synonym task_queue = "task list"

definition tq_push :: "task \<Rightarrow> task_queue \<Rightarrow> task_queue" where
  "tq_push t q = q @ [t]"

fun tq_top :: "task_queue \<Rightarrow> task option" where
  "tq_top [] = None"
| "tq_top (t # q) = (case tq_top q of None \<Rightarrow> Some t | Some u \<Rightarrow> if task_greater t u then Some u else Some t)"

definition tq_pop :: "task_queue \<Rightarrow> task_queue" where
  "tq_pop q = (case tq_top q of None \<Rightarrow> q | Some t \<Rightarrow> remove1 t q)"

lemma tq_top_None: "tq_top q = None \<longleftrightarrow> q = []"
  by (cases q) (auto split: option.split)

lemma tq_top_in: "tq_top q = Some t \<Longrightarrow> t \<in> set q"
  by (induction q arbitrary: t) (auto split: option.splits if_splits)

lemma tq_top_least: "tq_top q = Some t \<Longrightarrow> u \<in> set q \<Longrightarrow> \<not> task_less u t"
proof (induction q arbitrary: t u)
  case (Cons a q)
  show ?case
  proof (cases "tq_top q")
    case None
    with Cons.prems show ?thesis by (auto simp: tq_top_None task_less_irrefl)
  next
    case (Some b)
    with Cons.prems Cons.IH [OF Some] show ?thesis
      using task_less_irrefl task_less_trans task_less_negtrans
      by (auto simp: task_greater_less split: if_splits) blast+
  qed
qed simp

interpretation tq: priority_queue "[]" tq_push tq_top tq_pop mset task_less
  by unfold_locales
    (auto simp: tq_push_def tq_top_None tq_top_in tq_top_least tq_pop_def task_less_irrefl mset_remove1
      dest: task_less_trans task_less_negtrans)

section \<open>The operations of the queue\<close>

text \<open>The clock counts nanoseconds; \<open>to_time_t\<close> keeps the whole seconds.\<close>

definition to_time_t :: "int \<Rightarrow> int" where
  "to_time_t ns = ns div 1000000000"

definition gtd_add :: "task \<Rightarrow> task_queue \<Rightarrow> task_queue" where
  "gtd_add t q = tq_push (t\<lparr>t_time := 0\<rparr>) q"

definition gtd_add_in :: "int \<Rightarrow> int \<Rightarrow> task \<Rightarrow> task_queue \<Rightarrow> task_queue" where
  "gtd_add_in now ms t q = tq_push (t\<lparr>t_time := to_time_t (now + ms * 1000000)\<rparr>) q"

text \<open>One round of the loop of \<open>operator()()\<close> at a clock reading.\<close>

definition gtd_poll :: "int \<Rightarrow> task_queue \<Rightarrow> (task \<times> task_queue) option" where
  "gtd_poll now q =
     (if length q \<noteq> 0
      then (case tq_top q of
          Some t \<Rightarrow> if t_time t < to_time_t now then Some (t, tq_pop q) else None
        | None \<Rightarrow> None)
      else None)"

text \<open>The loop: the clock readings of its rounds, as many as it takes.\<close>

fun gtd_take :: "int list \<Rightarrow> task_queue \<Rightarrow> (task \<times> task_queue) option" where
  "gtd_take [] q = None"
| "gtd_take (now # later) q = (case gtd_poll now q of Some r \<Rightarrow> Some r | None \<Rightarrow> gtd_take later q)"

text \<open>A run: what the threads do to one queue, in the order in which they hold its mutex.\<close>

datatype gtd_event = Add task | Add_In int int task | Poll int

fun gtd_run :: "gtd_event list \<Rightarrow> task_queue \<Rightarrow> (task \<times> int) list \<times> task_queue" where
  "gtd_run [] q = ([], q)"
| "gtd_run (Add t # es) q = gtd_run es (gtd_add t q)"
| "gtd_run (Add_In now ms t # es) q = gtd_run es (gtd_add_in now ms t q)"
| "gtd_run (Poll now # es) q =
     (case gtd_poll now q of
        None \<Rightarrow> gtd_run es q
      | Some (t, q') \<Rightarrow> let (out, q'') = gtd_run es q' in ((t, now) # out, q''))"

text \<open>The tasks a run puts in, with the time they are filed under.\<close>

fun filed :: "gtd_event list \<Rightarrow> task list" where
  "filed [] = []"
| "filed (Add t # es) = t\<lparr>t_time := 0\<rparr> # filed es"
| "filed (Add_In now ms t # es) = t\<lparr>t_time := to_time_t (now + ms * 1000000)\<rparr> # filed es"
| "filed (Poll now # es) = filed es"

lemma gtd_poll_Some:
  "gtd_poll now q = Some (t, q') \<longleftrightarrow> tq_top q = Some t \<and> t_time t < to_time_t now \<and> q' = tq_pop q"
  by (cases q) (auto simp: gtd_poll_def split: option.split)

lemma gtd_run_bag:
  assumes "gtd_run es q = (out, q')"
  shows "mset q + mset (filed es) = mset (map fst out) + mset q'
    \<and> (\<forall>(t, now) \<in> set out. t_time t < to_time_t now)"
  using assms
proof (induction es arbitrary: q out)
  case (Cons e es)
  show ?case
  proof (cases e)
    case (Poll now)
    show ?thesis
    proof (cases "gtd_poll now q")
      case (Some r)
      obtain t q1 where r: "r = (t, q1)" by (cases r)
      obtain out1 where run: "gtd_run es q1 = (out1, q')" and out: "out = (t, now) # out1"
        using Cons.prems Some r Poll by (auto split: prod.splits)
      from Some r have t: "tq_top q = Some t" "t_time t < to_time_t now" "q1 = tq_pop q"
        by (auto simp: gtd_poll_Some)
      from Cons.IH [OF run] t(2) tq.bag_top_pop [OF t(1)] show ?thesis
        unfolding Poll out t(3) by simp
    qed (use Cons Poll in simp)
  qed (use Cons.prems Cons.IH in \<open>force simp: gtd_add_def gtd_add_in_def tq_push_def\<close>)+
qed simp

section \<open>Properties\<close>

text \<open>C26: no task is lost, invented or delivered twice, whatever the interleaving of the threads: the
  tasks delivered and those left are the tasks put in, and each is delivered after the second it is
  filed under is over.\<close>

theorem gtd_conservation:
  assumes "gtd_run es q = (out, q')"
  shows "mset q + mset (filed es) = mset (map fst out) + mset q'
    \<and> (\<forall>(t, now) \<in> set out. t_time t < to_time_t now)"
  using assms by (rule gtd_run_bag)

text \<open>A text, a request planned for ten seconds later and two rounds of the loop.\<close>

lemma gtd_conservation_witness:
  "let es = [Add \<lparr>t_type = SEND, t_data = [7], t_time = 5\<rparr>, Add_In 1000000000 10000 \<lparr>t_type = REQ_IPS, t_data = [], t_time = 0\<rparr>,
      Poll 2000000000, Poll 3000000000] in
    \<exists>out q'. gtd_run es [] = (out, q') \<and> map fst out = [\<lparr>t_type = SEND, t_data = [7], t_time = 0\<rparr>]
      \<and> q' = [\<lparr>t_type = REQ_IPS, t_data = [], t_time = 11\<rparr>]
      \<and> mset [] + mset (filed es) = mset (map fst out) + mset q'
      \<and> (\<forall>(t, now) \<in> set out. t_time t < to_time_t now)"
proof -
  let ?es = "[Add \<lparr>t_type = SEND, t_data = [7], t_time = 5\<rparr>, Add_In 1000000000 10000 \<lparr>t_type = REQ_IPS, t_data = [], t_time = 0\<rparr>,
      Poll 2000000000, Poll 3000000000]"
  have run: "gtd_run ?es [] = ([(\<lparr>t_type = SEND, t_data = [7], t_time = 0\<rparr>, 2000000000)], [\<lparr>t_type = REQ_IPS, t_data = [], t_time = 11\<rparr>])"
    by (simp add: gtd_add_def gtd_add_in_def tq_push_def gtd_poll_def to_time_t_def tq_pop_def task_greater_def)
  from gtd_conservation [OF run] run show ?thesis unfolding Let_def by auto
qed

text \<open>A task put in with a delay is not delivered before the delay is over, and is due at every
  clock reading a second or more after that.\<close>

lemma gtd_delay:
  assumes "gtd_add_in now ms t q = q'"
  shows "(\<forall>clock u q''. gtd_poll clock q' = Some (u, q'') \<longrightarrow> u = last q' \<longrightarrow> now + ms * 1000000 < clock)
    \<and> (\<forall>clock. now + ms * 1000000 + 1000000000 \<le> clock \<longrightarrow> (\<exists>u q''. gtd_poll clock q' = Some (u, q'')))"
proof -
  let ?due = "now + ms * 1000000"
  have q': "q' = q @ [t\<lparr>t_time := to_time_t ?due\<rparr>]"
    using assms by (simp add: gtd_add_in_def tq_push_def)
  have "?due < clock" if "to_time_t ?due < to_time_t clock" for clock
    using that zdiv_mono1 [of clock ?due 1000000000] unfolding to_time_t_def by linarith
  moreover have "\<exists>u q''. gtd_poll clock q' = Some (u, q'')" if "?due + 1000000000 \<le> clock" for clock
  proof -
    have "to_time_t ?due < to_time_t clock"
      using zdiv_mono1 [OF that, of 1000000000] unfolding to_time_t_def by simp
    moreover obtain u where u: "tq_top q' = Some u" using q' tq_top_None by fastforce
    moreover from u q' have "\<not> task_less (last q') u" using tq_top_least by simp
    then have "t_time u \<le> to_time_t ?due" using q' by (auto simp: task_less_def split: if_splits)
    ultimately show ?thesis using gtd_poll_Some by fastforce
  qed
  ultimately show ?thesis using q' by (auto simp: gtd_poll_Some)
qed

text \<open>C27: successive deliveries from a queue nobody adds to come in the order of the tasks: by second,
  and within a second by the number of the type; tasks put in without a delay come first, among them
  \<open>SENDPRIORITY\<close> before \<open>SEND\<close> before \<open>HELLO\<close>.\<close>

theorem gtd_order:
  assumes "gtd_run (map Poll clocks) q = (out, q')"
  shows "sorted_wrt (\<lambda>(t, _) (u, _). \<not> task_less u t) out
    \<and> (\<forall>(t, _) \<in> set out. \<forall>u \<in> set q'. \<not> task_less u t)"
  using assms
proof (induction clocks arbitrary: q out)
  case (Cons now clocks)
  show ?case
  proof (cases "gtd_poll now q")
    case (Some r)
    obtain t q1 where r: "r = (t, q1)" by (cases r)
    obtain out1 where run: "gtd_run (map Poll clocks) q1 = (out1, q')" and out: "out = (t, now) # out1"
      using Cons.prems Some r by (auto split: prod.splits)
    from Some r have t: "tq_top q = Some t" "q1 = tq_pop q" by (auto simp: gtd_poll_Some)
    have "filed (map Poll clocks) = []" for clocks by (induction clocks) simp_all
    with gtd_run_bag [OF run] have "mset q1 = mset (map fst out1) + mset q'" by simp
    then have "set (map fst out1) \<union> set q' \<subseteq> set q1" by (metis set_mset_mset set_mset_union order_refl)
    then have "\<not> task_less u t" if "u \<in> set (map fst out1) \<union> set q'" for u
      using tq.top_stays_least [OF t(1)] t(2) that by (metis in_mono set_mset_mset)
    with Cons.IH [OF run] out show ?thesis by fastforce
  qed (use Cons in simp)
qed simp

lemma gtd_order_witness:
  "\<exists>out q'. gtd_run (map Poll [1000000000, 1000000000]) [\<lparr>t_type = HELLO, t_data = [], t_time = 0\<rparr>, \<lparr>t_type = SEND, t_data = [], t_time = 0\<rparr>] = (out, q')
    \<and> map fst out = [\<lparr>t_type = SEND, t_data = [], t_time = 0\<rparr>, \<lparr>t_type = HELLO, t_data = [], t_time = 0\<rparr>] \<and> q' = []
    \<and> sorted_wrt (\<lambda>(t, _) (u, _). \<not> task_less u t) out"
proof -
  have run: "gtd_run (map Poll [1000000000, 1000000000]) [\<lparr>t_type = HELLO, t_data = [], t_time = 0\<rparr>, \<lparr>t_type = SEND, t_data = [], t_time = 0\<rparr>] =
      ([(\<lparr>t_type = SEND, t_data = [], t_time = 0\<rparr>, 1000000000), (\<lparr>t_type = HELLO, t_data = [], t_time = 0\<rparr>, 1000000000)], [])"
    by (simp add: gtd_poll_def to_time_t_def tq_pop_def task_greater_def less_task_type_def)
  from gtd_order [OF run] run show ?thesis by auto
qed

end
