(* ===== verification/Node.thy ===== *)
theory Node
  imports Reconcile Gtd
begin

text \<open>
  The threads of \<open>bin/p2p.cc\<close>, one round of each loop as a function: \<open>read_lines\<close>, \<open>mine\<close>,
  \<open>manage_connection\<close>, \<open>manage\<close> and \<open>serve\<close>. The globals they share are one record. What comes from
  outside is an argument: lines, clock readings, keys and nonces, the replies of peers, the order
  \<open>random_shuffle\<close> leaves, and whether an address can be connected to.
\<close>

section \<open>The state of a node\<close>

record connection =
  cn_ip :: bytes
  cn_queue :: task_queue

record node =
  nd_connections :: "connection list"
  nd_my_ip :: bytes
  nd_ip_list :: "bytes list"
  nd_seen :: "bytes list"
  nd_full_set :: "bytes list"
  nd_manager :: task_queue
  nd_chain :: chain
  nd_reconsiler :: reconsilers

abbreviation (input) N_CONN :: nat where "N_CONN \<equiv> 8"

definition task_of :: "task_type \<Rightarrow> bytes \<Rightarrow> task" where
  "task_of ty b = \<lparr>t_type = ty, t_data = b, t_time = 0\<rparr>"

text \<open>A string becomes a text of a message, and a text a string, as a C string: the conversions of \<open>kj\<close>
  are through \<open>c_str()\<close>, which ends at the first NUL.\<close>

definition c_str :: "bytes \<Rightarrow> bytes" where
  "c_str s = takeWhile (\<lambda>c. c \<noteq> 0) s"

text \<open>\<open>for (auto con : connections) con->gtd.add(task)\<close>\<close>

definition add_to_all :: "task \<Rightarrow> node \<Rightarrow> node" where
  "add_to_all t nd = nd\<lparr>nd_connections :=
     map (\<lambda>con. con\<lparr>cn_queue := gtd_add t (cn_queue con)\<rparr>) (nd_connections nd)\<rparr>"

section \<open>Reading lines and mining\<close>

text \<open>\<open>line.find("go") != npos\<close>\<close>

fun contains_go :: "bytes \<Rightarrow> bool" where
  "contains_go (a # b # s) \<longleftrightarrow> a = 103 \<and> b = 111 \<or> contains_go (b # s)"
| "contains_go _ \<longleftrightarrow> False"

definition read_line :: "capnp \<Rightarrow> bytes \<Rightarrow> node \<Rightarrow> node" where
  "read_line C line nd =
     (let nd = (if contains_go line
                then nd\<lparr>nd_manager := gtd_add (task_of SYNC_HASHSET []) (nd_manager nd)\<rparr> else nd);
          b = enc_msg C (Text_Msg (c_str line))
      in add_to_all (task_of SEND b) nd)"

text \<open>A round of \<open>mine\<close> with the time and the random nonce it uses.\<close>

definition mine_round :: "capnp \<Rightarrow> sodium \<Rightarrow> u64 \<Rightarrow> bytes \<Rightarrow> node \<Rightarrow> node result" where
  "mine_round C S time rnd nd =
     (let b = enc_block C \<lparr>bm_prev_hash = [], bm_tx_hash = [], bm_utxo_hash = [], bm_nonce = rnd, bm_time = time\<rparr>;
          h = hard_hash S b
      in bindR (vec_get h 0) (\<lambda>h0. Inr (if h0 = 0 then add_to_all (task_of SENDPRIORITY b) nd else nd)))"

section \<open>One connection\<close>

text \<open>The filter of everything the node has, as both sides send it.\<close>

definition full_filter :: "sodium \<Rightarrow> bytes \<Rightarrow> node \<Rightarrow> bloom_msg result" where
  "full_filter S key nd =
     bindR (bloom_new key 4999) (\<lambda>bl. bindR (bloom_add_all S (nd_full_set nd) bl) (\<lambda>bl.
     bindR (bloom_bytes bl) (\<lambda>b.
       Inr \<lparr>bs_p = word_of_int (bl_P bl), bs_data = b, bs_hash_key = bl_key bl\<rparr>)))"

text \<open>
  A task of \<open>manage_connection\<close>. \<open>peer\<close> is what \<open>sock.send\<close> followed by \<open>sock.recv\<close> gives; the
  replies to the last two requests are read with the types \<open>SetFilter\<close> and \<open>Set\<close> as the message's
  root.
\<close>

definition run_task ::
  "capnp \<Rightarrow> sodium \<Rightarrow> bytes \<Rightarrow> (bytes \<Rightarrow> bytes result) \<Rightarrow> task \<Rightarrow> node \<Rightarrow> node result" where
  "run_task C S key peer task nd =
     (case t_type task of
        HELLO \<Rightarrow> bindR (peer (enc_msg C (Hello (c_str (nd_my_ip nd)) 0))) (\<lambda>_. Inr nd)
      | SEND \<Rightarrow> bindR (peer (t_data task)) (\<lambda>_. Inr nd)
      | SENDPRIORITY \<Rightarrow> bindR (peer (t_data task)) (\<lambda>_. Inr nd)
      | REQ_IPS \<Rightarrow>
          bindR (peer (enc_msg C Get_Peers)) (\<lambda>reply. bindR (dec_msg C reply) (\<lambda>content.
            case content of
              Ip_List ips \<Rightarrow> Inr (nd\<lparr>nd_ip_list := fold (\<lambda>ip. set_insert (c_str ip)) ips (nd_ip_list nd)\<rparr>)
            | _ \<Rightarrow> Inl AssertFailed))
      | REQ_HASHSET_FILTER \<Rightarrow>
          bindR (peer (enc_msg C (Req_Set_Filter (Tx_Set_Hash (t_data task))))) (\<lambda>reply.
          bindR (dec_set_filter C reply) (\<lambda>(n, bl).
            if bs_p bl = 0 then Inr nd
            else
              bindR (bloom_load (bs_data bl) (scast (bs_p bl)) (bs_hash_key bl)) (\<lambda>bloom.
                Inr (nd\<lparr>nd_reconsiler := add_filter (t_data task) (sint (ucast n :: u32)) bloom (nd_reconsiler nd)\<rparr>))))
      | REQ_HASHSET \<Rightarrow>
          bindR (full_filter S key nd) (\<lambda>bl.
          bindR (peer (enc_msg C (Req_Set (Tx_Set_Hash (t_data task)) bl))) (\<lambda>reply.
          bindR (dec_set C reply) (\<lambda>hashset.
            Inr (nd\<lparr>nd_full_set := fold set_insert hashset (nd_full_set nd)\<rparr>))))
      | _ \<Rightarrow> Inr nd)"

section \<open>The manager\<close>

text \<open>
  Choosing an address: the addresses from \<open>ip_idx\<close> on and the variable \<open>new_ip\<close>, which is assigned
  before it is known whether the address is a new one.
\<close>

fun pick_ip :: "bytes list \<Rightarrow> bytes list \<Rightarrow> bytes \<Rightarrow> bytes \<times> bytes list" where
  "pick_ip current_ips [] new_ip = (new_ip, [])"
| "pick_ip current_ips (ip # ips) new_ip =
     (if ip \<notin> set current_ips then (ip, ip # ips) else pick_ip current_ips ips ip)"

text \<open>A new connection; its thread starts by putting in the task \<open>HELLO\<close>.\<close>

definition open_connection :: "(bytes \<Rightarrow> bool) \<Rightarrow> bytes \<Rightarrow> connection result" where
  "open_connection reachable ip = bindR (assertR (reachable ip) (Thrown ''couldn't connect'')) (\<lambda>_.
     Inr \<lparr>cn_ip = ip, cn_queue = gtd_add (task_of HELLO []) []\<rparr>)"

fun expand_loop ::
  "(bytes \<Rightarrow> bool) \<Rightarrow> nat \<Rightarrow> bytes list \<Rightarrow> bytes list \<Rightarrow> connection list \<Rightarrow> connection list result" where
  "expand_loop reachable 0 current_ips ips cons = Inr cons"
| "expand_loop reachable (Suc n) current_ips ips cons =
     (let (new_ip, ips) = pick_ip current_ips ips [] in
      if length new_ip \<noteq> 0
      then bindR (open_connection reachable new_ip) (\<lambda>con.
        expand_loop reachable n current_ips ips (cons @ [con]))
      else expand_loop reachable n current_ips ips cons)"

definition expand :: "(bytes \<Rightarrow> bool) \<Rightarrow> (bytes list \<Rightarrow> bytes list) \<Rightarrow> node \<Rightarrow> node result" where
  "expand reachable shuffle nd =
     (let desired = min N_CONN (length (nd_ip_list nd));
          n_new = desired - length (nd_connections nd);
          ips_tmp = shuffle (nd_ip_list nd);
          current_ips = set_insert (nd_my_ip nd)
            (fold (\<lambda>con. set_insert (cn_ip con)) (nd_connections nd) [])
      in bindR (expand_loop reachable n_new current_ips ips_tmp (nd_connections nd))
           (\<lambda>cons. Inr (nd\<lparr>nd_connections := cons\<rparr>)))"

definition replan :: "int \<Rightarrow> int \<Rightarrow> task \<Rightarrow> node \<Rightarrow> node" where
  "replan now ms task nd = nd\<lparr>nd_manager := gtd_add_in now ms task (nd_manager nd)\<rparr>"

definition sync_hashset :: "sodium \<Rightarrow> int \<Rightarrow> task \<Rightarrow> node \<Rightarrow> node result" where
  "sync_hashset S now task nd =
     (let h = t_data task; m = init_hash h (nd_reconsiler nd) in
      bindR (reconsiler_check S h m) (\<lambda>(ret, m). bindR (used ret) (\<lambda>done.
        if done then Inr (nd\<lparr>nd_reconsiler := m\<rparr>)
        else
          bindR (get_set_or_filter h m) (\<lambda>(get_set, m).
            let nd = nd\<lparr>nd_reconsiler := m\<rparr>;
                nd = add_to_all (task_of (if get_set then REQ_HASHSET else REQ_HASHSET_FILTER) h) nd
            in Inr (replan now 1000 task nd)))))"

definition manage_task ::
  "sodium \<Rightarrow> (bytes \<Rightarrow> bool) \<Rightarrow> (bytes list \<Rightarrow> bytes list) \<Rightarrow> int \<Rightarrow> task \<Rightarrow> node \<Rightarrow> node result" where
  "manage_task S reachable shuffle now task nd =
     (case t_type task of
        SYNC_HASHSET \<Rightarrow> sync_hashset S now task nd
      | REQ_IPS \<Rightarrow> Inr (replan now 10000 task (add_to_all (task_of REQ_IPS []) nd))
      | EXPAND_CONNECTION \<Rightarrow>
          bindR (expand reachable shuffle nd) (\<lambda>nd. Inr (replan now 20000 task nd))
      | _ \<Rightarrow> Inr nd)"

text \<open>What \<open>manage\<close> puts in before its loop.\<close>

definition manage_start :: "int \<Rightarrow> node \<Rightarrow> node" where
  "manage_start now nd =
     replan now 1000 (task_of EXPAND_CONNECTION []) (replan now 4000 (task_of REQ_IPS []) nd)"

section \<open>The server\<close>

text \<open>The transactions of a set the filter does not have, serialised.\<close>

fun missing_txs ::
  "capnp \<Rightarrow> sodium \<Rightarrow> bloom \<Rightarrow> bytes list \<Rightarrow> (bytes, ptx option) std_map \<Rightarrow>
   (bytes list \<times> (bytes, ptx option) std_map) result" where
  "missing_txs C S bl [] txs = Inr ([], txs)"
| "missing_txs C S bl (s # ss) txs =
     bindR (bloom_has S bl s) (\<lambda>has.
       if has then missing_txs C S bl ss txs
       else
         let (tx, txs) = map_index None txs s in
         case tx of
           None \<Rightarrow> Inl NullDeref
         | Some tx \<Rightarrow> bindR (missing_txs C S bl ss txs) (\<lambda>(bs, txs). Inr (ptx_bytes C tx # bs, txs)))"

text \<open>
  The \<open>switch\<close> of \<open>serve\<close> on a message with its bytes: the content of the response and the new
  state. A response nothing was put into has the first member of the union, an empty \<open>Hello\<close>.
\<close>

definition answer :: "capnp \<Rightarrow> sodium \<Rightarrow> bytes \<Rightarrow> bytes \<Rightarrow> content \<Rightarrow> node \<Rightarrow> (content \<times> node) result" where
  "answer C S key body content nd =
     (case content of
        Hello ip port \<Rightarrow> Inr (Welcome [], nd\<lparr>nd_ip_list := set_insert (c_str ip) (nd_ip_list nd)\<rparr>)
      | Get_Peers \<Rightarrow> Inr (Ip_List (map c_str (nd_ip_list nd)), nd)
      | Block b \<Rightarrow>
          let h = hard_hash S body in
          bindR (vec_get h 0) (\<lambda>h0. bindR (vec_get h 1) (\<lambda>h1.
            Inr (if h0 = 0 \<and> h1 = 0 then Ok [] else Reject [], nd)))
      | Transaction tx \<Rightarrow>
          bindR (process_transaction C S tx \<lparr>to_accounts = [], to_amounts = [], to_sigs = None\<rparr>)
            (\<lambda>(accepted, out). Inr (if accepted then Ok [] else Reject [], nd))
      | Text_Msg text \<Rightarrow>
          let h = hash S body;
              nd = (if h \<notin> set (nd_seen nd)
                    then add_to_all (task_of SEND body) (nd\<lparr>nd_seen := set_insert h (nd_seen nd)\<rparr>)
                    else nd)
          in Inr (Ok [], nd)
      | Req_Set_Filter req \<Rightarrow>
          bindR (full_filter S key nd) (\<lambda>bl. Inr (Set_Filter (of_nat (length (nd_full_set nd))) bl, nd))
      | Req_Set req bl \<Rightarrow>
          bindR (bloom_load (bs_data bl) (ucast (bs_p bl)) (bs_hash_key bl)) (\<lambda>bloom.
            case req of
              Tx_Set_Hash h \<Rightarrow>
                (case map_of (bc_hash_sets (nd_chain nd)) h of
                   None \<Rightarrow> Inr (Reject [], nd)
                 | Some hs \<Rightarrow>
                     bindR (missing_txs C S bloom hs (bc_txs (nd_chain nd))) (\<lambda>(bs, txs).
                       Inr (Set_Msg bs, nd\<lparr>nd_chain := (nd_chain nd)\<lparr>bc_txs := txs\<rparr>\<rparr>)))
            | _ \<Rightarrow> Inr (Hello [] 0, nd))
      | _ \<Rightarrow> Inr (Hello [] 0, nd))"

text \<open>A round of \<open>serve\<close>: the frames received and those sent back.\<close>

definition serve_round :: "capnp \<Rightarrow> sodium \<Rightarrow> bytes \<Rightarrow> bytes list \<Rightarrow> node \<Rightarrow> (bytes list \<times> node) result" where
  "serve_round C S key msg nd =
     bindR (vec_get msg 2) (\<lambda>body. bindR (dec_msg C body) (\<lambda>content.
     bindR (answer C S key body content nd) (\<lambda>(response, nd).
     bindR (vec_set msg 2 (enc_msg C response)) (\<lambda>msg. Inr (msg, nd)))))"

end
