(* ===== verification/Node_Steps.thy ===== *)
theory Node_Steps
  imports Node
begin

text \<open>
  Runs of a node: one step is one round of one of its threads, in any order. The invariant below
  holds in every reachable state.
\<close>

section \<open>Steps\<close>

text \<open>Taking a task from the queue of the \<open>i\<close>-th connection or of the manager at a clock reading.\<close>

definition take_connection_task :: "nat \<Rightarrow> int \<Rightarrow> node \<Rightarrow> (task \<times> node) option" where
  "take_connection_task i now nd =
     (if i < length (nd_connections nd)
      then (let con = nd_connections nd ! i in
        case gtd_poll now (cn_queue con) of
          Some (t, q) \<Rightarrow> Some (t, nd\<lparr>nd_connections := (nd_connections nd)[i := con\<lparr>cn_queue := q\<rparr>]\<rparr>)
        | None \<Rightarrow> None)
      else None)"

definition take_manager_task :: "int \<Rightarrow> node \<Rightarrow> (task \<times> node) option" where
  "take_manager_task now nd =
     (case gtd_poll now (nd_manager nd) of Some (t, q) \<Rightarrow> Some (t, nd\<lparr>nd_manager := q\<rparr>) | None \<Rightarrow> None)"

inductive node_step :: "capnp \<Rightarrow> sodium \<Rightarrow> node \<Rightarrow> node \<Rightarrow> bool" for C S where
  line: "node_step C S nd (read_line C text nd)"
| mine: "mine_round C S time rnd nd = Inr nd' \<Longrightarrow> node_step C S nd nd'"
| connection: "take_connection_task i now nd = Some (t, nd1) \<Longrightarrow> run_task C S key peer t nd1 = Inr nd' \<Longrightarrow>
    node_step C S nd nd'"
| manage: "take_manager_task now nd = Some (t, nd1) \<Longrightarrow> manage_task S reachable shuffle now t nd1 = Inr nd' \<Longrightarrow>
    node_step C S nd nd'"
| serve: "serve_round C S key msg nd = Inr (reply, nd') \<Longrightarrow> node_step C S nd nd'"

inductive_cases node_stepE: "node_step C S nd nd'"

text \<open>\<open>main\<close>: the node's address, the addresses on the command line and the random filler of the set;
  \<open>manage\<close> has put in its first two tasks.\<close>

definition node_init :: "int \<Rightarrow> bytes \<Rightarrow> bytes list \<Rightarrow> bytes list \<Rightarrow> node" where
  "node_init now con_str args filler = manage_start now
     \<lparr>nd_connections = [], nd_my_ip = con_str, nd_ip_list = fold set_insert args [],
      nd_seen = [], nd_full_set = fold set_insert filler [], nd_manager = [], nd_chain = chain_new,
      nd_reconsiler = []\<rparr>"

section \<open>The invariant\<close>

abbreviation (input) connection_tasks :: "task_type set" where
  "connection_tasks \<equiv> {HELLO, SEND, SENDPRIORITY, REQ_IPS, REQ_HASHSET_FILTER, REQ_HASHSET}"

abbreviation (input) manager_tasks :: "task_type set" where
  "manager_tasks \<equiv> {SYNC_HASHSET, REQ_IPS, EXPAND_CONNECTION}"

definition connection_ok :: "connection \<Rightarrow> bool" where
  "connection_ok con \<longleftrightarrow> cn_ip con \<noteq> [] \<and>
     (\<forall>t \<in> set (cn_queue con). t_time t = 0 \<and>
        t_type t \<in> connection_tasks)"

definition reconsilers_ok :: "reconsilers \<Rightarrow> bool" where
  "reconsilers_ok m \<longleftrightarrow> map_ok m \<and> (\<forall>h r. map_of m h = Some r \<longrightarrow> r = Some (sr_new h))"

definition node_ok :: "node \<Rightarrow> bool" where
  "node_ok nd \<longleftrightarrow> ascending (nd_ip_list nd) \<and> ascending (nd_seen nd) \<and> ascending (nd_full_set nd)
     \<and> length (nd_connections nd) \<le> N_CONN \<and> (\<forall>con \<in> set (nd_connections nd). connection_ok con)
     \<and> (\<forall>t \<in> set (nd_manager nd). t_type t \<in> manager_tasks)
     \<and> reconsilers_ok (nd_reconsiler nd)"

lemma set_gtd_add [simp]: "set (gtd_add t q) = insert (t\<lparr>t_time := 0\<rparr>) (set q)"
  by (auto simp: gtd_add_def tq_push_def)

lemma set_gtd_add_in [simp]:
  "set (gtd_add_in now ms t q) = insert (t\<lparr>t_time := to_time_t (now + ms * 1000000)\<rparr>) (set q)"
  by (auto simp: gtd_add_in_def tq_push_def)

lemma gtd_poll_set: "gtd_poll now q = Some (t, q') \<Longrightarrow> t \<in> set q \<and> set q' \<subseteq> set q"
  using set_remove1_subset by (fastforce simp: gtd_poll_Some tq_pop_def dest: tq_top_in)

lemma ascending_fold_insert: "ascending s \<Longrightarrow> ascending (fold set_insert xs s)"
  using std_set.ok_fold_insert by blast

lemma node_ok_update:
  assumes "node_ok nd"
  shows "ascending s \<Longrightarrow> node_ok (nd\<lparr>nd_ip_list := s\<rparr>)" and "ascending s \<Longrightarrow> node_ok (nd\<lparr>nd_seen := s\<rparr>)"
    and "ascending s \<Longrightarrow> node_ok (nd\<lparr>nd_full_set := s\<rparr>)" and "node_ok (nd\<lparr>nd_chain := ch\<rparr>)"
    and "reconsilers_ok m \<Longrightarrow> node_ok (nd\<lparr>nd_reconsiler := m\<rparr>)"
    and "t_type t \<in> manager_tasks \<Longrightarrow> node_ok (nd\<lparr>nd_manager := gtd_add t (nd_manager nd)\<rparr>)"
    and "t_type t \<in> manager_tasks \<Longrightarrow> node_ok (nd\<lparr>nd_manager := gtd_add_in now ms t (nd_manager nd)\<rparr>)"
    and "set q \<subseteq> set (nd_manager nd) \<Longrightarrow> node_ok (nd\<lparr>nd_manager := q\<rparr>)"
  using assms by (auto simp: node_ok_def)

lemma node_ok_parts:
  assumes "node_ok nd"
  shows "ascending (nd_ip_list nd)" and "ascending (nd_seen nd)" and "ascending (nd_full_set nd)"
    and "reconsilers_ok (nd_reconsiler nd)"
  using assms by (simp_all add: node_ok_def)

lemma node_ok_add_to_all:
  assumes "node_ok nd" and "t_type t \<in> connection_tasks"
  shows "node_ok (add_to_all t nd)"
proof -
  have "connection_ok (con\<lparr>cn_queue := gtd_add t (cn_queue con)\<rparr>)" if "connection_ok con" for con
    using that assms(2) unfolding connection_ok_def by auto
  with assms(1) show ?thesis unfolding node_ok_def add_to_all_def by auto
qed

lemma node_ok_replan:
  "node_ok nd \<Longrightarrow> t_type t \<in> manager_tasks \<Longrightarrow> node_ok (replan now ms t nd)"
  unfolding replan_def by (rule node_ok_update(7))

lemma reconsilers_ok_insert:
  "reconsilers_ok m \<Longrightarrow> reconsilers_ok (if \<not> map_count m h then map_assign h (Some (sr_new h)) m else m)"
  by (auto simp: reconsilers_ok_def)

lemma node_ok_read_line: "node_ok nd \<Longrightarrow> node_ok (read_line C text nd)"
  unfolding read_line_def Let_def task_of_def
  by (rule node_ok_add_to_all) (simp_all add: node_ok_update(6))

lemma node_ok_mine: "node_ok nd \<Longrightarrow> mine_round C S time rnd nd = Inr nd' \<Longrightarrow> node_ok nd'"
  by (auto simp: mine_round_def Let_def bindR_eq_Inr task_of_def intro!: node_ok_add_to_all)

lemma node_ok_take_connection:
  assumes "node_ok nd" and "take_connection_task i now nd = Some (t, nd1)"
  shows "node_ok nd1 \<and> t_type t \<in> connection_tasks"
proof -
  let ?con = "nd_connections nd ! i"
  obtain q where i: "i < length (nd_connections nd)" and poll: "gtd_poll now (cn_queue ?con) = Some (t, q)"
    and nd1: "nd1 = nd\<lparr>nd_connections := (nd_connections nd)[i := ?con\<lparr>cn_queue := q\<rparr>]\<rparr>"
    using assms(2) by (auto simp: take_connection_task_def Let_def split: if_splits option.splits)
  have con: "connection_ok ?con" using assms(1) i unfolding node_ok_def by simp
  with gtd_poll_set [OF poll] have ok: "connection_ok (?con\<lparr>cn_queue := q\<rparr>)"
    and ty: "t_type t \<in> connection_tasks"
    unfolding connection_ok_def by auto
  have "connection_ok con" if "con \<in> set ((nd_connections nd)[i := ?con\<lparr>cn_queue := q\<rparr>])" for con
    using that ok assms(1) set_update_subset_insert unfolding node_ok_def by fast
  with assms(1) have "node_ok nd1" unfolding nd1 node_ok_def by simp
  with ty show ?thesis by blast
qed

lemma run_task_ips:
  assumes "t_type t = REQ_IPS" and "run_task C S key peer t nd = Inr nd'"
  shows "\<exists>ips. nd' = nd\<lparr>nd_ip_list := fold (\<lambda>ip. set_insert (c_str ip)) ips (nd_ip_list nd)\<rparr>"
proof -
  from assms obtain c where "(case c of
      Ip_List ips \<Rightarrow> Inr (nd\<lparr>nd_ip_list := fold (\<lambda>ip. set_insert (c_str ip)) ips (nd_ip_list nd)\<rparr>)
    | _ \<Rightarrow> Inl AssertFailed) = Inr nd'"
    by (auto simp: run_task_def bindR_eq_Inr)
  then show ?thesis by (cases c) auto
qed

lemma node_ok_run_task:
  assumes "node_ok nd" and "run_task C S key peer t nd = Inr nd'"
  shows "node_ok nd'"
proof -
  have fold_c: "ascending (fold (\<lambda>ip. set_insert (c_str ip)) ips s)" if "ascending s" for ips and s :: "bytes list"
    using that by (induction ips arbitrary: s) simp_all
  have rec: "reconsilers_ok (add_filter h n bl m)" if "reconsilers_ok m" for h n bl m
    unfolding add_filter_def using reconsilers_ok_insert [OF that] .
  note ok = node_ok_parts [OF assms(1)] and upd = node_ok_update [OF assms(1)]
  show ?thesis
  proof (cases "t_type t")
    case REQ_IPS
    from run_task_ips [OF this assms(2)] obtain ips where
      "nd' = nd\<lparr>nd_ip_list := fold (\<lambda>ip. set_insert (c_str ip)) ips (nd_ip_list nd)\<rparr>" by blast
    then show ?thesis using upd(1) fold_c ok(1) by simp
  next
    case REQ_HASHSET_FILTER
    with assms(2) have "nd' = nd \<or> (\<exists>h n bl. nd' = nd\<lparr>nd_reconsiler := add_filter h n bl (nd_reconsiler nd)\<rparr>)"
      by (auto simp: run_task_def bindR_eq_Inr split: if_splits)
    then show ?thesis using assms(1) upd(5) rec ok(4) by blast
  next
    case REQ_HASHSET
    with assms(2) obtain hs where "nd' = nd\<lparr>nd_full_set := fold set_insert hs (nd_full_set nd)\<rparr>"
      by (auto simp: run_task_def bindR_eq_Inr)
    then show ?thesis using upd(3) ascending_fold_insert [OF ok(3)] by simp
  qed (use assms in \<open>auto simp: run_task_def bindR_eq_Inr\<close>)
qed

lemma expand_loop_ok:
  "expand_loop reachable n cur ips cons = Inr cons' \<Longrightarrow>
     length cons' \<le> length cons + n \<and> ((\<forall>con \<in> set cons. connection_ok con) \<longrightarrow> (\<forall>con \<in> set cons'. connection_ok con))"
proof (induction n arbitrary: ips cons)
  case (Suc n)
  obtain ip rest where pick: "pick_ip cur ips [] = (ip, rest)" by (cases "pick_ip cur ips []")
  show ?case
  proof (cases "length ip = 0")
    case False
    with Suc.prems pick obtain con where con: "open_connection reachable ip = Inr con"
      "expand_loop reachable n cur rest (cons @ [con]) = Inr cons'"
      by (auto simp: bindR_eq_Inr)
    then have "connection_ok con"
      using False by (auto simp: open_connection_def bindR_eq_Inr connection_ok_def task_of_def)
    with Suc.IH [OF con(2)] show ?thesis by auto
  qed (use Suc pick in fastforce)
qed simp

lemma node_ok_expand: "node_ok nd \<Longrightarrow> expand reachable shuffle nd = Inr nd' \<Longrightarrow> node_ok nd'"
proof -
  assume ok: "node_ok nd" and "expand reachable shuffle nd = Inr nd'"
  then obtain cur ips cons where loop: "expand_loop reachable (min N_CONN (length (nd_ip_list nd)) - length (nd_connections nd))
      cur ips (nd_connections nd) = Inr cons" and nd': "nd' = nd\<lparr>nd_connections := cons\<rparr>"
    by (auto simp: expand_def Let_def bindR_eq_Inr)
  from expand_loop_ok [OF loop] ok have "length cons \<le> N_CONN" "\<forall>con \<in> set cons. connection_ok con"
    unfolding node_ok_def by auto
  with ok show ?thesis unfolding nd' node_ok_def by simp
qed

lemma sync_hashset_stuck:
  assumes "reconsilers_ok (nd_reconsiler nd)"
  shows "sync_hashset S now t nd = Inl MissingReturn"
proof -
  let ?m = "init_hash (t_data t) (nd_reconsiler nd)"
  have "reconsilers_ok ?m" unfolding init_hash_def using reconsilers_ok_insert [OF assms] .
  moreover have "map_count ?m (t_data t)"
    using assms by (simp add: init_hash_def reconsilers_ok_def)
  ultimately have "map_of ?m (t_data t) = Some (Some (sr_new (t_data t)))"
    unfolding reconsilers_ok_def map_count_def by blast
  then have "reconsiler_check S (t_data t) ?m = Inr (None, ?m)"
    by (simp add: reconsiler_check_def map_count_def reconsiler_at_def map_index_def sr_check_def sr_new_def)
  then show ?thesis by (simp add: sync_hashset_def Let_def)
qed

lemma node_ok_manage:
  assumes "node_ok nd" and "t_type t \<in> manager_tasks"
    and "manage_task S reachable shuffle now t nd = Inr nd'"
  shows "node_ok nd'"
proof -
  have "reconsilers_ok (nd_reconsiler nd)" using assms(1) by (simp add: node_ok_def)
  from sync_hashset_stuck [OF this] assms show ?thesis
    by (auto simp: manage_task_def bindR_eq_Inr task_of_def node_ok_expand intro!: node_ok_replan node_ok_add_to_all)
qed

lemma node_ok_answer: "node_ok nd \<Longrightarrow> answer C S key body content nd = Inr (resp, nd') \<Longrightarrow> node_ok nd'"
proof -
  assume ok: "node_ok nd" and ans: "answer C S key body content nd = Inr (resp, nd')"
  note parts = node_ok_parts [OF ok] and upd = node_ok_update [OF ok]
  show ?thesis
  proof (cases content)
    case (Hello ip port)
    with ans upd(1) parts(1) show ?thesis by (auto simp: answer_def)
  next
    case (Text_Msg line)
    have "node_ok (add_to_all (task_of SEND body) (nd\<lparr>nd_seen := set_insert h (nd_seen nd)\<rparr>))" for h
      using upd(2) parts(2) by (intro node_ok_add_to_all) (simp_all add: task_of_def)
    with Text_Msg ans ok show ?thesis by (auto simp: answer_def Let_def split: if_splits)
  next
    case (Req_Set req bl)
    have "nd' = nd \<or> (\<exists>ch. nd' = nd\<lparr>nd_chain := ch\<rparr>)"
    proof (cases req)
      case (Tx_Set_Hash h)
      with Req_Set ans show ?thesis
        by (cases "map_of (bc_hash_sets (nd_chain nd)) h") (auto simp: answer_def bindR_eq_Inr)
    qed (use Req_Set ans in \<open>auto simp: answer_def bindR_eq_Inr\<close>)
    with ok upd(4) show ?thesis by blast
  qed (use ans ok in \<open>auto simp: answer_def bindR_eq_Inr Let_def\<close>)
qed

lemma node_ok_step: "node_step C S nd nd' \<Longrightarrow> node_ok nd \<Longrightarrow> node_ok nd'"
proof (induction rule: node_step.induct)
  case (connection i now nd t nd1 key peer nd')
  then show ?case using node_ok_take_connection node_ok_run_task by blast
next
  case (manage now nd t nd1 reachable shuffle nd')
  from manage(1) obtain q where "gtd_poll now (nd_manager nd) = Some (t, q)" "nd1 = nd\<lparr>nd_manager := q\<rparr>"
    by (auto simp: take_manager_task_def split: option.splits)
  with gtd_poll_set manage(3) have "node_ok nd1" "t_type t \<in> manager_tasks"
    by (fastforce simp: node_ok_def)+
  then show ?case using node_ok_manage manage(2) by blast
next
  case (serve key msg nd reply nd')
  then show ?case using node_ok_answer by (fastforce simp: serve_round_def bindR_eq_Inr)
qed (simp_all add: node_ok_read_line node_ok_mine)

lemma node_ok_init: "node_ok (node_init now con_str args filler)"
  by (simp add: node_init_def manage_start_def node_ok_def replan_def task_of_def reconsilers_ok_def
      ascending_fold_insert)

section \<open>Properties\<close>

text \<open>C4: in every state a node can reach, the sets of addresses, of texts seen and of known hashes are
  in order and without duplicates, there are at most eight connections, all with an address, and
  every queued task is one its thread handles, those of the connections due at once.\<close>

theorem node_invariant:
  assumes "(node_step C S)\<^sup>*\<^sup>* (node_init now con_str args filler) nd"
  shows "ascending (nd_ip_list nd) \<and> ascending (nd_seen nd) \<and> ascending (nd_full_set nd)
    \<and> length (nd_connections nd) \<le> N_CONN \<and> (\<forall>con \<in> set (nd_connections nd). connection_ok con)
    \<and> (\<forall>t \<in> set (nd_manager nd). t_type t \<in> manager_tasks)"
proof -
  from assms have "node_ok nd"
    by (induction rule: rtranclp_induct) (auto simp: node_ok_init dest: node_ok_step)
  then show ?thesis by (simp add: node_ok_def)
qed

lemma node_invariant_witness:
  "ascending (nd_ip_list (read_line toy_capnp [103, 111] (node_init 0 [1] [[2]] [])))"
proof -
  have "(node_step toy_capnp toy_sodium)\<^sup>*\<^sup>* (node_init 0 [1] [[2]] []) (read_line toy_capnp [103, 111] (node_init 0 [1] [[2]] []))"
    by (rule r_into_rtranclp) (rule node_step.line)
  from node_invariant [OF this] show ?thesis by blast
qed

text \<open>C38: a node never synchronises a set: in every reachable state, the task \<open>SYNC_HASHSET\<close>, which a line
  with \<open>go\<close> requests, ends in the value that \<open>BlockChainReconsiler::check\<close> does not return.\<close>

theorem sync_never_runs:
  assumes "(node_step C S)\<^sup>*\<^sup>* (node_init now con_str args filler) nd"
  shows "manage_task S reachable shuffle clock (task_of SYNC_HASHSET h) nd = Inl MissingReturn"
proof -
  from assms have "node_ok nd"
    by (induction rule: rtranclp_induct) (auto simp: node_ok_init dest: node_ok_step)
  then have "reconsilers_ok (nd_reconsiler nd)" by (simp add: node_ok_def)
  from sync_hashset_stuck [OF this] show ?thesis by (simp add: manage_task_def task_of_def)
qed

lemma sync_never_runs_witness:
  "manage_task toy_sodium (\<lambda>_. True) id 0 (task_of SYNC_HASHSET []) (node_init 0 [1] [[2]] []) = Inl MissingReturn"
  by (rule sync_never_runs [of toy_capnp toy_sodium 0 "[1]" "[[2]]" "[]"]) simp

end
