(* ===== verification/Bloom_Transfer.thy ===== *)
theory Bloom_Transfer
  imports Bloom
begin

text \<open>
  The filter on the wire: what \<open>Bloom::bytes\<close> writes and what the constructor for received data
  reads back. The bits survive exactly when \<open>P\<close> is not a multiple of eight.
\<close>

section \<open>Writing\<close>

lemma store_hits_partial:
  "n + length c < 8 \<Longrightarrow> i < length b \<Longrightarrow>
     store_hits (c @ hits) i n b = store_hits hits i (n + length c) (b[i := foldl shift_in (b ! i) c])"
  by (induction c arbitrary: n b) (simp_all add: Let_def)

lemma store_hits_byte:
  assumes "length c = 8" and "i < length b" and "b ! i = 0"
  shows "store_hits (c @ hits) i 0 b = store_hits hits (i + 1) 0 (b[i := word_of_bits c])"
proof -
  from assms(1) obtain c' h where c: "c = c' @ [h]" "length c' = 7"
    by (cases c rule: rev_cases) auto
  with store_hits_partial [of 0 c' i b "h # hits"] assms(2,3) show ?thesis
    by (simp add: word_of_bits_def)
qed

lemma store_hits_eq:
  "length b = i + (length hits + 7) div 8 \<Longrightarrow> (\<forall>j. i \<le> j \<and> j < length b \<longrightarrow> b ! j = 0) \<Longrightarrow>
     store_hits hits i 0 b = Inr (length hits mod 8,
       take i b @ full_bytes hits @
         (if length hits mod 8 = 0 then [] else [word_of_bits (drop (8 * (length hits div 8)) hits)]))"
proof (induction hits arbitrary: i b rule: full_bytes.induct)
  case (1 hits)
  consider "hits = []" | "0 < length hits" "length hits < 8" | "8 \<le> length hits" by fastforce
  then show ?case
  proof cases
    case 1
    with "1.prems" show ?thesis by simp
  next
    case 2
    then have "(length hits + 7) div 8 = 1" by linarith
    with "1.prems"(1) have len: "length b = Suc i" by simp
    with "1.prems"(2) have "b ! i = 0" by simp
    with 2 len store_hits_partial [of 0 hits i b "[]"] show ?thesis
      by (simp add: word_of_bits_def upd_conv_take_nth_drop)
  next
    case 3
    let ?c = "take 8 hits" and ?r = "drop 8 hits" and ?b = "b[i := word_of_bits (take 8 hits)]"
    from 3 have q: "(length hits + 7) div 8 = Suc ((length ?r + 7) div 8)" by (simp add: div_le_mono)
    with "1.prems" have i: "i < length b" "b ! i = 0" by simp_all
    have "store_hits hits i 0 b = store_hits ?r (i + 1) 0 ?b"
      using store_hits_byte [of ?c i b ?r] 3 i by simp
    also have "\<dots> = Inr (length ?r mod 8, take (i + 1) ?b @ full_bytes ?r @
        (if length ?r mod 8 = 0 then [] else [word_of_bits (drop (8 * (length ?r div 8)) ?r)]))"
      using 3 "1.prems" q by (intro "1.IH") auto
    also have "take (i + 1) ?b = take i b @ [word_of_bits ?c]"
      using i by (simp add: take_Suc_conv_app_nth)
    also have "length ?r mod 8 = length hits mod 8"
      using 3 by (simp add: le_mod_geq)
    also have "drop (8 * (length ?r div 8)) ?r = drop (8 * (length hits div 8)) hits"
      using 3 by (simp add: le_div_geq add.commute)
    finally show ?thesis using 3 by (simp add: full_bytes_long)
  qed
qed

lemma sdiv_pos: "0 \<le> a \<Longrightarrow> a sdiv 8 = a div 8" for a :: int
  by (cases "a = 0") (simp_all add: signed_divide_int_def)

lemma mod_0_imp_pos_div: "n mod 8 = 0 \<Longrightarrow> 0 < n \<Longrightarrow> 0 < n div 8" for n :: nat
  by (cases "n < 8") (simp_all add: div_greater_zero_iff)

text \<open>What is sent: the completed bytes, then the last partial byte with its bits at the top. With
  no partial byte the last completed one is shifted out.\<close>

definition wire_bytes :: "bool list \<Rightarrow> bytes" where
  "wire_bytes hits =
     (if length hits mod 8 = 0 then butlast (full_bytes hits) @ [0]
      else full_bytes hits @
        [push_bit (8 - length hits mod 8) (word_of_bits (drop (8 * (length hits div 8)) hits))])"

lemma bloom_bytes_eq:
  assumes "0 < P" and "P < 2 ^ 31 - 7" and "bl_P bl = P" and "length (bl_hits bl) = nat P"
  shows "bloom_bytes bl = Inr (wire_bytes (bl_hits bl))"
proof -
  let ?h = "bl_hits bl" and ?n = "nat P"
  have size: "nat ((P + 7) sdiv 8) = (?n + 7) div 8" and pos: "0 \<le> (P + 7) sdiv 8"
    using assms(1) by (simp_all add: sdiv_pos nat_div_distrib nat_add_distrib)
  have st: "store_hits ?h 0 0 (bytes_of_size ((?n + 7) div 8)) = Inr (?n mod 8, full_bytes ?h @
      (if ?n mod 8 = 0 then [] else [word_of_bits (drop (8 * (?n div 8)) ?h)]))"
    using store_hits_eq [of "bytes_of_size ((?n + 7) div 8)" 0 ?h] assms(4)
    by (simp add: bytes_of_size_def)
  show ?thesis
  proof (cases "?n mod 8 = 0")
    case True
    with assms(1,4) have "full_bytes ?h \<noteq> []"
      by (subst length_greater_0_conv [symmetric], subst length_full_bytes) (simp add: mod_0_imp_pos_div)
    then obtain fs x where fs: "full_bytes ?h = fs @ [x]" by (cases "full_bytes ?h" rule: rev_cases) auto
    have "push_bit 8 x = 0" by (rule bit_word_eqI) (simp add: bit_push_bit_iff)
    with True size pos st fs assms show ?thesis by (simp add: bloom_bytes_def wire_bytes_def Let_def)
  next
    case False
    with size pos st assms show ?thesis
      by (simp add: bloom_bytes_def wire_bytes_def Let_def list_update_append nth_append)
  qed
qed

lemma div_8_ceiling: "(n + 7) div 8 = n div 8 + (if n mod 8 = 0 then 0 else 1)" for n :: nat
  by presburger

lemma length_wire_bytes: "hits \<noteq> [] \<Longrightarrow> length (wire_bytes hits) = (length hits + 7) div 8"
  using mod_0_imp_pos_div [of "length hits"] unfolding div_8_ceiling by (auto simp: wire_bytes_def)

section \<open>Reading\<close>

definition wire_bit :: "bytes \<Rightarrow> nat \<Rightarrow> bool" where
  "wire_bit data i \<longleftrightarrow> bit (data ! (i div 8)) (7 - i mod 8)"

lemma load_hits_eq:
  "i + k \<le> 8 * length data \<Longrightarrow>
     load_hits data k (i mod 8) (i div 8) = Inr (map (wire_bit data) [i..<i + k])"
proof (induction k arbitrary: i)
  case (Suc k)
  have "(if i mod 8 + 1 = 8 then load_hits data k 0 (i div 8 + 1)
         else load_hits data k (i mod 8 + 1) (i div 8)) =
        load_hits data k ((i + 1) mod 8) ((i + 1) div 8)"
    by (simp add: mod_Suc div_Suc)
  also have "\<dots> = Inr (map (wire_bit data) [i + 1..<i + 1 + k])"
    using Suc.prems by (intro Suc.IH) simp
  finally have rest: "(if i mod 8 + 1 = 8 then load_hits data k 0 (i div 8 + 1)
         else load_hits data k (i mod 8 + 1) (i div 8)) = \<dots>" .
  have "i div 8 < length data" using Suc.prems by linarith
  moreover have "[i..<i + Suc k] = i # [i + 1..<i + 1 + k]" by (simp add: upt_conv_Cons)
  ultimately show ?case
    using rest by (simp add: Let_def wire_bit_def and_exp_eq_0_iff_not_bit del: One_nat_def)
qed simp

lemma load_hits_short:
  "8 * length data < i + k \<Longrightarrow> i \<le> 8 * length data \<Longrightarrow>
     load_hits data k (i mod 8) (i div 8) = Inl OutOfBounds"
proof (induction k arbitrary: i)
  case (Suc k)
  show ?case
  proof (cases "i div 8 < length data")
    case True
    have "(if i mod 8 + 1 = 8 then load_hits data k 0 (i div 8 + 1)
           else load_hits data k (i mod 8 + 1) (i div 8)) =
          load_hits data k ((i + 1) mod 8) ((i + 1) div 8)"
      by (simp add: mod_Suc div_Suc)
    also have "\<dots> = Inl OutOfBounds" using Suc.prems True by (intro Suc.IH) linarith+
    finally show ?thesis using True by (simp add: Let_def del: One_nat_def)
  qed (simp add: not_less)
qed simp

text \<open>The constructor for received data takes exactly the bits of the data when there are enough
  bytes for \<open>p\<close> bits, and reads past the end of the data otherwise: neither of its callers compares
  \<open>p\<close>, which the peer chose, with the size of the data.\<close>

lemma bloom_load_cases:
  assumes "unat p < 2 ^ 31"
  shows "bloom_load data p key =
    (if unat p \<le> 8 * length data
     then Inr \<lparr>bl_P = int (unat p), bl_hits = map (wire_bit data) [0..<unat p], bl_key = key, bl_n_on = 0\<rparr>
     else Inl OutOfBounds)"
  using load_hits_eq [of 0 "unat p" data] load_hits_short [of data 0 "unat p"] assms sint_ucast_small
  by (simp add: bloom_load_def)

section \<open>Both\<close>

lemma top_aligned: "m < r \<Longrightarrow> r < 8 \<Longrightarrow> 8 - r \<le> 7 - m \<and> 7 - m < 8 \<and> 7 - m - (8 - r) = r - 1 - m"
  for m r :: nat
  by arith

lemma wire_bit_wire_bytes:
  assumes "i < length hits"
  shows "wire_bit (wire_bytes hits) i \<longleftrightarrow>
    (if length hits mod 8 = 0 \<and> length hits \<le> i + 8 then False else hits ! i)"
proof -
  let ?L = "length hits" and ?q = "length hits div 8"
  have i: "8 * (i div 8) + i mod 8 = i" and L: "8 * ?q + ?L mod 8 = ?L" by simp_all
  have q: "i div 8 \<le> ?q" using assms by (simp add: div_le_mono)
  consider (cut) "?L mod 8 = 0" "?L \<le> i + 8" | (part) "?L mod 8 \<noteq> 0" "i div 8 = ?q"
    | (full) "\<not> (?L mod 8 = 0 \<and> ?L \<le> i + 8)" "?L mod 8 \<noteq> 0 \<longrightarrow> i div 8 < ?q"
    using q by fastforce
  then show ?thesis
  proof cases
    case cut
    then have "i div 8 = ?q - 1" using assms L by linarith
    then have "wire_bytes hits ! (i div 8) = 0" using cut by (simp add: wire_bytes_def nth_append)
    with cut show ?thesis by (simp add: wire_bit_def)
  next
    case part
    let ?r = "drop (8 * ?q) hits"
    have r: "i mod 8 < ?L mod 8" using assms part i L by linarith
    have len: "length ?r = ?L mod 8" unfolding length_drop using L by linarith
    have "wire_bit (wire_bytes hits) i \<longleftrightarrow>
        bit (push_bit (8 - ?L mod 8) (word_of_bits ?r) :: u8) (7 - i mod 8)"
      using part by (simp add: wire_bit_def wire_bytes_def nth_append)
    also have "\<dots> \<longleftrightarrow> bit (word_of_bits ?r :: u8) (?L mod 8 - 1 - i mod 8)"
    proof -
      have "?L mod 8 < 8" by simp
      from top_aligned [OF r this] have "8 - ?L mod 8 \<le> 7 - i mod 8" "7 - i mod 8 < 8"
          "7 - i mod 8 - (8 - ?L mod 8) = ?L mod 8 - 1 - i mod 8"
        by blast+
      then show ?thesis unfolding bit_push_bit_iff by simp
    qed
    also have "\<dots> \<longleftrightarrow> ?r ! (i mod 8)"
      using bit_word_of_bits_index [of "i mod 8" ?r, where 'a = 8] r unfolding len by simp
    also have "\<dots> \<longleftrightarrow> hits ! i" using part i assms by simp
    finally show ?thesis using part by simp
  next
    case full
    then have "i div 8 < ?q" using L by linarith
    moreover have "wire_bytes hits ! (i div 8) = full_bytes hits ! (i div 8)"
      using full L i \<open>i div 8 < ?q\<close> by (auto simp: wire_bytes_def nth_append nth_butlast)
    moreover have "i < 8 * ?q" using \<open>i div 8 < ?q\<close> i by linarith
    ultimately show ?thesis using full(1) bit_full_bytes [of i hits] by (auto simp: wire_bit_def)
  qed
qed

lemma bloom_bytes_load:
  assumes "0 < P" and "P < 2 ^ 31 - 7" and "bl_P bl = P" and "length (bl_hits bl) = nat P"
  shows "bindR (bloom_bytes bl) (\<lambda>d. bloom_load d (of_int P) key) =
    Inr \<lparr>bl_P = P,
         bl_hits = (if P mod 8 = 0 then take (nat P - 8) (bl_hits bl) @ replicate 8 False else bl_hits bl),
         bl_key = key, bl_n_on = 0\<rparr>"
proof -
  let ?h = "bl_hits bl"
  obtain n where P: "P = int n" using assms(1) by (metis nonneg_int_cases order_less_imp_le)
  with assms(1,2,4) have n: "0 < n" "n < 2 ^ 31" "length ?h = n" by simp_all
  then have ne: "?h \<noteq> []" by auto
  have u: "unat (of_int P :: u64) = n" using n unfolding P by (simp add: unat_of_nat take_bit_nat_eq_self)
  have len: "n \<le> 8 * length (wire_bytes ?h)"
    unfolding length_wire_bytes [OF ne] n(3) by linarith
  have w: "map (wire_bit (wire_bytes ?h)) [0..<n] =
      (if n mod 8 = 0 then take (n - 8) ?h @ replicate 8 False else ?h)"
  proof (cases "n mod 8 = 0")
    case True
    with n(1) have "8 \<le> n" by (metis mod_less not_le less_irrefl)
    with True n(3) show ?thesis
      by (intro nth_equalityI) (auto simp: wire_bit_wire_bytes nth_append)
  next
    case False
    with n(3) show ?thesis by (intro nth_equalityI) (simp_all add: wire_bit_wire_bytes)
  qed
  have "P mod 8 = 0 \<longleftrightarrow> n mod 8 = 0" unfolding P by presburger
  with bloom_load_cases [of "of_int P" "wire_bytes ?h" key] u len n(2) w show ?thesis
    by (simp add: bloom_bytes_eq [OF assms] P)
qed

text \<open>C33: what a peer rebuilds from the serialised bits of a filter: every bit when \<open>P\<close> is not a
  multiple of eight (the nodes use 4999), and otherwise all but the last eight, which come back
  cleared, so that elements of the set are reported missing.\<close>

theorem bloom_transfer:
  assumes "0 < P" and "P < 2 ^ 31 - 7" and "bl_P bl = P" and "length (bl_hits bl) = nat P"
  shows "bindR (bloom_bytes bl) (\<lambda>d. bloom_load d (of_int P) key) =
    Inr \<lparr>bl_P = P,
         bl_hits = (if P mod 8 = 0 then take (nat P - 8) (bl_hits bl) @ replicate 8 False else bl_hits bl),
         bl_key = key, bl_n_on = 0\<rparr>"
  using assms by (rule bloom_bytes_load)

lemma bloom_transfer_witness:
  "bindR (bloom_bytes \<lparr>bl_P = 8, bl_hits = replicate 8 True, bl_key = [], bl_n_on = 8\<rparr>)
     (\<lambda>d. bloom_load d 8 []) = Inr \<lparr>bl_P = 8, bl_hits = replicate 8 False, bl_key = [], bl_n_on = 0\<rparr>"
  using bloom_transfer [of 8 "\<lparr>bl_P = 8, bl_hits = replicate 8 True, bl_key = [], bl_n_on = 8\<rparr>" "[]"]
  by simp

end
