(* ===== verification/Node_Exchange.thy ===== *)
theory Node_Exchange
  imports Node_Steps Bloom_Transfer
begin

text \<open>
  What passes between nodes: addresses, texts, filters, and the work asked of blocks. The properties
  put the two ends of a request together, the connection of one node and the server of another.
\<close>

section \<open>New connections\<close>

lemma pick_ip_eq:
  "pick_ip cur ips new = (case dropWhile (\<lambda>ip. ip \<in> set cur) ips of
     [] \<Rightarrow> (if ips = [] then new else last ips, []) | ip # rest \<Rightarrow> (ip, ip # rest))"
  by (induction cur ips new rule: pick_ip.induct)
    (auto split: list.split simp del: dropWhile_eq_Nil_conv dest: sym [of "[]"])

definition fresh_connection :: "bytes \<Rightarrow> connection" where
  "fresh_connection ip = \<lparr>cn_ip = ip, cn_queue = [task_of HELLO []]\<rparr>"

lemma open_fresh: "reachable ip \<Longrightarrow> open_connection reachable ip = Inr (fresh_connection ip)"
  by (simp add: open_connection_def fresh_connection_def gtd_add_def tq_push_def task_of_def)

lemma expand_loop_repeats:
  "ip \<notin> set cur \<Longrightarrow> ip \<noteq> [] \<Longrightarrow> reachable ip \<Longrightarrow>
     expand_loop reachable n cur (ip # rest) cons = Inr (cons @ replicate n (fresh_connection ip))"
  by (induction n arbitrary: cons) (simp_all add: open_fresh replicate_append_same)

lemma expand_loop_empty: "expand_loop reachable n cur [] cons = Inr cons"
  by (induction n) simp_all

lemma expand_loop_eq:
  assumes "[] \<notin> set ips" and "\<forall>ip \<in> set ips. reachable ip"
  shows "expand_loop reachable (Suc n) cur ips cons = Inr (cons @
    (case dropWhile (\<lambda>ip. ip \<in> set cur) ips of
       [] \<Rightarrow> if ips = [] then [] else [fresh_connection (last ips)]
     | ip # rest \<Rightarrow> replicate (Suc n) (fresh_connection ip)))"
proof (cases "dropWhile (\<lambda>ip. ip \<in> set cur) ips")
  case Nil
  have "last ips \<noteq> []" "reachable (last ips)" if "ips \<noteq> []"
    using assms last_in_set [OF that] by auto
  then have "expand_loop reachable (Suc n) cur ips cons =
      Inr (cons @ (if ips = [] then [] else [fresh_connection (last ips)]))"
    unfolding expand_loop.simps pick_ip_eq Nil by (simp add: open_fresh expand_loop_empty)
  then show ?thesis unfolding Nil by simp
next
  case (Cons ip rest)
  then have "ip \<notin> set cur" by (metis dropWhile_eq_Cons_conv)
  moreover have "ip \<in> set ips" using Cons set_dropWhileD by (metis list.set_intros(1))
  then have "ip \<noteq> []" "reachable ip" using assms by auto
  ultimately show ?thesis
    using Cons expand_loop_repeats [of ip cur reachable n rest "cons @ [fresh_connection ip]"]
    by (simp add: pick_ip_eq open_fresh)
qed

definition current_addresses :: "node \<Rightarrow> bytes set" where
  "current_addresses nd = insert (nd_my_ip nd) (cn_ip ` set (nd_connections nd))"

text \<open>All the connections \<open>EXPAND_CONNECTION\<close> opens in one round go to one address: the first new one
  in the shuffled list, as many times as there are connections wanted; and when every address is
  already in use, one is opened to the last of the list all the same, be it a peer the node is
  connected to or its own address.\<close>

lemma expand_opens_one_address:
  assumes "[] \<notin> set (shuffle (nd_ip_list nd))" and "\<forall>ip \<in> set (shuffle (nd_ip_list nd)). reachable ip"
  shows "expand reachable shuffle nd =
    (let wanted = min N_CONN (length (nd_ip_list nd)) - length (nd_connections nd); ips = shuffle (nd_ip_list nd) in
     Inr (nd\<lparr>nd_connections := nd_connections nd @
       (if wanted = 0 then [] else
        case dropWhile (\<lambda>ip. ip \<in> current_addresses nd) ips of
          [] \<Rightarrow> if ips = [] then [] else [fresh_connection (last ips)]
        | ip # rest \<Rightarrow> replicate wanted (fresh_connection ip))\<rparr>))"
proof -
  let ?cur = "set_insert (nd_my_ip nd) (fold (\<lambda>con. set_insert (cn_ip con)) (nd_connections nd) [])"
  have "fold (\<lambda>con. set_insert (cn_ip con)) cs s = fold set_insert (map cn_ip cs) s" for cs :: "connection list" and s
    by (induction cs arbitrary: s) simp_all
  then have cur: "set ?cur = current_addresses nd"
    using std_set.set_fold_insert [of "[]" "map cn_ip (nd_connections nd)"] by (simp add: current_addresses_def)
  show ?thesis
  proof (cases "min N_CONN (length (nd_ip_list nd)) - length (nd_connections nd)")
    case 0
    then show ?thesis by (simp add: expand_def)
  next
    case (Suc n)
    then show ?thesis
      unfolding expand_def Let_def Suc expand_loop_eq [OF assms] cur by simp
  qed
qed

section \<open>Texts\<close>

lemma seen_run_task: "run_task C S key peer t nd = Inr nd' \<Longrightarrow> nd_seen nd' = nd_seen nd"
proof (cases "t_type t = REQ_IPS")
  case True
  moreover assume "run_task C S key peer t nd = Inr nd'"
  ultimately show ?thesis using run_task_ips by fastforce
next
  case False
  moreover assume "run_task C S key peer t nd = Inr nd'"
  ultimately show ?thesis by (cases "t_type t") (auto simp: run_task_def bindR_eq_Inr split: if_splits)
qed

lemma seen_manage: "manage_task S reachable shuffle now t nd = Inr nd' \<Longrightarrow> nd_seen nd' = nd_seen nd"
  by (cases "t_type t")
    (auto simp: manage_task_def bindR_eq_Inr replan_def add_to_all_def expand_def sync_hashset_def Let_def split: if_splits)

lemma seen_answer: "answer C S key body content nd = Inr (resp, nd') \<Longrightarrow> set (nd_seen nd) \<subseteq> set (nd_seen nd')"
proof (cases content)
  case (Req_Set req bl)
  moreover assume "answer C S key body content nd = Inr (resp, nd')"
  ultimately show ?thesis
  proof (cases req)
    case (Tx_Set_Hash h)
    moreover assume "answer C S key body content nd = Inr (resp, nd')"
    ultimately show ?thesis
      using Req_Set by (cases "map_of (bc_hash_sets (nd_chain nd)) h") (auto simp: answer_def bindR_eq_Inr)
  qed (auto simp: answer_def bindR_eq_Inr)
qed (auto simp: answer_def bindR_eq_Inr add_to_all_def Let_def split: if_splits)

lemma seen_step: "node_step C S nd nd' \<Longrightarrow> set (nd_seen nd) \<subseteq> set (nd_seen nd')"
proof (induction rule: node_step.induct)
  case (connection i now nd t nd1 key peer nd')
  then show ?case
    using seen_run_task by (fastforce simp: take_connection_task_def Let_def split: if_splits option.splits)
next
  case (manage now nd t nd1 reachable shuffle nd')
  then show ?case using seen_manage by (fastforce simp: take_manager_task_def split: option.splits)
next
  case (serve key msg nd reply nd')
  then show ?case using seen_answer by (fastforce simp: serve_round_def bindR_eq_Inr)
qed (auto simp: read_line_def mine_round_def add_to_all_def Let_def bindR_eq_Inr)

lemma serve_text:
  assumes "dec_msg C body = Inr (Text_Msg line)"
  shows "serve_round C S key [a, b, body] nd = Inr ([a, b, enc_msg C (Ok [])],
    if hash S body \<in> set (nd_seen nd) then nd
    else add_to_all (task_of SEND body) (nd\<lparr>nd_seen := set_insert (hash S body) (nd_seen nd)\<rparr>))"
  using assms by (simp add: serve_round_def answer_def Let_def numeral_2_eq_2)

text \<open>A text is passed on once: the first time it arrives, its bytes are queued for every connection,
  and from then on, in every later state, the same message is only acknowledged, which is what stops
  texts from going round in a ring of nodes.\<close>

lemma text_forwarded_once:
  assumes "dec_msg C body = Inr (Text_Msg line)" and "hash S body \<notin> set (nd_seen nd)"
  shows "\<exists>nd1. serve_round C S key [a, b, body] nd = Inr ([a, b, enc_msg C (Ok [])], nd1)
    \<and> map cn_queue (nd_connections nd1) = map (\<lambda>con. cn_queue con @ [task_of SEND body]) (nd_connections nd)
    \<and> (\<forall>nd2 key' a' b'. (node_step C S)\<^sup>*\<^sup>* nd1 nd2 \<longrightarrow>
         serve_round C S key' [a', b', body] nd2 = Inr ([a', b', enc_msg C (Ok [])], nd2))"
proof -
  let ?nd1 = "add_to_all (task_of SEND body) (nd\<lparr>nd_seen := set_insert (hash S body) (nd_seen nd)\<rparr>)"
  have "hash S body \<in> set (nd_seen nd2)" if "(node_step C S)\<^sup>*\<^sup>* ?nd1 nd2" for nd2
    using that
  proof (induction rule: rtranclp_induct)
    case base
    show ?case by (simp add: add_to_all_def)
  next
    case (step y z)
    then show ?case using seen_step by blast
  qed
  then have "serve_round C S key' [a', b', body] nd2 = Inr ([a', b', enc_msg C (Ok [])], nd2)"
    if "(node_step C S)\<^sup>*\<^sup>* ?nd1 nd2" for nd2 key' a' b'
    using that serve_text [OF assms(1)] by simp
  moreover have "map cn_queue (nd_connections ?nd1) = map (\<lambda>con. cn_queue con @ [task_of SEND body]) (nd_connections nd)"
    by (simp add: add_to_all_def gtd_add_def tq_push_def task_of_def)
  ultimately show ?thesis using serve_text [OF assms(1), of S key a b nd] assms(2) by auto
qed

section \<open>Addresses\<close>

text \<open>A peer that is served by another node: the frames a router socket sees around a request.\<close>

definition ask :: "capnp \<Rightarrow> sodium \<Rightarrow> bytes \<Rightarrow> bytes \<Rightarrow> node \<Rightarrow> bytes \<Rightarrow> bytes result" where
  "ask C S key ident server req =
     bindR (serve_round C S key [ident, [], req] server) (\<lambda>(reply, server). vec_get reply 2)"

lemma c_str_idem [simp]: "c_str (c_str s) = c_str s"
  unfolding c_str_def by (rule takeWhile_eq_all_conv [THEN iffD2]) (auto dest: set_takeWhileD)

lemma set_fold_c_str: "set (fold (\<lambda>ip. set_insert (c_str ip)) ips s) = c_str ` set ips \<union> set s"
  by (induction ips arbitrary: s) auto

text \<open>Asking a node for its peers makes the asker know every address that node knows, and keep all it
  knew; after a greeting, the address the asker gave is among those the other hands out.\<close>

lemma peers_learned:
  assumes "capnp_ok C" and "t_type t = REQ_IPS"
  shows "\<exists>client'. run_task C S key (ask C S key' ident server) t client = Inr client'
      \<and> set (nd_ip_list client') = set (nd_ip_list client) \<union> c_str ` set (nd_ip_list server)
    \<and> (\<exists>server'. serve_round C S key' [ident, [], enc_msg C (Hello (c_str (nd_my_ip client)) 0)] server =
         Inr ([ident, [], enc_msg C (Welcome [])], server')
       \<and> answer C S key' body Get_Peers server' = Inr (Ip_List (map c_str (nd_ip_list server')), server')
       \<and> c_str (nd_my_ip client) \<in> set (map c_str (nd_ip_list server')))"
proof -
  have "ask C S key' ident server (enc_msg C Get_Peers) = Inr (enc_msg C (Ip_List (map c_str (nd_ip_list server))))"
    by (simp add: ask_def serve_round_def capnp_okD [OF assms(1)] answer_def numeral_2_eq_2)
  then have "run_task C S key (ask C S key' ident server) t client =
      Inr (client\<lparr>nd_ip_list := fold (\<lambda>ip. set_insert (c_str ip)) (map c_str (nd_ip_list server)) (nd_ip_list client)\<rparr>)"
    using assms(2) by (simp add: run_task_def capnp_okD [OF assms(1)])
  moreover have "serve_round C S key' [ident, [], enc_msg C (Hello (c_str (nd_my_ip client)) 0)] server =
      Inr ([ident, [], enc_msg C (Welcome [])],
           server\<lparr>nd_ip_list := set_insert (c_str (nd_my_ip client)) (nd_ip_list server)\<rparr>)"
    by (simp add: serve_round_def capnp_okD [OF assms(1)] answer_def numeral_2_eq_2)
  ultimately show ?thesis by (auto simp: set_fold_c_str answer_def image_image image_Un)
qed

section \<open>Filters\<close>

text \<open>The filter a node sends, and what the bits, the size and the key in it say when they are read
  back: every hash the node has is in it, and besides only what shares a slot with one.\<close>

lemma full_filter_load:
  assumes "hash_lengths_ok S" and "SHORTHASH_KEYBYTES \<le> length key"
  shows "\<exists>m f. full_filter S key nd = Inr m \<and> bloom_load (bs_data m) (ucast (bs_p m)) (bs_hash_key m) = Inr f
    \<and> (\<forall>x. bloom_has S f x = Inr (\<exists>h \<in> set (nd_full_set nd). bloom_slot S key 4999 h = bloom_slot S key 4999 x))"
proof -
  obtain bl where bl: "bindR (bloom_new key 4999) (bloom_add_all S (nd_full_set nd)) = Inr bl"
      "\<forall>x. bloom_has S bl x = Inr (\<exists>h \<in> set (nd_full_set nd). bloom_slot S key 4999 h = bloom_slot S key 4999 x)"
      "length (bl_hits bl) = nat 4999" "bl_P bl = 4999" "bl_key bl = key" "bloom_ok bl"
    using bloom_filled [OF assms(1) _ _ assms(2), of 4999 "nd_full_set nd"] by auto
  let ?f = "\<lparr>bl_P = 4999, bl_hits = bl_hits bl, bl_key = key, bl_n_on = 0\<rparr>"
  have load: "bindR (bloom_bytes bl) (\<lambda>d. bloom_load d (of_int 4999) key) = Inr ?f"
    using bloom_bytes_load [of 4999 bl key] bl(3,4) by simp
  then obtain d where d: "bloom_bytes bl = Inr d" "bloom_load d 4999 key = Inr ?f"
    by (auto simp: bindR_eq_Inr)
  let ?m = "\<lparr>bs_p = 4999, bs_data = d, bs_hash_key = key\<rparr>"
  have "full_filter S key nd = Inr ?m"
    using bl(1,4,5) d(1) by (auto simp: full_filter_def bindR_eq_Inr)
  moreover have "bloom_has S ?f x = bloom_has S bl x" for x
    using bl(4,5) by (simp add: bloom_has_def bloom_hash_def)
  ultimately show ?thesis using d(2) bl(2) by (intro exI [of _ ?m] exI [of _ ?f]) simp
qed

lemma missing_txs_eq:
  assumes "\<forall>x. bloom_has S f x = Inr (P x)" and "\<forall>s \<in> set ss. map_of txs s = Some (Some (tx s))"
  shows "missing_txs C S f ss txs = Inr (map (\<lambda>s. ptx_bytes C (tx s)) (filter (\<lambda>s. \<not> P s) ss), txs)"
  using assms(2) by (induction ss) (simp_all add: assms(1) map_index_def)

text \<open>No operation of a node puts a set of hashes into the chain, so a running node refuses every
  request for a set.\<close>

lemma hash_sets_run_task: "run_task C S key peer t nd = Inr nd' \<Longrightarrow> nd_chain nd' = nd_chain nd"
proof (cases "t_type t = REQ_IPS")
  case True
  moreover assume "run_task C S key peer t nd = Inr nd'"
  ultimately show ?thesis using run_task_ips by fastforce
next
  case False
  moreover assume "run_task C S key peer t nd = Inr nd'"
  ultimately show ?thesis by (cases "t_type t") (auto simp: run_task_def bindR_eq_Inr split: if_splits)
qed

lemma hash_sets_manage: "manage_task S reachable shuffle now t nd = Inr nd' \<Longrightarrow> nd_chain nd' = nd_chain nd"
  by (cases "t_type t")
    (auto simp: manage_task_def bindR_eq_Inr replan_def add_to_all_def expand_def sync_hashset_def Let_def split: if_splits)

lemma hash_sets_answer:
  "answer C S key body content nd = Inr (resp, nd') \<Longrightarrow> bc_hash_sets (nd_chain nd) = [] \<Longrightarrow> bc_hash_sets (nd_chain nd') = []"
proof (cases content)
  case (Req_Set req bl)
  moreover assume "answer C S key body content nd = Inr (resp, nd')" "bc_hash_sets (nd_chain nd) = []"
  ultimately show ?thesis by (cases req) (auto simp: answer_def bindR_eq_Inr)
qed (auto simp: answer_def bindR_eq_Inr add_to_all_def Let_def split: if_splits)

lemma hash_sets_step: "node_step C S nd nd' \<Longrightarrow> bc_hash_sets (nd_chain nd) = [] \<Longrightarrow> bc_hash_sets (nd_chain nd') = []"
proof (induction rule: node_step.induct)
  case (connection i now nd t nd1 key peer nd')
  then show ?case
    using hash_sets_run_task by (fastforce simp: take_connection_task_def Let_def split: if_splits option.splits)
next
  case (manage now nd t nd1 reachable shuffle nd')
  then show ?case using hash_sets_manage by (fastforce simp: take_manager_task_def split: option.splits)
next
  case (serve key msg nd reply nd')
  then show ?case using hash_sets_answer by (fastforce simp: serve_round_def bindR_eq_Inr)
qed (auto simp: read_line_def mine_round_def add_to_all_def Let_def bindR_eq_Inr)

lemma set_requests_refused:
  assumes "(node_step C S)\<^sup>*\<^sup>* (node_init now con_str args filler) nd"
    and "answer C S key body (Req_Set (Tx_Set_Hash h) bl) nd = Inr (reply, nd')"
  shows "reply = Reject [] \<and> nd' = nd"
proof -
  from assms(1) have "bc_hash_sets (nd_chain nd) = []"
    by (induction rule: rtranclp_induct)
      (auto simp: node_init_def manage_start_def replan_def chain_new_def dest: hash_sets_step)
  with assms(2) show ?thesis by (auto simp: answer_def bindR_eq_Inr)
qed

text \<open>C34: a set is asked for and sent as the protocol means it. A node that runs the task
  \<open>REQ_HASHSET\<close> sends a request with the filter of all hashes it has; a node that has the set with that hash and
  its transactions answers with exactly those transactions of it, in its order and as bytes, whose
  hash shares no slot with one of the asker, so with none the asker has, and a node that does not have
  the set refuses; its own state does not change. The asker then reads the answer with the type
  \<open>Set\<close> although it is a \<open>Message\<close>, and takes for hashes what that gives. No code of the node fills
  the table of sets, so what a node started from the command line gives is always the refusal
  (\<open>set_requests_refused\<close>).\<close>

theorem set_request_answered:
  assumes "hash_lengths_ok S" and "SHORTHASH_KEYBYTES \<le> length key" and "capnp_ok C"
    and known: "\<forall>hs. map_of (bc_hash_sets (nd_chain server)) h = Some hs \<longrightarrow>
      (\<forall>s \<in> set hs. map_of (bc_txs (nd_chain server)) s = Some (Some (tx s)))"
  shows "\<exists>m. full_filter S key client = Inr m
    \<and> (let req = enc_msg C (Req_Set (Tx_Set_Hash h) m);
          has = (\<lambda>s. \<exists>x \<in> set (nd_full_set client). bloom_slot S key 4999 x = bloom_slot S key 4999 s);
          reply = enc_msg C (case map_of (bc_hash_sets (nd_chain server)) h of
            None \<Rightarrow> Reject []
          | Some hs \<Rightarrow> Set_Msg (map (\<lambda>s. ptx_bytes C (tx s)) (filter (\<lambda>s. \<not> has s) hs))) in
        serve_round C S key' [ident, [], req] server = Inr ([ident, [], reply], server)
        \<and> run_task C S key (ask C S key' ident server) (task_of REQ_HASHSET h) client =
            bindR (dec_set C reply) (\<lambda>hashset. Inr (client\<lparr>nd_full_set := fold set_insert hashset (nd_full_set client)\<rparr>)))"
proof -
  let ?has = "\<lambda>s. \<exists>x \<in> set (nd_full_set client). bloom_slot S key 4999 x = bloom_slot S key 4999 s"
  obtain m f where m: "full_filter S key client = Inr m"
    and f: "bloom_load (bs_data m) (ucast (bs_p m)) (bs_hash_key m) = Inr f" "\<forall>x. bloom_has S f x = Inr (?has x)"
    using full_filter_load [OF assms(1,2)] by blast
  let ?req = "enc_msg C (Req_Set (Tx_Set_Hash h) m)"
  let ?reply = "case map_of (bc_hash_sets (nd_chain server)) h of
      None \<Rightarrow> Reject [] | Some hs \<Rightarrow> Set_Msg (map (\<lambda>s. ptx_bytes C (tx s)) (filter (\<lambda>s. \<not> ?has s) hs))"
  have "answer C S key' ?req (Req_Set (Tx_Set_Hash h) m) server = Inr (?reply, server)"
  proof (cases "map_of (bc_hash_sets (nd_chain server)) h")
    case (Some hs)
    with known have "missing_txs C S f hs (bc_txs (nd_chain server)) =
        Inr (map (\<lambda>s. ptx_bytes C (tx s)) (filter (\<lambda>s. \<not> ?has s) hs), bc_txs (nd_chain server))"
      by (intro missing_txs_eq f(2)) blast
    with Some f(1) show ?thesis by (simp add: answer_def)
  qed (use f(1) in \<open>simp add: answer_def\<close>)
  then have served: "serve_round C S key' [ident, [], ?req] server = Inr ([ident, [], enc_msg C ?reply], server)"
    by (simp add: serve_round_def capnp_okD [OF assms(3)] numeral_2_eq_2)
  then have "ask C S key' ident server ?req = Inr (enc_msg C ?reply)" by (simp add: ask_def numeral_2_eq_2)
  then have "run_task C S key (ask C S key' ident server) (task_of REQ_HASHSET h) client =
      bindR (dec_set C (enc_msg C ?reply)) (\<lambda>hashset. Inr (client\<lparr>nd_full_set := fold set_insert hashset (nd_full_set client)\<rparr>))"
    by (simp add: run_task_def task_of_def m)
  with m served show ?thesis unfolding Let_def by blast
qed

text \<open>The server has two transactions in the set, of which the asker has one.\<close>

lemma set_request_answered_witness:
  "let t = (\<lambda>s. \<lparr>px_credits = [\<lparr>px_pub = s, px_amount = 0\<rparr>], px_witnesses = [[]]\<rparr>);
       client = node_init 0 [1] [] [[0, 0, 0, 7]];
       server = (node_init 0 [2] [] [])\<lparr>nd_chain := chain_new\<lparr>bc_hash_sets := [([1], [[0, 0, 0, 7], [0, 0, 0, 9]])],
         bc_txs := [([0, 0, 0, 7], Some (t [0, 0, 0, 7])), ([0, 0, 0, 9], Some (t [0, 0, 0, 9]))]\<rparr>\<rparr> in
    \<exists>m. full_filter toy_sodium (replicate 16 0) client = Inr m
      \<and> serve_round toy_capnp toy_sodium [] [[8], [], enc_msg toy_capnp (Req_Set (Tx_Set_Hash [1]) m)] server =
          Inr ([[8], [], enc_msg toy_capnp (Set_Msg [ptx_bytes toy_capnp (t [0, 0, 0, 9])])], server)"
proof -
  define t where "t = (\<lambda>s :: bytes. \<lparr>px_credits = [\<lparr>px_pub = s, px_amount = 0\<rparr>], px_witnesses = [[]]\<rparr>)"
  define client where "client = node_init 0 [1] [] [[0, 0, 0, 7]]"
  define server where "server = (node_init 0 [2] [] [])\<lparr>nd_chain := chain_new\<lparr>bc_hash_sets := [([1], [[0, 0, 0, 7], [0, 0, 0, 9]])],
         bc_txs := [([0, 0, 0, 7], Some (t [0, 0, 0, 7])), ([0, 0, 0, 9], Some (t [0, 0, 0, 9]))]\<rparr>\<rparr>"
  have hash: "shorthash toy_sodium k [0, 0, 0, b] = [0, 0, 0, 0, 0, 0, 0, b]" for k b
    by (simp add: toy_sodium_def toy_pad_def eval_nat_numeral)
  have slots: "bloom_slot toy_sodium (replicate 16 0) 4999 [0, 0, 0, 7] = 136"
    "bloom_slot toy_sodium (replicate 16 0) 4999 [0, 0, 0, 9] = 175"
    by (simp_all add: bloom_slot_def hash)
  have has: "nd_full_set client = [[0, 0, 0, 7]]" by (simp add: client_def node_init_def manage_start_def replan_def)
  have sets: "map_of (bc_hash_sets (nd_chain server)) [1] = Some [[0, 0, 0, 7], [0, 0, 0, 9]]"
    and txs: "\<forall>hs. map_of (bc_hash_sets (nd_chain server)) [1] = Some hs \<longrightarrow>
      (\<forall>s \<in> set hs. map_of (bc_txs (nd_chain server)) s = Some (Some (t s)))"
    by (simp_all add: server_def)
  from set_request_answered [OF toy_hash_lengths_ok _ toy_capnp_ok txs, of "replicate 16 0" client "[]" "[8]"] slots has sets
  show ?thesis unfolding Let_def t_def [symmetric] client_def [symmetric] server_def [symmetric] by auto
qed

section \<open>Work\<close>

text \<open>A hash that could not be computed passes for work: when libsodium's password hash fails, which it
  does when memory is short, the code goes on with the zero bytes it allocated, so the server takes
  any block and the miner publishes any nonce.\<close>

lemma failed_hash_is_work:
  assumes "pwhash S Interactive 32 body (hash_n S body PWHASH_SALTBYTES) = None"
  shows "answer C S key body (Block b) nd = Inr (Ok [], nd)
    \<and> (body = enc_block C \<lparr>bm_prev_hash = [], bm_tx_hash = [], bm_utxo_hash = [], bm_nonce = rnd, bm_time = time\<rparr>
        \<longrightarrow> mine_round C S time rnd nd = Inr (add_to_all (task_of SENDPRIORITY body) nd))"
proof -
  have "hard_hash S body = replicate 32 0"
    using assms by (simp add: hard_hash_def buffer_after_def bytes_of_size_def)
  then show ?thesis by (auto simp: answer_def mine_round_def Let_def)
qed

end
