(* ===== verification/Socket.thy ===== *)
theory Socket
  imports Prelude
begin

text \<open>
  \<open>src/socket.cc\<close>: the wrapper around ZeroMQ sockets. What the library decides is the parameter
  \<open>zmq\<close>: whether a socket can be created, bound or connected, whether there is memory for a frame and
  whether it accepts one. Starting an empty message and reading \<open>ZMQ_RCVMORE\<close> do not fail. A
  socket keeps the frames it has sent, each with its \<open>ZMQ_SNDMORE\<close> flag; what arrives at it is a list
  of frames, each with the value of \<open>ZMQ_RCVMORE\<close> after it, in which \<open>None\<close> is a failing
  \<open>zmq_msg_recv\<close>. When the list is used up, \<open>recv\<close> blocks.
\<close>

section \<open>Sockets\<close>

record zmq =
  zmq_socket :: "int \<Rightarrow> bool"
  zmq_bind :: "bytes \<Rightarrow> bool"
  zmq_connect :: "bytes \<Rightarrow> bool"
  zmq_alloc :: "nat \<Rightarrow> bool"
  zmq_send :: "(bytes \<times> bool) list \<Rightarrow> bytes \<times> bool \<Rightarrow> bool"

record socket =
  sk_addr :: bytes
  sk_type :: int
  sk_bound :: bool
  sk_sent :: "(bytes \<times> bool) list"
  sk_prefixes :: "bytes list"

text \<open>The numbers of \<open>zmq.h\<close>.\<close>

abbreviation (input) ZMQ_PUB :: int where "ZMQ_PUB \<equiv> 1"
abbreviation (input) ZMQ_SUB :: int where "ZMQ_SUB \<equiv> 2"
abbreviation (input) ZMQ_REQ :: int where "ZMQ_REQ \<equiv> 3"
abbreviation (input) ZMQ_REP :: int where "ZMQ_REP \<equiv> 4"
abbreviation (input) ZMQ_DEALER :: int where "ZMQ_DEALER \<equiv> 5"
abbreviation (input) ZMQ_ROUTER :: int where "ZMQ_ROUTER \<equiv> 6"

definition socket_connect :: "zmq \<Rightarrow> int \<Rightarrow> bytes \<Rightarrow> bool \<Rightarrow> socket result" where
  "socket_connect Z type addr bind =
     bindR (assertR (zmq_socket Z type) (Thrown ''Couldnt create socket'')) (\<lambda>_.
     bindR (if bind then assertR (zmq_bind Z addr) (Thrown ''couldn't connect'')
            else assertR (zmq_connect Z addr) (Thrown ''couldn't connect'')) (\<lambda>_.
       Inr \<lparr>sk_addr = addr, sk_type = type, sk_bound = bind, sk_sent = [], sk_prefixes = []\<rparr>))"

definition socket_new :: "zmq \<Rightarrow> int \<Rightarrow> bytes \<Rightarrow> socket result" where
  "socket_new Z type addr = socket_connect Z type addr
     (type = ZMQ_REP \<or> type = ZMQ_PUB \<or> type = ZMQ_ROUTER \<or> type = ZMQ_DEALER)"

definition socket_send :: "zmq \<Rightarrow> bytes \<Rightarrow> bool \<Rightarrow> socket \<Rightarrow> socket result" where
  "socket_send Z data sndmore s =
     bindR (assertR (zmq_alloc Z (length data)) (Thrown ''Failed msg init'')) (\<lambda>_.
     bindR (assertR (zmq_send Z (sk_sent s) (data, sndmore)) (Thrown ''Failed sending'')) (\<lambda>_.
       Inr (s\<lparr>sk_sent := sk_sent s @ [(data, sndmore)]\<rparr>)))"

text \<open>\<open>send_multi\<close> from index \<open>i\<close> on.\<close>

function send_from :: "zmq \<Rightarrow> bytes list \<Rightarrow> nat \<Rightarrow> socket \<Rightarrow> socket result" where
  "send_from Z msgs i s =
     (if i < length msgs
      then bindR (socket_send Z (msgs ! i) (i \<noteq> length msgs - 1) s) (send_from Z msgs (i + 1))
      else Inr s)"
  by pat_completeness auto
termination
  by (relation "measure (\<lambda>(Z, msgs, i, s). length msgs - i)") auto

declare send_from.simps [simp del]

definition send_multi :: "zmq \<Rightarrow> bytes list \<Rightarrow> socket \<Rightarrow> socket result" where
  "send_multi Z msgs s = send_from Z msgs 0 s"

type_synonym arrivals = "(bytes \<times> bool) option list"

definition socket_recv :: "arrivals \<Rightarrow> (bytes \<times> arrivals) result" where
  "socket_recv ins = (case ins of
       [] \<Rightarrow> Inl Stuck
     | None # ins \<Rightarrow> Inl (Thrown ''recieving failed failed'')
     | Some (data, _) # ins \<Rightarrow> Inr (data, ins))"

text \<open>The loop of \<open>recv_multi\<close> with the frames \<open>msgs\<close> received so far.\<close>

fun recv_frames :: "bytes list \<Rightarrow> arrivals \<Rightarrow> (bytes list \<times> arrivals) result" where
  "recv_frames msgs [] = Inl Stuck"
| "recv_frames msgs (None # ins) = Inl (Thrown ''recieving failed failed'')"
| "recv_frames msgs (Some (data, rcvmore) # ins) =
     (let msgs = msgs @ [data] in if \<not> rcvmore then Inr (msgs, ins) else recv_frames msgs ins)"

definition recv_multi :: "arrivals \<Rightarrow> (bytes list \<times> arrivals) result" where
  "recv_multi ins = recv_frames [] ins"

text \<open>The condition of the assertion is an assignment, whose value is never 0.\<close>

definition socket_subscribe :: "bytes \<Rightarrow> socket \<Rightarrow> socket result" where
  "socket_subscribe pref s =
     (let s = s\<lparr>sk_type := ZMQ_SUB\<rparr> in
      bindR (assertR (sk_type s \<noteq> 0) AssertFailed) (\<lambda>_. Inr (s\<lparr>sk_prefixes := sk_prefixes s @ [pref]\<rparr>)))"

text \<open>\<open>ident\<close> is what \<open>zmq_getsockopt\<close> writes to the start of the 255 blanks; all of them are returned.\<close>

definition get_id :: "bytes \<Rightarrow> bytes" where
  "get_id ident = (let name = replicate 255 32 in ident @ drop (length ident) name)"

section \<open>The context\<close>

text \<open>
  The singleton: \<open>None\<close> before the first use, otherwise whether the context of ZeroMQ still runs.
  \<open>shutdown\<close> runs the destructor and keeps the pointer, so a later \<open>inst\<close> gives the dead object.
\<close>

definition context_inst :: "bool \<Rightarrow> bool option \<Rightarrow> bool option result" where
  "context_inst created s =
     (case s of
        None \<Rightarrow> bindR (assertR created (Thrown ''Couldnt create context'')) (\<lambda>_. Inr (Some True))
      | Some _ \<Rightarrow> Inr s)"

definition context_shutdown :: "bool option \<Rightarrow> bool option" where
  "context_shutdown s = (case s of None \<Rightarrow> None | Some _ \<Rightarrow> Some False)"

section \<open>Messages of several frames\<close>

text \<open>The frames of a message, the last one without the flag.\<close>

fun framed :: "bytes list \<Rightarrow> (bytes \<times> bool) list" where
  "framed [] = []"
| "framed [m] = [(m, False)]"
| "framed (m # ms) = (m, True) # framed ms"

lemma framed_append: "ms \<noteq> [] \<Longrightarrow> framed (xs @ ms) = map (\<lambda>m. (m, True)) xs @ framed ms"
proof (induction xs)
  case (Cons x xs)
  then show ?case by (cases "xs @ ms") auto
qed simp

lemma send_from_framed:
  "send_from Z msgs i s = Inr s' \<Longrightarrow> sk_sent s' = sk_sent s @ framed (drop i msgs)"
proof (induction Z msgs i s rule: send_from.induct)
  case (1 Z msgs i s)
  show ?case
  proof (cases "i < length msgs")
    case True
    with "1.prems" obtain t where t: "socket_send Z (msgs ! i) (i \<noteq> length msgs - 1) s = Inr t"
        "send_from Z msgs (i + 1) t = Inr s'"
      by (subst (asm) send_from.simps) (auto simp: bindR_eq_Inr)
    have d: "drop i msgs = msgs ! i # drop (i + 1) msgs" using True by (simp add: Cons_nth_drop_Suc)
    have "framed (drop i msgs) = (msgs ! i, i \<noteq> length msgs - 1) # framed (drop (i + 1) msgs)"
    proof (cases "drop (i + 1) msgs")
      case Nil
      then have "length msgs - 1 = i" using True by simp
      with Nil show ?thesis by (simp add: d)
    next
      case (Cons m ms)
      then have "i + 1 < length msgs" by (metis drop_all list.distinct(1) not_le)
      with Cons show ?thesis by (simp add: d)
    qed
    moreover have "sk_sent t = sk_sent s @ [(msgs ! i, i \<noteq> length msgs - 1)]"
      using t(1) by (auto simp: socket_send_def bindR_eq_Inr)
    ultimately show ?thesis using "1.IH" [OF True t(1) t(2)] by simp
  next
    case False
    with "1.prems" show ?thesis by (subst (asm) send_from.simps) simp
  qed
qed

lemma recv_frames_framed:
  "ms \<noteq> [] \<Longrightarrow> recv_frames msgs (map Some (framed ms) @ ins) = Inr (msgs @ ms, ins)"
  by (induction ms arbitrary: msgs rule: framed.induct) (simp_all add: Let_def)

text \<open>A message of one or more frames that \<open>send_multi\<close> has put on a socket is taken off the other
  end by one call of \<open>recv_multi\<close>, frame by frame, without touching what follows it; an empty list is
  not sent at all, so the receiver goes on waiting.\<close>

lemma multipart_roundtrip:
  assumes "send_multi Z msgs s = Inr s'" and "sk_sent s = []"
  shows "(msgs \<noteq> [] \<longrightarrow> recv_multi (map Some (sk_sent s') @ ins) = Inr (msgs, ins))
    \<and> (msgs = [] \<longrightarrow> sk_sent s' = [] \<and> recv_multi (map Some (sk_sent s')) = Inl Stuck)"
proof -
  have "sk_sent s' = framed msgs" using send_from_framed [of Z msgs 0 s s'] assms by (simp add: send_multi_def)
  then show ?thesis using recv_frames_framed [of msgs "[]" ins] by (auto simp: recv_multi_def)
qed

definition toy_zmq :: zmq where
  "toy_zmq = \<lparr>zmq_socket = (\<lambda>_. True), zmq_bind = (\<lambda>_. True), zmq_connect = (\<lambda>_. True),
     zmq_alloc = (\<lambda>_. True), zmq_send = (\<lambda>_ _. True)\<rparr>"

end
