(* ===== verification/Node_Socket.thy ===== *)
theory Node_Socket
  imports Node_Exchange Socket
begin

text \<open>
  The server's loop over its socket: a round takes one message off the socket, answers it and sends
  the answer. A \<open>ROUTER\<close> socket puts the identity of the sender before the frames of the sender; a
  \<open>REQ\<close> client sends an empty frame and one with its message.
\<close>

definition serve_on_socket ::
  "zmq \<Rightarrow> capnp \<Rightarrow> sodium \<Rightarrow> bytes \<Rightarrow> arrivals \<Rightarrow> socket \<Rightarrow> node \<Rightarrow> (arrivals \<times> socket \<times> node) result" where
  "serve_on_socket Z C S key ins sock nd =
     bindR (recv_multi ins) (\<lambda>(msg, ins). bindR (serve_round C S key msg nd) (\<lambda>(msg, nd).
     bindR (send_multi Z msg sock) (\<lambda>sock. Inr (ins, sock, nd))))"

text \<open>What a client's message looks like when it arrives.\<close>

definition request_frames :: "bytes \<Rightarrow> bytes \<Rightarrow> arrivals" where
  "request_frames ident body = map Some (framed [ident, [], body])"

lemma framed_request: "framed [ident, [], body] = [(ident, True), ([], True), (body, False)]"
  by simp

lemma send_multi_total:
  assumes "\<And>fs f. zmq_send Z fs f" and "\<And>n. zmq_alloc Z n"
  shows "send_multi Z msgs s = Inr (s\<lparr>sk_sent := sk_sent s @ framed msgs\<rparr>)"
proof -
  have "\<exists>s'. send_from Z msgs i s = Inr s' \<and> (\<exists>fs. s' = s\<lparr>sk_sent := fs\<rparr>)" for i s
  proof (induction "length msgs - i" arbitrary: i s)
    case 0
    then show ?case by (subst send_from.simps) (auto intro: exI [of _ "sk_sent s"])
  next
    case (Suc d)
    then have "i < length msgs" by simp
    with Suc.hyps(1) [of "i + 1"] Suc.hyps(2) show ?case
      by (subst send_from.simps) (fastforce simp: socket_send_def assms)
  qed
  then obtain s' fs where s': "send_from Z msgs 0 s = Inr s'" "s' = s\<lparr>sk_sent := fs\<rparr>" by blast
  with send_from_framed [OF s'(1)] show ?thesis by (simp add: send_multi_def)
qed

text \<open>C22: the server answers every request it can answer with one message to the client it came from,
  and leaves the following requests alone; a message of fewer than three frames, which
  any \<open>DEALER\<close> socket can send, makes it read past the end of the received frames.\<close>

theorem serve_on_socket_replies:
  assumes zmq: "\<And>fs f. zmq_send Z fs f" "\<And>n. zmq_alloc Z n" and "dec_msg C body = Inr request"
    and "answer C S key body request nd = Inr (reply, nd')"
  shows "serve_on_socket Z C S key (request_frames ident body @ ins) sock nd =
      Inr (ins, sock\<lparr>sk_sent := sk_sent sock @ framed [ident, [], enc_msg C reply]\<rparr>, nd')
    \<and> (\<forall>msg. msg \<noteq> [] \<and> length msg < 3 \<longrightarrow>
        serve_on_socket Z C S key (map Some (framed msg) @ ins) sock nd = Inl OutOfBounds)"
proof -
  have "recv_multi (request_frames ident body @ ins) = Inr ([ident, [], body], ins)"
    unfolding request_frames_def recv_multi_def using recv_frames_framed [of "[ident, [], body]" "[]" ins] by simp
  moreover have "serve_round C S key [ident, [], body] nd = Inr ([ident, [], enc_msg C reply], nd')"
    using assms(3,4) by (simp add: serve_round_def numeral_2_eq_2)
  moreover have "serve_on_socket Z C S key (map Some (framed msg) @ ins) sock nd = Inl OutOfBounds"
    if "msg \<noteq> []" and "length msg < 3" for msg
    using recv_frames_framed [OF that(1), of "[]" ins] that(2)
    by (simp add: serve_on_socket_def recv_multi_def serve_round_def)
  ultimately show ?thesis using send_multi_total [OF zmq] by (simp add: serve_on_socket_def)
qed

lemma serve_on_socket_replies_witness:
  "serve_on_socket toy_zmq toy_capnp toy_sodium [] (request_frames [9] (enc_msg toy_capnp (Hello [5] 0)) @ [])
     \<lparr>sk_addr = [], sk_type = ZMQ_ROUTER, sk_bound = True, sk_sent = [], sk_prefixes = []\<rparr> (node_init 0 [1] [] [])
   = Inr ([], \<lparr>sk_addr = [], sk_type = ZMQ_ROUTER, sk_bound = True,
        sk_sent = [] @ framed [[9], [], enc_msg toy_capnp (Welcome [])], sk_prefixes = []\<rparr>,
      (node_init 0 [1] [] [])\<lparr>nd_ip_list := [[5]]\<rparr>)"
proof -
  have z: "zmq_send toy_zmq fs f" "zmq_alloc toy_zmq n" for fs f n by (simp_all add: toy_zmq_def)
  have d: "dec_msg toy_capnp (enc_msg toy_capnp (Hello [5] 0)) = Inr (Hello [5] 0)"
    by (rule capnp_okD [OF toy_capnp_ok])
  have "answer toy_capnp toy_sodium [] (enc_msg toy_capnp (Hello [5] 0)) (Hello [5] 0) (node_init 0 [1] [] [])
      = Inr (Welcome [], (node_init 0 [1] [] [])\<lparr>nd_ip_list := [[5]]\<rparr>)"
    by (simp add: answer_def node_init_def manage_start_def replan_def c_str_def)
  from serve_on_socket_replies [OF z d this, of "[9]" "[]"
      "\<lparr>sk_addr = [], sk_type = ZMQ_ROUTER, sk_bound = True, sk_sent = [], sk_prefixes = []\<rparr>"]
  show ?thesis by simp
qed

end
