(* ===== verification/Node_Schedule.thy ===== *)
theory Node_Schedule
  imports Node_Exchange
begin

text \<open>
  The schedule of the manager in \<open>bin/p2p.cc\<close>: \<open>manage\<close> puts two tasks into its own queue, and each of
  them puts itself in again when it is done. The queue is never without them and never has one twice.
\<close>

section \<open>Who touches the manager's queue\<close>

lemma manager_run_task: "run_task C S key peer t nd = Inr nd' \<Longrightarrow> nd_manager nd' = nd_manager nd"
proof (cases "t_type t = REQ_IPS")
  case True
  moreover assume "run_task C S key peer t nd = Inr nd'"
  ultimately show ?thesis using run_task_ips by fastforce
next
  case False
  moreover assume "run_task C S key peer t nd = Inr nd'"
  ultimately show ?thesis by (cases "t_type t") (auto simp: run_task_def bindR_eq_Inr split: if_splits)
qed

lemma manager_answer: "answer C S key body content nd = Inr (resp, nd') \<Longrightarrow> nd_manager nd' = nd_manager nd"
proof (cases content)
  case (Req_Set req bl)
  moreover assume "answer C S key body content nd = Inr (resp, nd')"
  ultimately show ?thesis
    by (cases req; cases "case req of Tx_Set_Hash h \<Rightarrow> map_of (bc_hash_sets (nd_chain nd)) h")
      (auto simp: answer_def bindR_eq_Inr)
qed (auto simp: answer_def bindR_eq_Inr add_to_all_def Let_def split: if_splits)

section \<open>The schedule\<close>

text \<open>The two tasks that come back, with their periods in seconds; lines with \<open>go\<close> add tasks of their own.\<close>

definition period :: "task_type \<Rightarrow> int" where
  "period ty = (if ty = REQ_IPS then 10 else 20)"

definition put_back :: "int \<Rightarrow> task \<Rightarrow> task" where
  "put_back clock t = t\<lparr>t_time := to_time_t (clock + period (t_type t) * 1000000000)\<rparr>"

definition scheduled :: "task_queue \<Rightarrow> task \<Rightarrow> task \<Rightarrow> bool" where
  "scheduled q a b \<longleftrightarrow> t_type a = REQ_IPS \<and> t_type b = EXPAND_CONNECTION
     \<and> (\<exists>k. mset q = {#a, b#} + replicate_mset k (task_of SYNC_HASHSET []))"

lemma scheduledI:
  "t_type a = REQ_IPS \<Longrightarrow> t_type b = EXPAND_CONNECTION \<Longrightarrow>
     mset q = {#a, b#} + replicate_mset k (task_of SYNC_HASHSET []) \<Longrightarrow> scheduled q a b"
  by (auto simp: scheduled_def)

lemma type_put_back [simp]: "t_type (put_back clock t) = t_type t"
  by (simp add: put_back_def)

lemma scheduled_add_sync: "scheduled q a b \<Longrightarrow> scheduled (gtd_add (task_of SYNC_HASHSET []) q) a b"
proof -
  assume "scheduled q a b"
  then obtain k where "t_type a = REQ_IPS" "t_type b = EXPAND_CONNECTION"
    "mset q = {#a, b#} + replicate_mset k (task_of SYNC_HASHSET [])" by (auto simp: scheduled_def)
  moreover have "mset (gtd_add (task_of SYNC_HASHSET []) q) = add_mset (task_of SYNC_HASHSET []) (mset q)"
    by (simp add: gtd_add_def tq_push_def task_of_def)
  ultimately show ?thesis unfolding scheduled_def by (intro conjI exI [of _ "Suc k"]) simp_all
qed

lemma scheduled_start: "\<exists>a b. scheduled (nd_manager (node_init now con_str args filler)) a b"
  unfolding scheduled_def
  by (rule exI, rule exI, intro conjI exI [of _ 0])
    (auto simp: node_init_def manage_start_def replan_def gtd_add_in_def tq_push_def task_of_def)

text \<open>What the manager does with a task it has taken: only the two of the schedule are handled without a
  failure, and they go back into the queue with their next time.\<close>

lemma manage_task_queue:
  assumes "manage_task S reachable shuffle clock t nd = Inr nd'" and "t_type t \<in> {REQ_IPS, EXPAND_CONNECTION}"
  shows "nd_manager nd' = nd_manager nd @ [put_back clock t]"
  using assms
  by (auto simp: manage_task_def bindR_eq_Inr replan_def gtd_add_in_def tq_push_def add_to_all_def expand_def
      put_back_def period_def Let_def)

lemma manager_round:
  assumes "scheduled (nd_manager nd) a b" and "reconsilers_ok (nd_reconsiler nd)"
    and "take_manager_task clock nd = Some (t, nd1)" and "manage_task S reachable shuffle clock t nd1 = Inr nd'"
  shows "t \<in> {a, b} \<and> mset (nd_manager nd') = mset (nd_manager nd) - {#t#} + {#put_back clock t#}"
proof -
  obtain q where poll: "gtd_poll clock (nd_manager nd) = Some (t, q)" and nd1: "nd1 = nd\<lparr>nd_manager := q\<rparr>"
    using assms(3) by (auto simp: take_manager_task_def split: option.splits)
  then have top: "tq_top (nd_manager nd) = Some t" and q: "mset q = mset (nd_manager nd) - {#t#}"
    using tq.bag_pop by (auto simp: gtd_poll_Some)
  have "t_type t \<noteq> SYNC_HASHSET"
    using sync_hashset_stuck [of nd1 S clock t] assms(2,4) nd1 by (auto simp: manage_task_def)
  moreover have "t \<in> {a, b} \<or> t_type t = SYNC_HASHSET"
  proof -
    obtain k where "mset (nd_manager nd) = {#a, b#} + replicate_mset k (task_of SYNC_HASHSET [])"
      using assms(1) by (auto simp: scheduled_def)
    with tq.top_in [OF top] show ?thesis by (auto simp: task_of_def split: if_splits)
  qed
  ultimately have t: "t \<in> {a, b}" by blast
  with assms(1) have "t_type t \<in> {REQ_IPS, EXPAND_CONNECTION}" by (auto simp: scheduled_def)
  from manage_task_queue [OF assms(4) this] t q show ?thesis by (simp add: nd1)
qed

lemma scheduled_put_back:
  assumes "scheduled q a b" and "t \<in> {a, b}" and "mset q' = mset q - {#t#} + {#put_back clock t#}"
  shows "\<exists>a b. scheduled q' a b"
proof -
  obtain k where ab: "t_type a = REQ_IPS" "t_type b = EXPAND_CONNECTION"
    and q: "mset q = {#a, b#} + replicate_mset k (task_of SYNC_HASHSET [])"
    using assms(1) by (auto simp: scheduled_def)
  show ?thesis
  proof (cases "t = a")
    case True
    with assms(3) q have "mset q' = {#put_back clock a, b#} + replicate_mset k (task_of SYNC_HASHSET [])" by simp
    from scheduledI [OF _ _ this] ab show ?thesis by auto
  next
    case False
    with assms(2,3) q have "mset q' = {#a, put_back clock b#} + replicate_mset k (task_of SYNC_HASHSET [])" by auto
    from scheduledI [OF _ _ this] ab show ?thesis by auto
  qed
qed

lemma scheduled_step:
  assumes "node_step C S nd nd'" and "node_ok nd" and "\<exists>a b. scheduled (nd_manager nd) a b"
  shows "\<exists>a b. scheduled (nd_manager nd') a b"
  using assms(1)
proof cases
  case (line l)
  then have "nd_manager nd' \<in> {nd_manager nd, gtd_add (task_of SYNC_HASHSET []) (nd_manager nd)}"
    by (simp add: read_line_def Let_def add_to_all_def)
  with assms(3) scheduled_add_sync show ?thesis by (elim insertE emptyE) metis+
next
  case (mine time rnd)
  then have "nd_manager nd' = nd_manager nd" by (auto simp: mine_round_def Let_def bindR_eq_Inr add_to_all_def)
  with assms(3) show ?thesis by simp
next
  case (connection i now t nd1 key peer)
  then have "nd_manager nd' = nd_manager nd1" using manager_run_task by blast
  moreover from connection have "nd_manager nd1 = nd_manager nd"
    by (auto simp: take_connection_task_def Let_def split: if_splits option.splits)
  ultimately show ?thesis using assms(3) by simp
next
  case (manage clock t nd1 reachable shuffle)
  from assms(3) obtain a b where ab: "scheduled (nd_manager nd) a b" by blast
  have "reconsilers_ok (nd_reconsiler nd)" using assms(2) by (simp add: node_ok_def)
  from manager_round [OF ab this manage] have "t \<in> {a, b}"
    and "mset (nd_manager nd') = mset (nd_manager nd) - {#t#} + {#put_back clock t#}" by blast+
  then show ?thesis by (rule scheduled_put_back [OF ab])
next
  case (serve key msg reply)
  then have "nd_manager nd' = nd_manager nd"
    using manager_answer by (fastforce simp: serve_round_def bindR_eq_Inr)
  with assms(3) show ?thesis by simp
qed

lemma scheduled_reachable:
  assumes "(node_step C S)\<^sup>*\<^sup>* (node_init now con_str args filler) nd"
  shows "node_ok nd \<and> (\<exists>a b. scheduled (nd_manager nd) a b)"
  using assms
proof (induction rule: rtranclp_induct)
  case (step y z)
  with node_ok_step [OF step.hyps(2)] scheduled_step [OF step.hyps(2)] show ?case by blast
qed (simp add: node_ok_init scheduled_start)

text \<open>C10: the manager's schedule neither dries up nor multiplies: in every reachable state its queue holds
  one task to ask for addresses, one to open connections, and otherwise only requests to synchronise;
  it takes a task exactly when the second of one of them is over; and a task it gets done is one of the two,
  which then stands in the queue again, due 10 or 20 seconds later.\<close>

theorem manager_schedule:
  assumes "(node_step C S)\<^sup>*\<^sup>* (node_init now con_str args filler) nd"
  shows "\<exists>a b. t_type a = REQ_IPS \<and> t_type b = EXPAND_CONNECTION
    \<and> (\<exists>k. mset (nd_manager nd) = {#a, b#} + replicate_mset k (task_of SYNC_HASHSET []))
    \<and> (\<forall>clock. take_manager_task clock nd = None \<longleftrightarrow> (\<forall>t \<in> set (nd_manager nd). to_time_t clock \<le> t_time t))
    \<and> (\<forall>clock t nd1 reachable shuffle nd'.
        take_manager_task clock nd = Some (t, nd1) \<and> manage_task S reachable shuffle clock t nd1 = Inr nd' \<longrightarrow>
        t \<in> {a, b} \<and> mset (nd_manager nd') = mset (nd_manager nd) - {#t#}
          + {#t\<lparr>t_time := to_time_t (clock + (if t = a then 10 else 20) * 1000000000)\<rparr>#})"
proof -
  from scheduled_reachable [OF assms] obtain a b where ab: "scheduled (nd_manager nd) a b"
    and rec: "reconsilers_ok (nd_reconsiler nd)" by (auto simp: node_ok_def)
  have types: "t_type a = REQ_IPS" "t_type b = EXPAND_CONNECTION" using ab by (simp_all add: scheduled_def)
  have "take_manager_task clock nd = None \<longleftrightarrow> (\<forall>t \<in> set (nd_manager nd). to_time_t clock \<le> t_time t)" for clock
  proof -
    have "nd_manager nd \<noteq> []" using ab by (auto simp: scheduled_def)
    then obtain t where t: "tq_top (nd_manager nd) = Some t" using tq_top_None by (cases "tq_top (nd_manager nd)") auto
    have "t_time t \<le> t_time u" if "u \<in> set (nd_manager nd)" for u
      using tq_top_least [OF t that] by (auto simp: task_less_def split: if_splits)
    moreover have "take_manager_task clock nd = None \<longleftrightarrow> \<not> t_time t < to_time_t clock"
      using t by (auto simp: take_manager_task_def gtd_poll_def split: option.splits)
    ultimately show ?thesis using tq_top_in [OF t] by force
  qed
  moreover have "put_back clock t = t\<lparr>t_time := to_time_t (clock + (if t = a then 10 else 20) * 1000000000)\<rparr>"
    if "t \<in> {a, b}" for clock t using that types by (auto simp: put_back_def period_def)
  moreover have "t \<in> {a, b} \<and> mset (nd_manager nd') = mset (nd_manager nd) - {#t#} + {#put_back clock t#}"
    if "take_manager_task clock nd = Some (t, nd1) \<and> manage_task S reachable shuffle clock t nd1 = Inr nd'"
    for clock t nd1 reachable shuffle nd' using manager_round [OF ab rec] that by blast
  moreover have "\<exists>k. mset (nd_manager nd) = {#a, b#} + replicate_mset k (task_of SYNC_HASHSET [])"
    using ab by (simp add: scheduled_def)
  ultimately show ?thesis using types by (intro exI [of _ a] exI [of _ b]) (simp add: insert_iff)
qed

text \<open>A node that has just started and been asked to synchronise.\<close>

lemma manager_schedule_witness:
  "\<exists>a b. t_type a = REQ_IPS \<and> t_type b = EXPAND_CONNECTION
    \<and> (\<exists>k. mset (nd_manager (read_line toy_capnp [103, 111] (node_init 0 [1] [[2]] []))) =
        {#a, b#} + replicate_mset k (task_of SYNC_HASHSET []))"
proof -
  have "(node_step toy_capnp toy_sodium)\<^sup>*\<^sup>* (node_init 0 [1] [[2]] []) (read_line toy_capnp [103, 111] (node_init 0 [1] [[2]] []))"
    by (rule r_into_rtranclp) (rule node_step.line)
  from manager_schedule [OF this] show ?thesis by blast
qed

end
