(* ===== verification/Flood.thy ===== *)
theory Flood
  imports Node_Exchange
begin

text \<open>
  A network of nodes that pass a text on. A step is one delivery: a connection's thread takes the text
  from its queue and sends it, and the node at the other end serves it. A text typed at one node is
  delivered a bounded number of times and reaches every node that can be reached.
\<close>

section \<open>Deliveries\<close>

definition is_copy :: "bytes \<Rightarrow> task \<Rightarrow> bool" where
  "is_copy body t \<longleftrightarrow> t_type t = SEND \<and> t_data t = body"

text \<open>\<open>addr\<close> finds the node behind an address.\<close>

inductive text_step ::
  "capnp \<Rightarrow> sodium \<Rightarrow> (bytes \<Rightarrow> nat) \<Rightarrow> bytes \<Rightarrow> node list \<Rightarrow> node list \<Rightarrow> bool" for C S addr body where
  deliver: "i < length net \<Longrightarrow> take_connection_task c now (net ! i) = Some (t, nd1) \<Longrightarrow> is_copy body t \<Longrightarrow>
    j = addr (cn_ip (nd_connections (net ! i) ! c)) \<Longrightarrow> j < length net \<Longrightarrow>
    run_task C S key (ask C S key' ident (net[i := nd1] ! j)) t nd1 = Inr nd2 \<Longrightarrow>
    serve_round C S key' [ident, [], t_data t] (net[i := nd2] ! j) = Inr (reply, nd3) \<Longrightarrow>
    text_step C S addr body net (net[i := nd2, j := nd3])"

definition seen_by :: "sodium \<Rightarrow> bytes \<Rightarrow> node \<Rightarrow> bool" where
  "seen_by S body nd \<longleftrightarrow> hash S body \<in> set (nd_seen nd)"

definition copies :: "bytes \<Rightarrow> node \<Rightarrow> nat" where
  "copies body nd = sum_list (map (\<lambda>con. length (filter (is_copy body) (cn_queue con))) (nd_connections nd))"

text \<open>The copies a node has queued or will queue.\<close>

definition burden :: "sodium \<Rightarrow> bytes \<Rightarrow> node \<Rightarrow> nat" where
  "burden S body nd = copies body nd + (if seen_by S body nd then 0 else length (nd_connections nd))"

definition potential :: "sodium \<Rightarrow> bytes \<Rightarrow> node list \<Rightarrow> nat" where
  "potential S body net = sum_list (map (burden S body) net)"

definition served_text :: "sodium \<Rightarrow> bytes \<Rightarrow> node \<Rightarrow> node" where
  "served_text S body nd = (if seen_by S body nd then nd
     else add_to_all (task_of SEND body) (nd\<lparr>nd_seen := set_insert (hash S body) (nd_seen nd)\<rparr>))"

lemma copies_add_to_all: "copies body (add_to_all (task_of SEND body) nd) = copies body nd + length (nd_connections nd)"
proof -
  have "sum_list (map (\<lambda>con. Suc (f con)) xs) = sum_list (map f xs) + length xs" for f :: "connection \<Rightarrow> nat" and xs
    by (induction xs) simp_all
  then show ?thesis
    by (simp add: copies_def add_to_all_def comp_def gtd_add_def tq_push_def task_of_def is_copy_def)
qed

lemma burden_served_text: "burden S body (served_text S body nd) = burden S body nd"
proof -
  have "copies body (nd\<lparr>nd_seen := s\<rparr>) = copies body nd" for s by (simp add: copies_def)
  moreover have "seen_by S body (add_to_all t (nd\<lparr>nd_seen := set_insert (hash S body) (nd_seen nd)\<rparr>))" for t
    by (simp add: seen_by_def add_to_all_def)
  ultimately show ?thesis by (simp add: burden_def served_text_def copies_add_to_all)
qed

text \<open>What one delivery does.\<close>

lemma text_step_cases:
  assumes "text_step C S addr body net net'" and "dec_msg C body = Inr (Text_Msg line)"
  obtains i c con q where "i < length net" and "c < length (nd_connections (net ! i))"
    and "con = nd_connections (net ! i) ! c" and "addr (cn_ip con) < length net"
    and "length (filter (is_copy body) q) + 1 = length (filter (is_copy body) (cn_queue con))"
    and "net' = (let net1 = net[i := (net ! i)\<lparr>nd_connections := (nd_connections (net ! i))[c := con\<lparr>cn_queue := q\<rparr>]\<rparr>];
        j = addr (cn_ip con) in net1[j := served_text S body (net1 ! j)])"
  using assms(1)
proof cases
  case (deliver i c now t nd1 j key key' ident nd2 reply nd3)
  let ?con = "nd_connections (net ! i) ! c"
  from deliver(3) obtain q where c: "c < length (nd_connections (net ! i))"
    and poll: "gtd_poll now (cn_queue ?con) = Some (t, q)"
    and nd1: "nd1 = (net ! i)\<lparr>nd_connections := (nd_connections (net ! i))[c := ?con\<lparr>cn_queue := q\<rparr>]\<rparr>"
    by (auto simp: take_connection_task_def Let_def split: if_splits option.splits)
  from poll have t: "t \<in> set (cn_queue ?con)" and q: "q = remove1 t (cn_queue ?con)"
    by (auto simp: gtd_poll_Some tq_pop_def dest: tq_top_in)
  have "nd2 = nd1" using deliver(4,7) by (auto simp: is_copy_def run_task_def bindR_eq_Inr)
  moreover have "nd3 = served_text S body (net[i := nd2] ! j)"
    using deliver(4,8) serve_text [OF assms(2), of S key' ident "[]" "net[i := nd2] ! j"]
    by (simp add: is_copy_def served_text_def seen_by_def)
  ultimately have "net' = (let net1 = net[i := (net ! i)\<lparr>nd_connections := (nd_connections (net ! i))[c := ?con\<lparr>cn_queue := q\<rparr>]\<rparr>];
        j = addr (cn_ip ?con) in net1[j := served_text S body (net1 ! j)])"
    using deliver(1,5) nd1 by (simp add: Let_def)
  moreover have "mset (cn_queue ?con) = add_mset t (mset q)" using t q by simp
  then have "size (filter_mset (is_copy body) (mset (cn_queue ?con))) = Suc (size (filter_mset (is_copy body) (mset q)))"
    using deliver(4) by simp
  then have "length (filter (is_copy body) q) + 1 = length (filter (is_copy body) (cn_queue ?con))"
    by (simp flip: mset_filter)
  ultimately show ?thesis using that [OF deliver(2) c refl] deliver(5,6) by blast
qed

section \<open>The number of deliveries\<close>

lemma text_step_potential:
  assumes "text_step C S addr body net net'" and "dec_msg C body = Inr (Text_Msg line)"
  shows "potential S body net' + 1 = potential S body net"
  using assms
proof (rule text_step_cases)
  fix i c con q
  assume i: "i < length net" and c: "c < length (nd_connections (net ! i))"
    and con: "con = nd_connections (net ! i) ! c" and j: "addr (cn_ip con) < length net"
    and q: "length (filter (is_copy body) q) + 1 = length (filter (is_copy body) (cn_queue con))"
  let ?nd = "(net ! i)\<lparr>nd_connections := (nd_connections (net ! i))[c := con\<lparr>cn_queue := q\<rparr>]\<rparr>"
  let ?j = "addr (cn_ip con)" and ?net1 = "net[i := ?nd]"
  assume net': "net' = (let net1 = ?net1; j = ?j in net1[j := served_text S body (net1 ! j)])"
  have "copies body ?nd + 1 = copies body (net ! i)"
    using sum_list_map_update [OF c, of "\<lambda>con. length (filter (is_copy body) (cn_queue con))" "con\<lparr>cn_queue := q\<rparr>" 1] q
    by (simp add: copies_def con)
  then have "burden S body ?nd + 1 = burden S body (net ! i)" by (simp add: burden_def seen_by_def)
  then have "potential S body ?net1 + 1 = potential S body net"
    unfolding potential_def by (rule sum_list_map_update [OF i])
  moreover have "potential S body net' + 0 = potential S body ?net1"
    unfolding potential_def net' Let_def using j by (intro sum_list_map_update) (simp_all add: burden_served_text)
  ultimately show ?thesis by simp
qed

section \<open>Where the text gets to\<close>

definition links :: "(bytes \<Rightarrow> nat) \<Rightarrow> node list \<Rightarrow> (nat \<times> nat) set" where
  "links addr net = {(i, addr (cn_ip con)) |i con. i < length net \<and> con \<in> set (nd_connections (net ! i))}"

text \<open>Every neighbour of a node that has the text has it too, or a copy is on its way; \<open>src\<close> is the
  node the text was typed at, which does not take note of it.\<close>

definition spreading :: "sodium \<Rightarrow> (bytes \<Rightarrow> nat) \<Rightarrow> bytes \<Rightarrow> nat \<Rightarrow> node list \<Rightarrow> bool" where
  "spreading S addr body src net \<longleftrightarrow> (\<forall>i < length net. i = src \<or> seen_by S body (net ! i) \<longrightarrow>
     (\<forall>con \<in> set (nd_connections (net ! i)).
        (\<exists>t \<in> set (cn_queue con). is_copy body t) \<or> seen_by S body (net ! addr (cn_ip con))))"

lemma served_text_facts:
  "seen_by S body (served_text S body nd)"
  "map cn_ip (nd_connections (served_text S body nd)) = map cn_ip (nd_connections nd)"
  "\<not> seen_by S body nd \<Longrightarrow> con \<in> set (nd_connections (served_text S body nd)) \<Longrightarrow>
     \<exists>t \<in> set (cn_queue con). is_copy body t"
  by (auto simp: served_text_def seen_by_def add_to_all_def is_copy_def task_of_def)

lemma links_eq: "links addr net = {(i, j). i < length net \<and> j \<in> addr ` set (map cn_ip (nd_connections (net ! i)))}"
  by (auto simp: links_def)

lemma links_same:
  assumes "length net' = length net"
    and "\<And>k. k < length net \<Longrightarrow> map cn_ip (nd_connections (net' ! k)) = map cn_ip (nd_connections (net ! k))"
  shows "links addr net' = links addr net"
  unfolding links_eq using assms by (simp add: case_prod_beta del: list.set_map cong: conj_cong)

lemma text_step_spreads:
  assumes step: "text_step C S addr body net net'" and dec: "dec_msg C body = Inr (Text_Msg line)"
    and spr: "spreading S addr body src net" and wf: "\<forall>(i, j) \<in> links addr net. j < length net"
  shows "spreading S addr body src net' \<and> links addr net' = links addr net \<and> length net' = length net"
  using step dec
proof (rule text_step_cases)
  fix i c con q
  assume i: "i < length net" and c: "c < length (nd_connections (net ! i))"
    and con: "con = nd_connections (net ! i) ! c" and j: "addr (cn_ip con) < length net"
  let ?nd = "(net ! i)\<lparr>nd_connections := (nd_connections (net ! i))[c := con\<lparr>cn_queue := q\<rparr>]\<rparr>"
  let ?j = "addr (cn_ip con)" and ?net1 = "net[i := ?nd]"
  assume "net' = (let net1 = ?net1; j = ?j in net1[j := served_text S body (net1 ! j)])"
  then have net': "net' = ?net1[?j := served_text S body (?net1 ! ?j)]" by (simp add: Let_def)
  have len: "length net' = length net" by (simp add: net')
  have seen1: "seen_by S body (?net1 ! k) = seen_by S body (net ! k)" for k
    using i by (cases "k = i") (simp_all add: seen_by_def)
  have seen: "seen_by S body (net' ! k) \<longleftrightarrow> seen_by S body (net ! k) \<or> k = ?j" if "k < length net" for k
    using that j seen1 served_text_facts(1) by (cases "k = ?j") (simp_all add: net')
  have "(map cn_ip (nd_connections (net ! i)))[c := cn_ip con] = map cn_ip (nd_connections (net ! i))"
    using c by (simp add: con list_update_same_conv)
  then have ips1: "map cn_ip (nd_connections (?net1 ! k)) = map cn_ip (nd_connections (net ! k))" for k
    using i by (cases "k = i") (simp_all add: map_update)
  have "map cn_ip (nd_connections (net' ! k)) = map cn_ip (nd_connections (net ! k))" if "k < length net" for k
    using that j ips1 served_text_facts(2) by (cases "k = ?j") (simp_all add: net')
  with len have lk: "links addr net' = links addr net" by (rule links_same)
  have "(\<exists>t \<in> set (cn_queue con'). is_copy body t) \<or> seen_by S body (net' ! addr (cn_ip con'))"
    if k: "k < length net" "k = src \<or> seen_by S body (net' ! k)" and con': "con' \<in> set (nd_connections (net' ! k))"
    for k con'
  proof (cases "k = ?j \<and> \<not> seen_by S body (net ! k)")
    case True
    with seen1 have "\<not> seen_by S body (?net1 ! ?j)" by blast
    moreover have "con' \<in> set (nd_connections (served_text S body (?net1 ! ?j)))"
      using con' j True by (simp add: net')
    ultimately show ?thesis using served_text_facts(3) by blast
  next
    case False
    then have same: "net' ! k = ?net1 ! k" using j seen1 by (auto simp: net' served_text_def nth_list_update)
    from False k have old: "k = src \<or> seen_by S body (net ! k)" using seen by auto
    obtain e where e: "e < length (nd_connections (?net1 ! k))" "con' = nd_connections (?net1 ! k) ! e"
      using con' same by (metis in_set_conv_nth)
    show ?thesis
    proof (cases "k = i \<and> e = c")
      case True
      then have "cn_ip con' = cn_ip con" using e i c by simp
      then show ?thesis using seen [OF j] by simp
    next
      case False
      then have "con' \<in> set (nd_connections (net ! k))" using e i k(1) by (cases "k = i") auto
      moreover from this have "addr (cn_ip con') < length net" using wf k(1) by (auto simp: links_def)
      ultimately show ?thesis using spr old k(1) seen unfolding spreading_def by blast
    qed
  qed
  then have "spreading S addr body src net'" by (simp add: spreading_def len)
  with lk len show ?thesis by simp
qed

lemma text_run:
  assumes run: "(text_step C S addr body ^^ n) net net'" and dec: "dec_msg C body = Inr (Text_Msg line)"
    and spr: "spreading S addr body src net" and wf: "\<forall>(i, j) \<in> links addr net. j < length net"
  shows "n + potential S body net' = potential S body net \<and> spreading S addr body src net'
    \<and> links addr net' = links addr net \<and> length net' = length net"
  using run
proof (induction n arbitrary: net')
  case (Suc n)
  then obtain mid where mid: "(text_step C S addr body ^^ n) net mid" "text_step C S addr body mid net'" by auto
  from Suc.IH [OF mid(1)] text_step_potential [OF mid(2) dec] text_step_spreads [OF mid(2) dec, of src] wf
  show ?case by simp
qed (use spr in simp)

lemma spread_reaches:
  assumes spr: "spreading S addr body src net" and none: "\<forall>nd \<in> set net. copies body nd = 0"
    and wf: "\<forall>(i, j) \<in> links addr net. j < length net" and path: "(src, j) \<in> (links addr net)\<^sup>+"
  shows "seen_by S body (net ! j)"
proof -
  have hop: "seen_by S body (net ! y)" if "(x, y) \<in> links addr net" and "x = src \<or> seen_by S body (net ! x)" for x y
  proof -
    from that(1) obtain con where x: "x < length net" "con \<in> set (nd_connections (net ! x))" "y = addr (cn_ip con)"
      by (auto simp: links_def)
    from none x(1) have "copies body (net ! x) = 0" by simp
    then have "length (filter (is_copy body) (cn_queue con)) = 0" using x(2) by (simp add: copies_def)
    then have "\<not> (\<exists>t \<in> set (cn_queue con). is_copy body t)" by (simp add: filter_empty_conv)
    with spr that(2) x show ?thesis unfolding spreading_def by blast
  qed
  from path show ?thesis by (induction rule: trancl_induct) (use hop in blast)+
qed

text \<open>C7: a text typed at a node, which is sent up to its first NUL, spreads through the network and comes to rest: every delivery uses up
  one unit of a fixed amount, the number of connections of all nodes and once more those of the node
  it was typed at, so there are never more deliveries than that, rings of nodes or not; and when no
  copy is queued any more, every node that can be reached over connections has seen the text.\<close>

theorem text_floods_network:
  assumes C: "capnp_ok C" and body: "body = enc_msg C (Text_Msg (c_str line))"
    and fresh: "\<forall>nd \<in> set net0. \<not> seen_by S body nd \<and> copies body nd = 0"
    and src: "src < length net0" and wf: "\<forall>(i, j) \<in> links addr net0. j < length net0"
    and run: "(text_step C S addr body ^^ n) (net0[src := read_line C line (net0 ! src)]) net"
  shows "n + potential S body net =
      length (nd_connections (net0 ! src)) + sum_list (map (length \<circ> nd_connections) net0)
    \<and> ((\<forall>nd \<in> set net. copies body nd = 0) \<longrightarrow>
        (\<forall>j. (src, j) \<in> (links addr net0)\<^sup>+ \<longrightarrow> seen_by S body (net ! j)))"
proof -
  let ?nd = "read_line C line (net0 ! src)" and ?net = "net0[src := read_line C line (net0 ! src)]"
  have dec: "dec_msg C body = Inr (Text_Msg (c_str line))" by (simp add: body capnp_okD [OF C])
  define nd1 where "nd1 = (if contains_go line then (net0 ! src)\<lparr>nd_manager :=
      gtd_add (task_of SYNC_HASHSET []) (nd_manager (net0 ! src))\<rparr> else net0 ! src)"
  have nd: "?nd = add_to_all (task_of SEND body) nd1" by (simp add: read_line_def nd1_def body Let_def)
  have nd1: "nd_connections nd1 = nd_connections (net0 ! src)" "nd_seen nd1 = nd_seen (net0 ! src)"
    by (simp_all add: nd1_def)
  have old: "\<not> seen_by S body (net0 ! src)" "copies body (net0 ! src) = 0" using fresh src by simp_all
  have b0: "burden S body (net0 ! k) = length (nd_connections (net0 ! k))" if "k < length net0" for k
    using fresh that by (simp add: burden_def)
  have ips: "map cn_ip (nd_connections ?nd) = map cn_ip (nd_connections (net0 ! src))"
    by (simp add: nd add_to_all_def nd1)
  have unseen: "\<not> seen_by S body ?nd" using old(1) by (simp add: nd seen_by_def add_to_all_def nd1)
  have "copies body nd1 = copies body (net0 ! src)" by (simp add: copies_def nd1)
  then have "copies body ?nd = length (nd_connections (net0 ! src))"
    using old(2) by (simp add: nd copies_add_to_all nd1)
  then have burden: "burden S body ?nd = burden S body (net0 ! src) + length (nd_connections (net0 ! src))"
    using unseen ips b0 [OF src] by (simp add: burden_def) (metis length_map)
  have "map (burden S body) net0 = map (length \<circ> nd_connections) net0"
    using b0 by (intro nth_equalityI) simp_all
  then have "potential S body net0 = sum_list (map (length \<circ> nd_connections) net0)"
    unfolding potential_def by (rule arg_cong)
  moreover have "potential S body ?net = potential S body net0 + length (nd_connections (net0 ! src))"
    using sum_list_map_update [of src ?net "burden S body" "net0 ! src" "length (nd_connections (net0 ! src))"] src burden
    by (simp add: potential_def)
  ultimately have pot: "potential S body ?net =
      length (nd_connections (net0 ! src)) + sum_list (map (length \<circ> nd_connections) net0)"
    by simp
  have "\<not> seen_by S body (?net ! i)" if "i < length net0" for i
    using fresh unseen that by (cases "i = src") simp_all
  moreover have "\<exists>t \<in> set (cn_queue con). is_copy body t" if "con \<in> set (nd_connections ?nd)" for con
    using that by (auto simp: nd add_to_all_def is_copy_def task_of_def)
  ultimately have spr: "spreading S addr body src ?net" using src by (auto simp: spreading_def)
  have lk: "links addr ?net = links addr net0"
    using ips src by (intro links_same) (auto simp: nth_list_update)
  with text_run [OF run dec spr] wf have n: "n + potential S body net = potential S body ?net"
      "spreading S addr body src net" "links addr net = links addr net0" "length net = length net0" by simp_all
  with spread_reaches [OF n(2)] wf pot show ?thesis by simp
qed

definition linked_node :: "bytes \<Rightarrow> bytes list \<Rightarrow> node" where
  "linked_node ip ips = (node_init 0 ip [] [])\<lparr>nd_connections := map (\<lambda>ip. \<lparr>cn_ip = ip, cn_queue = []\<rparr>) ips\<rparr>"

text \<open>Two nodes with connections to each other, after the first delivery.\<close>

lemma text_floods_network_witness:
  "\<exists>net. (text_step toy_capnp toy_sodium (\<lambda>ip. length ip - 1) (enc_msg toy_capnp (Text_Msg [104])) ^^ 1)
      ([linked_node [1] [[2, 2]], linked_node [2, 2] [[1]]][0 := read_line toy_capnp [104] (linked_node [1] [[2, 2]])]) net
    \<and> potential toy_sodium (enc_msg toy_capnp (Text_Msg [104])) net = 2"
proof -
  let ?C = toy_capnp and ?S = toy_sodium and ?addr = "\<lambda>ip :: bytes. length ip - 1"
  let ?start = "[linked_node [1] [[2, 2]], linked_node [2, 2] [[1]]]"
  define body where "body = enc_msg ?C (Text_Msg [104])"
  have body: "body = enc_msg ?C (Text_Msg (c_str [104]))" by (simp add: body_def c_str_def)
  let ?t = "task_of SEND body" and ?net = "?start[0 := read_line ?C [104] (?start ! 0)]"
  have net: "nd_connections (?net ! 0) = [\<lparr>cn_ip = [2, 2], cn_queue = [?t]\<rparr>]"
    by (simp add: read_line_def linked_node_def add_to_all_def gtd_add_def tq_push_def task_of_def body_def c_str_def)
  have take: "take_connection_task 0 1000000000 (?net ! 0) =
      Some (?t, (?net ! 0)\<lparr>nd_connections := [\<lparr>cn_ip = [2, 2], cn_queue = []\<rparr>]\<rparr>)"
    unfolding take_connection_task_def net
    by (simp add: gtd_poll_def tq_pop_def to_time_t_def task_of_def)
  let ?nd1 = "(?net ! 0)\<lparr>nd_connections := [\<lparr>cn_ip = [2, 2], cn_queue = []\<rparr>]\<rparr>"
  have dec: "dec_msg ?C body = Inr (Text_Msg [104])" by (simp add: body_def capnp_okD [OF toy_capnp_ok])
  have served: "\<exists>nd3. serve_round ?C ?S [] [[9], [], t_data ?t] nd = Inr ([[9], [], enc_msg ?C (Ok [])], nd3)" for nd
    using serve_text [OF dec, of ?S "[]" "[9]" "[]" nd] by (simp add: task_of_def)
  then obtain nd3 where s: "serve_round ?C ?S [] [[9], [], t_data ?t] (?net[0 := ?nd1] ! 1) =
      Inr ([[9], [], enc_msg ?C (Ok [])], nd3)" by blast
  have r: "run_task ?C ?S [] (ask ?C ?S [] [9] (?net[0 := ?nd1] ! 1)) ?t ?nd1 = Inr ?nd1"
    using s by (simp add: run_task_def ask_def task_of_def numeral_2_eq_2)
  have "text_step ?C ?S ?addr body ?net (?net[0 := ?nd1, 1 := nd3])"
    by (rule deliver [OF _ take _ _ _ r s]) (simp_all only: net, simp_all add: is_copy_def task_of_def)
  then obtain net where run: "(text_step ?C ?S ?addr body ^^ 1) ?net net" by auto
  have "\<forall>nd \<in> set ?start. \<not> seen_by ?S body nd \<and> copies body nd = 0"
    by (simp add: seen_by_def copies_def linked_node_def node_init_def manage_start_def replan_def)
  moreover have "\<forall>(i, j) \<in> links ?addr ?start. j < length ?start"
    by (auto simp: links_def linked_node_def less_Suc_eq numeral_2_eq_2)
  ultimately have "1 + potential ?S body net = 3"
    using text_floods_network [OF toy_capnp_ok body _ _ _ run] by (simp add: linked_node_def)
  with run show ?thesis unfolding body_def by auto
qed

end
