(* ===== verification/Gossip.thy ===== *)
theory Gossip
  imports Node_Exchange
begin

text \<open>
  How addresses spread in a network of nodes. Every ten seconds the manager of a node makes each of its
  connections ask for the peers of the other end; here the nodes do so round after round, in any order
  within a round.
\<close>

section \<open>Rounds\<close>

text \<open>\<open>addr\<close> finds the node behind an address; a link leads from a node to one it has a connection to.\<close>

definition links :: "(bytes \<Rightarrow> nat) \<Rightarrow> node list \<Rightarrow> (nat \<times> nat) set" where
  "links addr net = {(i, j). i < length net \<and> j < length net \<and> j \<in> (addr \<circ> cn_ip) ` set (nd_connections (net ! i))}"

text \<open>The \<open>c\<close>-th connection of the \<open>i\<close>-th node handles \<open>REQ_IPS\<close>.\<close>

definition ask_peers ::
  "capnp \<Rightarrow> sodium \<Rightarrow> (bytes \<Rightarrow> nat) \<Rightarrow> bytes \<Rightarrow> nat \<times> nat \<Rightarrow> node list \<Rightarrow> node list" where
  "ask_peers C S addr key ic net =
     (let (i, c) = ic; j = addr (cn_ip (nd_connections (net ! i) ! c)) in
      case run_task C S key (ask C S key (nd_my_ip (net ! i)) (net ! j)) (task_of REQ_IPS []) (net ! i) of
        Inr nd \<Rightarrow> net[i := nd] | Inl _ \<Rightarrow> net)"

text \<open>A round in which every connection to a node of the network asks at least once.\<close>

definition full_round :: "(bytes \<Rightarrow> nat) \<Rightarrow> node list \<Rightarrow> (nat \<times> nat) list \<Rightarrow> bool" where
  "full_round addr net asks \<longleftrightarrow>
     set asks = {(i, c). i < length net \<and> c < length (nd_connections (net ! i))
       \<and> addr (cn_ip (nd_connections (net ! i) ! c)) < length net}"

definition known :: "node list \<Rightarrow> nat \<Rightarrow> bytes set" where
  "known net i = set (nd_ip_list (net ! i))"

text \<open>What the threads do to the state of a network that matters here.\<close>

definition same_links :: "node list \<Rightarrow> node list \<Rightarrow> bool" where
  "same_links net net' \<longleftrightarrow> map nd_connections net = map nd_connections net'"

lemma same_linksD:
  assumes "same_links net net'"
  shows "length net' = length net" and "i < length net \<Longrightarrow> nd_connections (net' ! i) = nd_connections (net ! i)"
proof -
  show len: "length net' = length net" using assms map_eq_imp_length_eq unfolding same_links_def by metis
  show "nd_connections (net' ! i) = nd_connections (net ! i)" if "i < length net"
    using assms that len unfolding same_links_def by (metis nth_map)
qed

lemma same_links_round: "same_links net net' \<Longrightarrow> full_round addr net' asks = full_round addr net asks"
proof -
  assume same: "same_links net net'"
  have "{(i, c). i < length net' \<and> c < length (nd_connections (net' ! i)) \<and> addr (cn_ip (nd_connections (net' ! i) ! c)) < length net'}
    = {(i, c). i < length net \<and> c < length (nd_connections (net ! i)) \<and> addr (cn_ip (nd_connections (net ! i) ! c)) < length net}"
    using same_linksD [OF same] by auto
  then show ?thesis by (simp add: full_round_def)
qed

lemma same_links_links: "same_links net net' \<Longrightarrow> links addr net' = links addr net"
  using same_linksD by (auto simp: links_def)

text \<open>One question.\<close>

lemma ask_peers_learns:
  assumes C: "capnp_ok C" and i: "i < length net"
  shows "same_links net (ask_peers C S addr key (i, c) net)"
    and "known (ask_peers C S addr key (i, c) net) k =
      (if k = i then known net i \<union> c_str ` known net (addr (cn_ip (nd_connections (net ! i) ! c))) else known net k)"
proof -
  let ?j = "addr (cn_ip (nd_connections (net ! i) ! c))"
  have t: "t_type (task_of REQ_IPS []) = REQ_IPS" by (simp add: task_of_def)
  from peers_learned [OF C t] obtain nd where
      nd: "run_task C S key (ask C S key (nd_my_ip (net ! i)) (net ! ?j)) (task_of REQ_IPS []) (net ! i) = Inr nd"
      "set (nd_ip_list nd) = set (nd_ip_list (net ! i)) \<union> c_str ` set (nd_ip_list (net ! ?j))" by blast
  then have ask: "ask_peers C S addr key (i, c) net = net[i := nd]" by (simp add: ask_peers_def Let_def)
  have "nd_connections nd = nd_connections (net ! i)" using run_task_ips [OF t nd(1)] by auto
  then show "same_links net (ask_peers C S addr key (i, c) net)"
    unfolding ask same_links_def using i by (simp add: map_update) (metis list_update_id nth_map)
  show "known (ask_peers C S addr key (i, c) net) k =
      (if k = i then known net i \<union> c_str ` known net ?j else known net k)"
    unfolding ask known_def using i nd(2) by simp
qed

section \<open>Nothing is made up\<close>

definition reachable_known :: "(bytes \<Rightarrow> nat) \<Rightarrow> node list \<Rightarrow> nat \<Rightarrow> bytes set" where
  "reachable_known addr net i = known net i \<union> (\<Union>j \<in> (links addr net)\<^sup>+ `` {i}. c_str ` known net j)"

lemma c_str_reachable:
  assumes "(i, j) \<in> links addr net"
  shows "c_str ` reachable_known addr net j \<subseteq> reachable_known addr net i"
proof
  fix x assume "x \<in> c_str ` reachable_known addr net j"
  then obtain y where x: "x = c_str y" and y: "y \<in> reachable_known addr net j" by blast
  from y consider "y \<in> known net j" | k z where "(j, k) \<in> (links addr net)\<^sup>+" "z \<in> known net k" "y = c_str z"
    unfolding reachable_known_def by blast
  then show "x \<in> reachable_known addr net i"
  proof cases
    case 1
    with assms x show ?thesis unfolding reachable_known_def by blast
  next
    case (2 k z)
    then have "(i, k) \<in> (links addr net)\<^sup>+" "x = c_str z" using assms x by (simp_all add: trancl_into_trancl2)
    with 2(2) show ?thesis unfolding reachable_known_def by blast
  qed
qed

text \<open>Any questions keep these: who is linked to whom, what was known, and where it can come from.\<close>

definition spread :: "(bytes \<Rightarrow> nat) \<Rightarrow> node list \<Rightarrow> node list \<Rightarrow> bool" where
  "spread addr net net' \<longleftrightarrow> same_links net net'
     \<and> (\<forall>i < length net. known net i \<subseteq> known net' i \<and> known net' i \<subseteq> reachable_known addr net i)"

lemma link_of_connection:
  "full_round addr net asks \<Longrightarrow> (i, c) \<in> set asks \<Longrightarrow>
     i < length net \<and> (i, addr (cn_ip (nd_connections (net ! i) ! c))) \<in> links addr net"
  by (auto simp: full_round_def links_def)

lemma spread_ask:
  assumes C: "capnp_ok C" and "spread addr net net'" and "full_round addr net asks" and "ic \<in> set asks"
  shows "spread addr net (ask_peers C S addr key ic net')" and "known net' k \<subseteq> known (ask_peers C S addr key ic net') k"
proof -
  obtain i c where ic: "ic = (i, c)" by (cases ic)
  let ?j = "addr (cn_ip (nd_connections (net ! i) ! c))"
  have same: "same_links net net'" using assms(2) by (simp add: spread_def)
  have link: "i < length net" "(i, ?j) \<in> links addr net" using link_of_connection assms(3,4) ic by blast+
  then have j: "?j < length net" by (simp add: links_def)
  note len = same_linksD(1) [OF same] and con = same_linksD(2) [OF same link(1)]
  have i': "i < length net'" using link(1) len by simp
  note learns = ask_peers_learns [where S = S and addr = addr and key = key and c = c, OF C i', unfolded con]
  have "known net' ?j \<subseteq> reachable_known addr net ?j" using assms(2) j by (simp add: spread_def)
  then have "c_str ` known net' ?j \<subseteq> reachable_known addr net i" using c_str_reachable [OF link(2)] by blast
  moreover have "same_links net (ask_peers C S addr key (i, c) net')"
    using same learns(1) by (simp add: same_links_def)
  ultimately show "spread addr net (ask_peers C S addr key ic net')"
    using assms(2) unfolding ic spread_def learns(2) by auto
  show "known net' k \<subseteq> known (ask_peers C S addr key ic net') k" unfolding ic learns(2) by auto
qed

lemma spread_round:
  assumes C: "capnp_ok C" and "spread addr net net'" and "full_round addr net asks" and "set qs \<subseteq> set asks"
  shows "spread addr net (fold (ask_peers C S addr key) qs net')
    \<and> (\<forall>k. known net' k \<subseteq> known (fold (ask_peers C S addr key) qs net') k)
    \<and> (\<forall>i c. (i, c) \<in> set qs \<longrightarrow> c_str ` known net' (addr (cn_ip (nd_connections (net ! i) ! c)))
        \<subseteq> known (fold (ask_peers C S addr key) qs net') i)"
  using assms(2,4)
proof (induction qs arbitrary: net')
  case (Cons q qs)
  let ?net = "ask_peers C S addr key q net'"
  have q: "q \<in> set asks" using Cons.prems(2) by simp
  note ask = spread_ask [where S = S and key = key, OF C Cons.prems(1) assms(3) q]
  obtain i c where ic: "q = (i, c)" by (cases q)
  have same: "same_links net net'" using Cons.prems(1) by (simp add: spread_def)
  have i: "i < length net" using link_of_connection [OF assms(3)] q ic by blast
  have "c_str ` known net' (addr (cn_ip (nd_connections (net ! i) ! c))) \<subseteq> known ?net i"
    using ask_peers_learns(2) [where S = S and addr = addr and key = key and c = c and k = i, OF C, of i net'] same_linksD [OF same] i by (simp add: ic)
  then have first: "c_str ` known net' (addr (cn_ip (nd_connections (net ! i) ! c))) \<subseteq> known ?net i" .
  let ?last = "fold (ask_peers C S addr key) qs ?net"
  have IH: "spread addr net ?last" "\<And>k. known ?net k \<subseteq> known ?last k"
    "\<And>i c. (i, c) \<in> set qs \<Longrightarrow> c_str ` known ?net (addr (cn_ip (nd_connections (net ! i) ! c))) \<subseteq> known ?last i"
    using Cons.IH [OF ask(1)] Cons.prems(2) by simp_all
  have "known net' k \<subseteq> known ?last k" for k using ask(2) IH(2) by (rule subset_trans)
  moreover have "c_str ` known net' (addr (cn_ip (nd_connections (net ! i') ! c'))) \<subseteq> known ?last i'"
    if "(i', c') \<in> set (q # qs)" for i' c'
  proof (cases "(i', c') = q")
    case True
    with first IH(2) ic show ?thesis by blast
  next
    case False
    with that IH(3) ask(2) show ?thesis by (meson image_mono set_ConsD subset_trans)
  qed
  ultimately show ?case using IH(1) by simp
qed simp

section \<open>Everything is found\<close>

lemma spread_rounds:
  assumes C: "capnp_ok C" and "\<forall>asks \<in> set rounds. full_round addr net asks" and "spread addr net net'"
  shows "spread addr net (fold (fold (ask_peers C S addr key)) rounds net')
    \<and> (\<forall>i j m. (i, j) \<in> links addr net ^^ Suc m \<and> m < length rounds \<longrightarrow>
        c_str ` known net j \<subseteq> known (fold (fold (ask_peers C S addr key)) rounds net') i)"
  using assms(2)
proof (induction rounds rule: rev_induct)
  case (snoc asks rounds)
  let ?net = "fold (fold (ask_peers C S addr key)) rounds net'"
  have IH: "spread addr net ?net" and before: "\<And>i j m. (i, j) \<in> links addr net ^^ Suc m \<Longrightarrow> m < length rounds \<Longrightarrow>
      c_str ` known net j \<subseteq> known ?net i" using snoc by auto
  have round: "full_round addr net asks" using snoc.prems by simp
  note after = spread_round [where S = S and key = key, OF C IH round order_refl]
  have "c_str ` known net j \<subseteq> known (fold (ask_peers C S addr key) asks ?net) i"
    if ij: "(i, j) \<in> links addr net ^^ Suc m" and m: "m < Suc (length rounds)" for i j m
  proof -
    obtain k where k: "(i, k) \<in> links addr net" "(k, j) \<in> links addr net ^^ m" using ij relpow_Suc_D2 by metis
    then obtain con where con: "i < length net" "k < length net" "con \<in> set (nd_connections (net ! i))" "addr (cn_ip con) = k"
      by (auto simp: links_def)
    then obtain c where "c < length (nd_connections (net ! i))" "nd_connections (net ! i) ! c = con" by (auto simp: in_set_conv_nth)
    with con round have c: "(i, c) \<in> set asks" "addr (cn_ip (nd_connections (net ! i) ! c)) = k"
      by (simp_all add: full_round_def)
    then have learned: "c_str ` known ?net k \<subseteq> known (fold (ask_peers C S addr key) asks ?net) i"
      using after c by blast
    show ?thesis
    proof (cases m)
      case 0
      with k have "k = j" "j < length net" by (simp_all add: links_def)
      then have "known net j \<subseteq> known ?net k" using IH by (simp add: spread_def)
      with learned show ?thesis by blast
    next
      case (Suc m')
      with before [of k j m'] k(2) m have "c_str ` c_str ` known net j \<subseteq> c_str ` known ?net k" by (intro image_mono) simp
      with learned show ?thesis by (simp add: image_image)
    qed
  qed
  with conjunct1 [OF after] show ?case by (simp del: relpow.simps) blast
qed (use assms(3) in simp)

text \<open>C9: addresses spread to exactly the nodes that can reach them: when in each of as many rounds as there
  are links every connection asks once, in whatever order, a node knows in the end what it knew and what
  any node knew that it can reach over connections, and nothing else.\<close>

theorem addresses_spread:
  assumes C: "capnp_ok C" and "\<forall>asks \<in> set rounds. full_round addr net asks"
    and "card (links addr net) \<le> length rounds" and i: "i < length net"
  shows "set (nd_ip_list (fold (fold (ask_peers C S addr key)) rounds net ! i)) =
    set (nd_ip_list (net ! i)) \<union> (\<Union>j \<in> (links addr net)\<^sup>+ `` {i}. c_str ` set (nd_ip_list (net ! j)))"
proof -
  let ?L = "links addr net" and ?net = "fold (fold (ask_peers C S addr key)) rounds net"
  have "spread addr net net" by (simp add: spread_def same_links_def reachable_known_def)
  from spread_rounds [OF C assms(2) this, of S key] have sp: "spread addr net ?net"
    and found: "\<And>i j m. (i, j) \<in> ?L ^^ Suc m \<Longrightarrow> m < length rounds \<Longrightarrow> c_str ` known net j \<subseteq> known ?net i" by blast+
  have "?L \<subseteq> {..<length net} \<times> {..<length net}" by (auto simp: links_def)
  then have fin: "finite ?L" by (rule finite_subset) simp
  have "c_str ` known net j \<subseteq> known ?net i" if "(i, j) \<in> ?L\<^sup>+" for j
  proof -
    from that obtain n where "0 < n" "n \<le> card ?L" "(i, j) \<in> ?L ^^ n"
      unfolding trancl_finite_eq_relpow [OF fin] by blast
    with found [of i j "n - 1"] assms(3) show ?thesis by simp
  qed
  with sp i show ?thesis unfolding spread_def reachable_known_def known_def by (intro equalityI) blast+
qed

text \<open>Three nodes in a row: the first learns in two rounds what the third knows, although it asks before the
  second has.\<close>

lemma addresses_spread_witness:
  "let nd = node_init 0 [1] [] []; con = (\<lambda>a. \<lparr>cn_ip = a, cn_queue = []\<rparr>);
      net = [nd\<lparr>nd_connections := [con [1]]\<rparr>, nd\<lparr>nd_connections := [con [2]]\<rparr>, nd\<lparr>nd_ip_list := [[7]]\<rparr>] in
    set (nd_ip_list (fold (fold (ask_peers toy_capnp toy_sodium (unat \<circ> hd) [])) [[(0, 0), (1, 0)], [(0, 0), (1, 0)]] net ! 0)) = {[7]}"
proof -
  let ?nd = "node_init 0 [1] [] []" and ?con = "\<lambda>a. \<lparr>cn_ip = a, cn_queue = []\<rparr>"
  let ?net = "[?nd\<lparr>nd_connections := [?con [1]]\<rparr>, ?nd\<lparr>nd_connections := [?con [2]]\<rparr>, ?nd\<lparr>nd_ip_list := [[7]]\<rparr>]"
  have nd: "nd_ip_list ?nd = []" "nd_connections ?nd = []" by (simp_all add: node_init_def manage_start_def replan_def)
  have three: "i < length ?net \<longleftrightarrow> i = 0 \<or> i = 1 \<or> i = 2" for i by auto
  have L: "links (unat \<circ> hd) ?net = {(0, 1), (1, 2)}"
    unfolding links_def three using nd by auto
  have "full_round (unat \<circ> hd) ?net [(0, 0), (1, 0)]"
    unfolding full_round_def three using nd by auto
  then have rounds: "\<forall>asks \<in> set [[(0, 0), (1, 0)], [(0, 0), (1, 0)]]. full_round (unat \<circ> hd) ?net asks" by simp
  have "{(0, 1), (1, 2)}\<^sup>+ `` {0} = {1, 2 :: nat}"
    by (auto simp: trancl_insert rtrancl_insert)
  with addresses_spread [OF toy_capnp_ok rounds, of 0 toy_sodium "[]"] nd show ?thesis
    unfolding Let_def L by (simp add: c_str_def)
qed

end
