(* ===== verification/Connections.thy ===== *)
theory Connections
  imports Prelude
begin

text \<open>
  The global vector \<open>connections\<close> of \<open>bin/p2p.cc\<close> in memory. It has no mutex: \<open>manage\<close> appends to it while
  the threads that read lines and serve go through it with \<open>for (auto con : connections)\<close>. A step is one
  access. What the standard says of \<open>push_back\<close> is modelled: a vector that is full moves to a new block,
  of a capacity the library chooses, and gives the old one back. The pointers in it stand for themselves.
\<close>

section \<open>Threads\<close>







section \<open>Without a new block\<close>







section \<open>With one\<close>





end
