(* ===== verification/Utilities.thy ===== *)
theory Utilities
  imports Byte_Buffer
begin

text \<open>
  The helpers of \<open>inc/util.h\<close> and \<open>inc/err.h\<close>, and the conversions of \<open>inc/type.h\<close> between byte vectors,
  strings and memory.
\<close>

section \<open>Vectors\<close>

text \<open>\<open>last\<close>: the index is of the unsigned type of sizes.\<close>

definition last_of :: "'a list \<Rightarrow> 'a result" where
  "last_of vec = vec_get vec (unat (of_nat (length vec) - 1 :: u64))"

text \<open>\<open>operator<<\<close> on a vector, with the way an element is printed.\<close>

definition show_vector :: "('a \<Rightarrow> u8 list) \<Rightarrow> 'a list \<Rightarrow> u8 list" where
  "show_vector out v =
     (if length v = 0 then [91, 93]
      else [91] @ out (v ! 0) @ concat (map (\<lambda>i. [44, 32] @ out (v ! i)) [1..<length v]) @ [93])"

section \<open>Errors\<close>

text \<open>A C string ends before the first NUL.\<close>

definition up_to_nul :: "bytes \<Rightarrow> bytes" where
  "up_to_nul s = takeWhile (\<lambda>c. c \<noteq> 0) s"

definition err_what :: "bytes \<Rightarrow> bytes" where
  "err_what msg = up_to_nul msg"

definition assertthrow :: "bool \<Rightarrow> string \<Rightarrow> unit result" where
  "assertthrow check err = (if \<not> check then Inl (Thrown err) else Inr ())"

section \<open>Strings and memory\<close>

text \<open>\<open>Bytes(std::string &)\<close> and \<open>operator std::string\<close> copy every byte into a vector, respectively a
  string, of the same size.\<close>

definition bytes_of_string :: "bytes \<Rightarrow> bytes" where
  "bytes_of_string s = (let this = bytes_of_size (length s) in take (length s) s @ drop (length s) this)"

definition string_of_bytes :: "bytes \<Rightarrow> bytes" where
  "string_of_bytes this = (let s = replicate (length this) 0 in take (length this) this @ drop (length this) s)"

text \<open>\<open>Bytes(const char *)\<close> goes through a string, which ends at the first NUL of the memory.\<close>

definition bytes_of_cstr :: "bytes \<Rightarrow> bytes" where
  "bytes_of_cstr c = (let s = up_to_nul c; this = bytes_of_size (length s) in take (length s) s @ drop (length s) this)"

text \<open>\<open>Bytes(const T *c, size_t n)\<close>: \<open>n\<close> elements of \<open>k\<close> bytes each from the start of the memory.\<close>

definition bytes_of_array :: "nat \<Rightarrow> bytes \<Rightarrow> nat \<Rightarrow> bytes result" where
  "bytes_of_array k c n = (if k * n \<le> length c then Inr (take (k * n) c) else Inl OutOfBounds)"

text \<open>\<open>kjp\<close>: the view of the whole vector.\<close>

definition kjp :: "bytes \<Rightarrow> bytes" where
  "kjp this = take (length this) this"

section \<open>Messages\<close>

text \<open>
  The templates of \<open>inc/convert.h\<close> for generated message types, with the generated parser and serialiser
  as arguments: \<open>bytes_to_t\<close> and \<open>bytes_to_cap\<close> throw when the parser refuses, \<open>t_to_bytes\<close> and
  \<open>cap_to_bytes\<close> return the string, which is converted once more.
\<close>

definition bytes_to_t :: "(bytes \<Rightarrow> 'a option) \<Rightarrow> bytes \<Rightarrow> 'a result" where
  "bytes_to_t parse b = (case parse b of None \<Rightarrow> Inl (Thrown ''Could'nt parse from string'') | Some t \<Rightarrow> Inr t)"

definition t_to_bytes :: "('a \<Rightarrow> bytes) \<Rightarrow> 'a \<Rightarrow> bytes" where
  "t_to_bytes serialize t = (let buf = serialize t in bytes_of_string buf)"

definition bytes_to_cap :: "(bytes \<Rightarrow> 'a option) \<Rightarrow> bytes \<Rightarrow> 'a result" where
  "bytes_to_cap parse b = (case parse b of None \<Rightarrow> Inl (Thrown ''Could'nt parse from string'') | Some t \<Rightarrow> Inr t)"

definition cap_to_bytes :: "('a \<Rightarrow> bytes) \<Rightarrow> 'a \<Rightarrow> bytes" where
  "cap_to_bytes serialize t = (let buf = serialize t in bytes_of_string buf)"

text \<open>\<open>ReadMessage\<close>: how many bytes from the start of the vector its reader is given, words of eight.\<close>

definition read_message_window :: "bytes \<Rightarrow> nat" where
  "read_message_window bytes = 8 * kjwp_words bytes"

text \<open>\<open>WriteMessage::bytes\<close> of the words of the serialised message.\<close>

definition write_message_bytes :: "bytes list \<Rightarrow> bytes result" where
  "write_message_bytes cap_data = bytes_of_array 8 (concat cap_data) (length cap_data)"

section \<open>Properties\<close>

lemma bytes_of_string_id [simp]: "bytes_of_string s = s" "string_of_bytes s = s"
  by (simp_all add: bytes_of_string_def string_of_bytes_def bytes_of_size_def)

lemma generated_messages_roundtrip:
  "parse (serialize t) = Some t \<Longrightarrow> bytes_to_t parse (t_to_bytes serialize t) = Inr t"
  "parse (serialize t) = Some t \<Longrightarrow> bytes_to_cap parse (cap_to_bytes serialize t) = Inr t"
  by (simp_all add: bytes_to_t_def t_to_bytes_def bytes_to_cap_def cap_to_bytes_def)

text \<open>The bytes of a message are those of its words, and its reader is given a window that ends behind the
  vector: four times the size of the message.\<close>

lemma message_windows:
  assumes "\<forall>w \<in> set ws. length w = 8"
  shows "write_message_bytes ws = Inr (concat ws) \<and> length (concat ws) = 8 * length ws
    \<and> read_message_window (concat ws) = 4 * length (concat ws)"
proof -
  have len: "length (concat ws) = 8 * length ws" using assms by (induction ws) simp_all
  then show ?thesis
    by (simp add: write_message_bytes_def bytes_of_array_def read_message_window_def kjwp_words_def)
qed

lemma read_message_overreads: "b \<noteq> [] \<Longrightarrow> length b < read_message_window b"
  by (cases b) (simp_all add: read_message_window_def kjwp_words_def)

lemma last_of_eq: "length vec < 2 ^ 64 \<Longrightarrow> last_of vec = (if vec = [] then Inl OutOfBounds else Inr (last vec))"
proof (cases vec rule: rev_cases)
  case (snoc ys y)
  moreover assume "length vec < 2 ^ 64"
  ultimately have "unat (of_nat (length vec) - 1 :: u64) = length ys"
    by (simp add: unsigned_of_nat take_bit_nat_eq_self)
  with snoc show ?thesis by (simp add: last_of_def)
qed (simp add: last_of_def)

text \<open>A byte vector survives as a string; handed on as a C string it survives exactly if it has no NUL
  byte, and what comes back is then its part before the first one.\<close>

lemma string_conversions:
  "bytes_of_string (string_of_bytes b) = b \<and> string_of_bytes (bytes_of_string b) = b
    \<and> (\<exists>rest. b = bytes_of_cstr (b @ [0]) @ rest \<and> (rest = [] \<longleftrightarrow> 0 \<notin> set b) \<and> (rest \<noteq> [] \<longrightarrow> hd rest = 0))"
proof -
  have c: "bytes_of_cstr (b @ [0]) = takeWhile (\<lambda>c. c \<noteq> 0) b"
    by (induction b) (simp_all add: bytes_of_cstr_def up_to_nul_def bytes_of_size_def Let_def)
  have "b = takeWhile (\<lambda>c. c \<noteq> 0) b @ dropWhile (\<lambda>c. c \<noteq> 0) b" by simp
  moreover have "dropWhile (\<lambda>c. c \<noteq> 0) b = [] \<longleftrightarrow> 0 \<notin> set b" by (auto simp: dropWhile_eq_Nil_conv)
  moreover have "dropWhile (\<lambda>c. c \<noteq> 0) b \<noteq> [] \<longrightarrow> hd (dropWhile (\<lambda>c. c \<noteq> 0) b) = 0"
    using hd_dropWhile [of "\<lambda>c. c \<noteq> 0" b] by blast
  ultimately have "\<exists>rest. b = bytes_of_cstr (b @ [0]) @ rest \<and> (rest = [] \<longleftrightarrow> 0 \<notin> set b) \<and> (rest \<noteq> [] \<longrightarrow> hd rest = 0)"
    unfolding c by metis
  then show ?thesis by simp
qed

lemma show_vector_Cons: "show_vector out (x # xs) = [91] @ out x @ concat (map (\<lambda>y. [44, 32] @ out y) xs) @ [93]"
proof -
  have up: "[1..<length (x # xs)] = map Suc [0..<length xs]" by (simp add: map_Suc_upt)
  have "map (\<lambda>i. [44, 32] @ out (xs ! i)) [0..<length xs] = map (\<lambda>y. [44, 32] @ out y) xs"
    by (intro nth_equalityI) simp_all
  then have "map (\<lambda>i. [44, 32] @ out ((x # xs) ! i)) [1..<length (x # xs)] = map (\<lambda>y. [44, 32] @ out y) xs"
    unfolding up by (simp add: comp_def)
  then show ?thesis unfolding show_vector_def by simp
qed

definition unambiguous :: "('a \<Rightarrow> u8 list) \<Rightarrow> bool" where
  "unambiguous out \<longleftrightarrow> inj out \<and> (\<forall>x. out x \<noteq> [] \<and> 44 \<notin> set (out x) \<and> 93 \<notin> set (out x))"

lemma split_at_mark:
  assumes "a @ c # s = b @ d # t" and "c \<in> M" "d \<in> M" and "set a \<inter> M = {}" "set b \<inter> M = {}"
  shows "a = b \<and> c = d \<and> s = t"
proof -
  have "takeWhile (\<lambda>x. x \<notin> M) (a @ c # s) = a" "takeWhile (\<lambda>x. x \<notin> M) (b @ d # t) = b"
    using assms(2-5) by (simp_all add: takeWhile_append2 disjoint_iff)
  with assms(1) show ?thesis by simp
qed

lemma show_rest_inj:
  assumes "unambiguous out"
  shows "out x @ concat (map (\<lambda>y. [44, 32] @ out y) xs) @ [93] = out y @ concat (map (\<lambda>y. [44, 32] @ out y) ys) @ [93] \<Longrightarrow>
    x = y \<and> xs = ys"
proof (induction xs arbitrary: x y ys)
  case Nil
  have out: "inj out" "set (out z) \<inter> {44, 93} = {}" for z using assms by (auto simp: unambiguous_def)
  show ?case
  proof (cases ys)
    case (Cons y' ys')
    with Nil.prems split_at_mark [of "out x" 93 "[]" "out y" 44
        "32 # out y' @ concat (map (\<lambda>y. [44, 32] @ out y) ys') @ [93]" "{44, 93}"] out(2) [of x] out(2) [of y]
    show ?thesis by simp
  qed (use Nil out in \<open>auto dest: injD\<close>)
next
  case (Cons x' xs)
  have out: "inj out" "set (out z) \<inter> {44, 93} = {}" for z using assms by (auto simp: unambiguous_def)
  show ?case
  proof (cases ys)
    case Nil
    with Cons.prems split_at_mark [of "out x" 44 "32 # out x' @ concat (map (\<lambda>y. [44, 32] @ out y) xs) @ [93]"
        "out y" 93 "[]" "{44, 93}"] out(2) [of x] out(2) [of y]
    show ?thesis by simp
  next
    case (Cons y' ys')
    with Cons.prems split_at_mark [of "out x" 44 "32 # out x' @ concat (map (\<lambda>y. [44, 32] @ out y) xs) @ [93]" "out y" 44
        "32 # out y' @ concat (map (\<lambda>y. [44, 32] @ out y) ys') @ [93]" "{44, 93}"] out(2) [of x] out(2) [of y]
    have "out x = out y" "out x' @ concat (map (\<lambda>y. [44, 32] @ out y) xs) @ [93]
        = out y' @ concat (map (\<lambda>y. [44, 32] @ out y) ys') @ [93]" by simp_all
    with Cons.IH [of x' y' ys'] out(1) Cons show ?thesis by (auto dest: injD)
  qed
qed

text \<open>The text of a vector tells the vector, if that of an element tells the element, is not empty, and
  has neither a comma nor a closing bracket in it.\<close>

lemma show_vector_inj: "unambiguous out \<Longrightarrow> inj (show_vector out)"
proof (rule injI)
  fix xs ys assume out: "unambiguous out" and eq: "show_vector out xs = show_vector out ys"
  have "show_vector out (z # zs) \<noteq> show_vector out []" for z zs
  proof -
    have "out z \<noteq> []" "93 \<notin> set (out z)" using out by (auto simp: unambiguous_def)
    then show ?thesis unfolding show_vector_Cons by (cases "out z") (auto simp: show_vector_def)
  qed
  with eq show "xs = ys"
    by (cases xs; cases ys) (auto simp: show_vector_Cons simp del: append_assoc dest!: show_rest_inj [OF out, simplified])
qed

end
