(* ===== verification/Tools.thy ===== *)
theory Tools
  imports Convert Curve
begin

text \<open>
  The command line tools that protect a message with a password: \<open>bin/enc.cc\<close> and \<open>bin/dec.cc\<close> for
  texts, \<open>bin/hexenc.cc\<close> and \<open>bin/hexdec.cc\<close> for hexadecimal data, \<open>bin/fullenc.cc\<close> and
  \<open>bin/fulldec.cc\<close> with a sealed message, and the hexadecimal conversions of \<open>src/type.cc\<close>. Each
  \<open>main\<close> is a function of its arguments (the program's name first) and of the random salt it draws;
  it gives the value \<open>main\<close> returns and what it has written to the standard output.
\<close>

section \<open>Hexadecimal text\<close>

text \<open>\<open>sodium_bin2hex\<close> writes two digits a byte and a NUL, and all of it is put out.\<close>

definition show_bytes :: "sodium \<Rightarrow> bytes \<Rightarrow> u8 list" where
  "show_bytes S b = bin2hex S b @ [0]"

definition from_hex :: "sodium \<Rightarrow> u8 list \<Rightarrow> bytes" where
  "from_hex S hex = hex2bin S (length hex div 2) hex"

section \<open>The tools\<close>

text \<open>The hash of the password under the salt, which is first hashed to the size libsodium wants.\<close>

definition password_key :: "sodium \<Rightarrow> bytes \<Rightarrow> bytes \<Rightarrow> bytes result" where
  "password_key S salt_b pass_b =
     (let salt_h = hash_n S salt_b 16 in
      bindR (hard_hash_salt salt_h) (\<lambda>salt. Inr (hardest_hash_salted S pass_b salt)))"

definition mask_message :: "sodium \<Rightarrow> bytes \<Rightarrow> bytes \<Rightarrow> bytes result" where
  "mask_message S h msg_b = (let hh = hash_n S h (length msg_b) in x_or msg_b hh)"

definition enc_main :: "sodium \<Rightarrow> bytes \<Rightarrow> bytes list \<Rightarrow> (int \<times> u8 list) result" where
  "enc_main S salt_b argv =
     (if length argv \<noteq> 3 then Inr (1, [])
      else
        let msg_b = argv ! 1; pass_b = argv ! 2 in
        bindR (password_key S salt_b pass_b) (\<lambda>h. bindR (mask_message S h msg_b) (\<lambda>msg_b.
          Inr (0, show_bytes S msg_b @ [32] @ show_bytes S salt_b @ [10]))))"

definition hexenc_main :: "sodium \<Rightarrow> bytes \<Rightarrow> bytes list \<Rightarrow> (int \<times> u8 list) result" where
  "hexenc_main S salt_b argv =
     (if length argv \<noteq> 3 then Inr (1, [])
      else
        let msg_b = from_hex S (argv ! 1); pass_b = argv ! 2 in
        bindR (password_key S salt_b pass_b) (\<lambda>h. bindR (mask_message S h msg_b) (\<lambda>msg_b.
          Inr (0, show_bytes S msg_b @ [32] @ show_bytes S salt_b @ [10]))))"

text \<open>\<open>"msg: "\<close>\<close>

definition msg_label :: "u8 list" where
  "msg_label = [109, 115, 103, 58, 32]"

definition dec_main :: "sodium \<Rightarrow> bytes list \<Rightarrow> (int \<times> u8 list) result" where
  "dec_main S argv =
     (if length argv \<noteq> 4 then Inr (1, [])
      else
        let msg_hex = argv ! 1; salt_hex = argv ! 2; pass_b = argv ! 3; salt_b = from_hex S salt_hex in
        bindR (password_key S salt_b pass_b) (\<lambda>h.
          let msg_b = from_hex S msg_hex in
          bindR (mask_message S h msg_b) (\<lambda>msg_b. Inr (0, msg_label @ msg_b @ [10]))))"

definition hexdec_main :: "sodium \<Rightarrow> bytes list \<Rightarrow> (int \<times> u8 list) result" where
  "hexdec_main S argv =
     (if length argv \<noteq> 4 then Inr (1, [])
      else
        let msg_hex = argv ! 1; salt_hex = argv ! 2; pass_b = argv ! 3; salt_b = from_hex S salt_hex in
        bindR (password_key S salt_b pass_b) (\<lambda>h.
          let msg_b = from_hex S msg_hex in
          bindR (mask_message S h msg_b) (\<lambda>msg_b. Inr (0, msg_label @ show_bytes S msg_b @ [10]))))"

text \<open>\<open>eph\<close> is the randomness of the sealed message.\<close>

definition fullenc_main :: "sodium \<Rightarrow> bytes \<Rightarrow> bytes \<Rightarrow> bytes list \<Rightarrow> (int \<times> u8 list) result" where
  "fullenc_main S salt_b eph argv =
     (if length argv \<noteq> 3 then Inr (1, [])
      else
        let msg_b = argv ! 1; pass_b = argv ! 2 in
        bindR (password_key S salt_b pass_b) (\<lambda>h.
          let hh = hash_n S h 32 in
          bindR (key_pair_of_seed S hh) (\<lambda>(pub, priv).
            let sealed = sm_sealed (seal S eph msg_b pub) in
            Inr (0, show_bytes S sealed @ [32] @ show_bytes S salt_b @ [10]
              @ bytes_to_bech32 [109] sealed @ [32] @ bytes_to_bech32 [115] salt_b @ [10]))))"

text \<open>The result of \<open>decrypt\<close> is not looked at.\<close>

definition fulldec_main :: "sodium \<Rightarrow> bytes list \<Rightarrow> (int \<times> u8 list) result" where
  "fulldec_main S argv =
     (if length argv \<noteq> 4 then Inr (1, [])
      else
        let msg_hex = argv ! 1; salt_hex = argv ! 2; pass_b = argv ! 3; salt_b = from_hex S salt_hex in
        bindR (password_key S salt_b pass_b) (\<lambda>h.
          let msg_b = from_hex S msg_hex; hh = hash_n S h 32 in
          bindR (key_pair_of_seed S hh) (\<lambda>(pub, priv).
            let (success, msg) = unseal S \<lparr>sm_message = [], sm_sealed = msg_b\<rparr> pub priv in
            Inr (0, msg_label @ sm_message msg @ [10]))))"

section \<open>What the tools do\<close>

lemma from_hex_bin2hex: "hex_ok S \<Longrightarrow> from_hex S (bin2hex S b) = b"
  by (simp add: from_hex_def hex_ok_def)

definition tool_key :: "sodium \<Rightarrow> bytes \<Rightarrow> bytes \<Rightarrow> bytes" where
  "tool_key S salt_b pass_b = hardest_hash_salted S pass_b (hash_n S salt_b 16)"

lemma password_key_eq: "hash_lengths_ok S \<Longrightarrow> password_key S salt_b pass_b = Inr (tool_key S salt_b pass_b)"
  by (simp add: password_key_def hard_hash_salt_def tool_key_def length_hashes Let_def)

lemma mask_message_twice:
  assumes "hash_lengths_ok S"
  obtains c where "mask_message S h m = Inr c" and "length c = length m" and "mask_message S h c = Inr m"
  using xor_mask.mask_recovers [of "hash_n S h" m] that
  by (auto simp: mask_message_def length_hashes [OF assms])

text \<open>C40: \<open>dec\<close> undoes \<open>enc\<close> and \<open>hexdec\<close> undoes \<open>hexenc\<close>: given the two words the first tool prints and
  the same password, the second prints the message, whatever its length and whatever the salt.\<close>

theorem text_tools_roundtrip:
  assumes "hash_lengths_ok S" and "hex_ok S"
  shows "\<exists>c. enc_main S salt [prog, msg, pass] = Inr (0, bin2hex S c @ [0, 32] @ bin2hex S salt @ [0, 10])
    \<and> length c = length msg
    \<and> dec_main S [prog', bin2hex S c, bin2hex S salt, pass] = Inr (0, msg_label @ msg @ [10])
    \<and> hexenc_main S salt [prog, bin2hex S msg, pass] = enc_main S salt [prog, msg, pass]
    \<and> hexdec_main S [prog', bin2hex S c, bin2hex S salt, pass] = Inr (0, msg_label @ bin2hex S msg @ [0, 10])"
proof -
  obtain c where "mask_message S (tool_key S salt pass) msg = Inr c" "length c = length msg"
      "mask_message S (tool_key S salt pass) c = Inr msg"
    using mask_message_twice [OF assms(1)] by blast
  with assms show ?thesis
    by (intro exI [of _ c]) (simp add: enc_main_def dec_main_def hexenc_main_def hexdec_main_def
      password_key_eq from_hex_bin2hex show_bytes_def numeral_2_eq_2 numeral_3_eq_3)
qed

lemma text_tools_roundtrip_witness:
  "\<exists>c. enc_main toy_sodium [7] [[], [104, 105], [1]] = Inr (0, bin2hex toy_sodium c @ [0, 32] @ bin2hex toy_sodium [7] @ [0, 10])
    \<and> dec_main toy_sodium [[], bin2hex toy_sodium c, bin2hex toy_sodium [7], [1]] = Inr (0, msg_label @ [104, 105] @ [10])"
  using text_tools_roundtrip [OF toy_hash_lengths_ok toy_hex_ok, of "[7]" "[]" "[104, 105]" "[1]" "[]"] by blast

text \<open>A message of more than 64 bytes is printed as it is: libsodium refuses to make so long a key
  stream, the tools do not notice, and the vector they XOR with is all zero.\<close>

lemma long_message_in_clear:
  assumes "hash_lengths_ok S" and "hash_bounded S" and "64 < length msg"
  shows "enc_main S salt [prog, msg, pass] = Inr (0, show_bytes S msg @ [32] @ show_bytes S salt @ [10])"
proof -
  have "mask_message S h msg = Inr msg" for h
  proof -
    have "hash_n S h (length msg) = replicate (length msg) 0"
      using assms(2,3) by (simp add: hash_n_def hash_bounded_def buffer_after_def bytes_of_size_def)
    moreover have "map2 (XOR) msg (replicate (length msg) 0) = msg" by (induction msg) simp_all
    ultimately show ?thesis by (simp add: mask_message_def x_or_def)
  qed
  with assms(1) show ?thesis by (simp add: enc_main_def password_key_eq numeral_2_eq_2)
qed

text \<open>\<open>fulldec\<close> restores what \<open>fullenc\<close> sealed under the same password. It does not tell a wrong
  password from a right one: where the box does not open, it prints as many NUL characters as the
  message has and returns 0 as well.\<close>

lemma sealed_tools_roundtrip:
  assumes "hash_lengths_ok S" and "hex_ok S" and "box_ok S"
  shows "\<exists>c rest. fullenc_main S salt eph [prog, msg, pass] = Inr (0, bin2hex S c @ [0, 32] @ bin2hex S salt @ [0, 10] @ rest)
    \<and> fulldec_main S [prog', bin2hex S c, bin2hex S salt, pass] = Inr (0, msg_label @ msg @ [10])
    \<and> (\<forall>pass'. let keys = box_seed_keypair S (hash_n S (tool_key S salt pass') 32) in
        box_seal_open S c (fst keys) (snd keys) = None \<longrightarrow>
        fulldec_main S [prog', bin2hex S c, bin2hex S salt, pass'] =
          Inr (0, msg_label @ replicate (length msg) 0 @ [10]))"
proof -
  define keys where "keys pw = box_seed_keypair S (hash_n S (tool_key S salt pw) 32)" for pw
  let ?c = "box_seal S msg eph (fst (keys pass))"
  have kp: "key_pair_of_seed S (hash_n S (tool_key S salt pw) 32) = Inr (keys pw)" for pw
    by (simp add: key_pair_of_seed_def length_hashes [OF assms(1)] keys_def)
  have c: "length ?c = length msg + 48" "box_seal_open S ?c (fst (keys pass)) (snd (keys pass)) = Some msg"
    using assms(3) unfolding box_ok_def keys_def Let_def by blast+
  have wipe: "safe_resize [] n = replicate n 0" for n by (simp add: safe_resize_def)
  note defs = password_key_eq [OF assms(1)] from_hex_bin2hex [OF assms(2)] show_bytes_def numeral_2_eq_2
      numeral_3_eq_3 kp case_prod_beta Let_def
  have "fulldec_main S [prog', bin2hex S ?c, bin2hex S salt, pw] =
      Inr (0, msg_label @ (case box_seal_open S ?c (fst (keys pw)) (snd (keys pw)) of
        None \<Rightarrow> replicate (length msg) 0 | Some m \<Rightarrow> if msg = [] then [] else m) @ [10])" for pw
    using c(1) by (auto simp: fulldec_main_def unseal_def wipe defs split: option.split)
  moreover have "fullenc_main S salt eph [prog, msg, pass] = Inr (0, bin2hex S ?c @ [0, 32] @ bin2hex S salt @ [0, 10]
      @ bytes_to_bech32 [109] ?c @ [32] @ bytes_to_bech32 [115] salt @ [10])"
    by (simp add: fullenc_main_def seal_def defs)
  ultimately show ?thesis using c(2) by (auto simp: keys_def Let_def)
qed

end
