(* ===== verification/Netlink.thy ===== *)
theory Netlink
  imports Prelude
begin

text \<open>
  \<open>inc/estimate_outside_ip.h\<close> (of which \<open>snippets/get_outside_ip.cc\<close> is a copy): the routing table is
  read from a netlink socket into a buffer of 8192 bytes, the interface of the default route is
  looked for in it, and then the address of that interface. The kernel's side is an argument: the
  datagrams \<open>recv\<close> gives, the names of the interface numbers and the list of interface addresses.
  The macros of \<open>linux/netlink.h\<close> and \<open>linux/rtnetlink.h\<close> are written out for a little-endian
  machine; every read of the buffer is checked.
\<close>

section \<open>Reading the buffer\<close>

abbreviation (input) BUFSIZE :: nat where "BUFSIZE \<equiv> 8192"

text \<open>A little-endian number of \<open>k\<close> bytes at an offset.\<close>

definition le_at :: "nat \<Rightarrow> bytes \<Rightarrow> nat \<Rightarrow> nat result" where
  "le_at k buf off =
     (if off + k \<le> length buf then Inr (value_of 8 (take k (drop off buf))) else Inl OutOfBounds)"

definition align4 :: "nat \<Rightarrow> nat" where
  "align4 n = 4 * ((n + 3) div 4)"

record nlmsghdr =
  nl_type :: nat
  nl_flags :: nat
  nl_seq :: nat
  nl_pid :: nat

definition nl_header :: "bytes \<Rightarrow> nat \<Rightarrow> nlmsghdr result" where
  "nl_header buf off = bindR (le_at 2 buf (off + 4)) (\<lambda>ty. bindR (le_at 2 buf (off + 6)) (\<lambda>flags.
     bindR (le_at 4 buf (off + 8)) (\<lambda>seq. bindR (le_at 4 buf (off + 12)) (\<lambda>pid.
       Inr \<lparr>nl_type = ty, nl_flags = flags, nl_seq = seq, nl_pid = pid\<rparr>))))"

text \<open>\<open>NLMSG_OK(nlHdr, len)\<close>\<close>

definition nlmsg_ok :: "bytes \<Rightarrow> nat \<Rightarrow> int \<Rightarrow> bool result" where
  "nlmsg_ok buf off len =
     (if len < 16 then Inr False
      else bindR (le_at 4 buf off) (\<lambda>n. Inr (16 \<le> n \<and> int n \<le> len)))"

section \<open>Receiving\<close>

text \<open>
  A round of the loop of \<open>readNlSock\<close> on a datagram, of which what does not fit into the rest of the
  buffer is cut off: whether the loop goes on, the length and the buffer. The message types 2 and 3
  are \<open>NLMSG_ERROR\<close> and \<open>NLMSG_DONE\<close>; the flag \<open>NLM_F_MULTI\<close> is bit 1.
\<close>

definition nl_round :: "bytes \<Rightarrow> nat \<Rightarrow> bytes \<Rightarrow> nat \<Rightarrow> nat \<Rightarrow> (bool \<times> int \<times> bytes) result" where
  "nl_round d msgLen buf seqNum pId =
     (let got = take (BUFSIZE - msgLen) d; readLen = length got;
          buf = take msgLen buf @ got @ drop (msgLen + readLen) buf
      in bindR (nlmsg_ok buf msgLen (int readLen)) (\<lambda>ok.
        if \<not> ok then Inr (False, - 1, buf)
        else bindR (nl_header buf msgLen) (\<lambda>h.
          if nl_type h = 2 then Inr (False, - 1, buf)
          else if nl_type h = 3 then Inr (False, int msgLen, buf)
          else if \<not> bit (nl_flags h) 1 then Inr (False, int (msgLen + readLen), buf)
          else Inr (nl_seq h \<noteq> seqNum \<or> nl_pid h \<noteq> pId, int (msgLen + readLen), buf))))"

text \<open>\<open>None\<close> is a failing \<open>recv\<close>; when there is no further datagram \<open>recv\<close> blocks for ever.\<close>

fun read_nl_sock :: "bytes option list \<Rightarrow> nat \<Rightarrow> bytes \<Rightarrow> nat \<Rightarrow> nat \<Rightarrow> (int \<times> bytes) result" where
  "read_nl_sock [] msgLen buf seqNum pId = Inl Stuck"
| "read_nl_sock (d # ds) msgLen buf seqNum pId =
     (case d of
        None \<Rightarrow> Inr (- 1, buf)
      | Some d \<Rightarrow>
          bindR (nl_round d msgLen buf seqNum pId) (\<lambda>(again, len, buf).
            if again then read_nl_sock ds (nat len) buf seqNum pId else Inr (len, buf)))"

section \<open>Routes\<close>

record route_info =
  ri_dst :: nat
  ri_src :: nat
  ri_gateway :: nat
  ri_if_name :: bytes

text \<open>What \<open>memset\<close> leaves.\<close>

definition route_zero :: route_info where
  "route_zero = \<lparr>ri_dst = 0, ri_src = 0, ri_gateway = 0, ri_if_name = []\<rparr>"

text \<open>
  The \<open>switch\<close> on an attribute's type (\<open>RTA_OIF\<close> is 4, \<open>RTA_GATEWAY\<close> 5, \<open>RTA_PREFSRC\<close> 7, \<open>RTA_DST\<close> 1);
  four bytes of data are read whatever the length of the attribute is. \<open>names\<close> is
  \<open>if_indextoname\<close>, which leaves the name as it is when it fails.
\<close>

definition parse_attr ::
  "(nat \<Rightarrow> bytes option) \<Rightarrow> bytes \<Rightarrow> nat \<Rightarrow> nat \<Rightarrow> route_info \<Rightarrow> route_info result" where
  "parse_attr names buf ty data rt =
     (if ty = 4 then bindR (le_at 4 buf data) (\<lambda>i.
        Inr (case names i of Some name \<Rightarrow> rt\<lparr>ri_if_name := name\<rparr> | None \<Rightarrow> rt))
      else if ty = 5 then bindR (le_at 4 buf data) (\<lambda>a. Inr (rt\<lparr>ri_gateway := a\<rparr>))
      else if ty = 7 then bindR (le_at 4 buf data) (\<lambda>a. Inr (rt\<lparr>ri_src := a\<rparr>))
      else if ty = 1 then bindR (le_at 4 buf data) (\<lambda>a. Inr (rt\<lparr>ri_dst := a\<rparr>))
      else Inr rt)"

text \<open>\<open>RTA_OK(rtAttr, rtLen)\<close>\<close>

definition rta_ok :: "bytes \<Rightarrow> nat \<Rightarrow> int \<Rightarrow> bool result" where
  "rta_ok buf off len =
     (if len < 4 then Inr False
      else bindR (le_at 2 buf off) (\<lambda>n. Inr (4 \<le> n \<and> int n \<le> len)))"

lemma align4_bounds: "n \<le> align4 n" "align4 n < n + 4"
proof -
  have "4 * ((n + 3) div 4) + (n + 3) mod 4 = n + 3" by simp
  moreover have "(n + 3) mod 4 < 4" by simp
  ultimately show "n \<le> align4 n" "align4 n < n + 4" unfolding align4_def by linarith+
qed

function parse_attrs ::
  "(nat \<Rightarrow> bytes option) \<Rightarrow> bytes \<Rightarrow> nat \<Rightarrow> int \<Rightarrow> route_info \<Rightarrow> route_info result" where
  "parse_attrs names buf off len rt =
     bindR (rta_ok buf off len) (\<lambda>ok.
       if ok then
         bindR (le_at 2 buf off) (\<lambda>n. bindR (le_at 2 buf (off + 2)) (\<lambda>ty.
         bindR (parse_attr names buf ty (off + 4) rt) (\<lambda>rt.
           parse_attrs names buf (off + align4 n) (len - int (align4 n)) rt)))
       else Inr rt)"
  by pat_completeness auto
termination
proof (relation "measure (\<lambda>(names, buf, off, len, rt). nat len)", simp)
  fix names :: "nat \<Rightarrow> bytes option" and buf off len and rt :: route_info and ok n ty rt'
  assume "rta_ok buf off len = Inr ok" and "ok" and "le_at 2 buf off = Inr n"
  then have "4 \<le> n" and "4 \<le> len" by (auto simp: rta_ok_def split: if_splits)
  with align4_bounds(1) [of n]
  show "((names, buf, off + align4 n, len - int (align4 n), rt'), names, buf, off, len, rt)
      \<in> measure (\<lambda>(names, buf, off, len, rt). nat len)" by simp
qed

declare parse_attrs.simps [simp del]

text \<open>
  \<open>parseRoutes\<close>: the message's data starts behind its header of 16 bytes with a \<open>rtmsg\<close> of 12, whose
  family must be \<open>AF_INET\<close> (2) and whose table \<open>RT_TABLE_MAIN\<close> (254).
\<close>

definition parse_routes ::
  "(nat \<Rightarrow> bytes option) \<Rightarrow> bytes \<Rightarrow> nat \<Rightarrow> route_info \<Rightarrow> route_info result" where
  "parse_routes names buf off rt =
     bindR (le_at 1 buf (off + 16)) (\<lambda>family.
       if family \<noteq> 2 then Inr rt
       else bindR (le_at 1 buf (off + 20)) (\<lambda>table.
         if table \<noteq> 254 then Inr rt
         else bindR (le_at 4 buf off) (\<lambda>len. parse_attrs names buf (off + 28) (int len - 28) rt)))"

text \<open>The loop of \<open>get_interface\<close> over the messages of the buffer.\<close>

function scan_routes ::
  "(nat \<Rightarrow> bytes option) \<Rightarrow> bytes \<Rightarrow> nat \<Rightarrow> int \<Rightarrow> bytes \<Rightarrow> bytes result" where
  "scan_routes names buf off len interface =
     bindR (nlmsg_ok buf off len) (\<lambda>ok.
       if ok then
         bindR (parse_routes names buf off route_zero) (\<lambda>rt.
           let interface = (if ri_dst rt = 0 \<and> length (ri_if_name rt) \<noteq> 0 then ri_if_name rt else interface)
           in bindR (le_at 4 buf off) (\<lambda>n.
             scan_routes names buf (off + align4 n) (len - int (align4 n)) interface))
       else Inr interface)"
  by pat_completeness auto
termination
proof (relation "measure (\<lambda>(names, buf, off, len, interface). nat len)", simp)
  fix names :: "nat \<Rightarrow> bytes option" and buf off len and interface interface' :: bytes and ok n and rt :: route_info
  assume "nlmsg_ok buf off len = Inr ok" and "ok" and "le_at 4 buf off = Inr n"
  then have "16 \<le> n" and "16 \<le> len" by (auto simp: nlmsg_ok_def split: if_splits)
  with align4_bounds(1) [of n]
  show "((names, buf, off + align4 n, len - int (align4 n), interface'), names, buf, off, len, interface)
      \<in> measure (\<lambda>(names, buf, off, len, interface). nat len)" by simp
qed

declare scan_routes.simps [simp del]

text \<open>
  \<open>get_interface\<close>: the request for a dump of the routes (\<open>RTM_GETROUTE\<close> is 26, the flags \<open>NLM_F_DUMP\<close>
  and \<open>NLM_F_REQUEST\<close> 769, sequence number 0) is built at the start of the buffer the reply is read
  into; \<open>readNlSock\<close> is called with the incremented sequence number.
\<close>

fun le_bytes :: "nat \<Rightarrow> nat \<Rightarrow> bytes" where
  "le_bytes 0 n = []"
| "le_bytes (Suc k) n = of_nat n # le_bytes k (n div 256)"

definition nl_request :: "nat \<Rightarrow> bytes" where
  "nl_request pid =
     (let hdr = le_bytes 4 28 @ le_bytes 2 26 @ le_bytes 2 769 @ le_bytes 4 0 @ le_bytes 4 pid
      in hdr @ replicate (BUFSIZE - length hdr) 0)"

definition get_interface ::
  "(nat \<Rightarrow> bytes option) \<Rightarrow> nat \<Rightarrow> bool \<Rightarrow> bytes option list \<Rightarrow> bytes result" where
  "get_interface names pid sent datagrams =
     (let msgBuf = nl_request pid in
      if \<not> sent then Inr []
      else bindR (read_nl_sock datagrams 0 msgBuf 1 pid) (\<lambda>(len, msgBuf).
        if len < 0 then Inr [] else scan_routes names msgBuf 0 len []))"

section \<open>Addresses\<close>

text \<open>\<open>None\<close> as a family is a missing address, as a host a failure of \<open>getnameinfo\<close>.\<close>

record ifaddr =
  ifa_name :: bytes
  ifa_family :: "nat option"
  ifa_host :: "bytes option"

text \<open>\<open>host.find(p) != npos\<close>\<close>

fun contains_str :: "bytes \<Rightarrow> bytes \<Rightarrow> bool" where
  "contains_str p [] \<longleftrightarrow> p = []"
| "contains_str p (c # s) \<longleftrightarrow> take (length p) (c # s) = p \<or> contains_str p s"

text \<open>\<open>"192.168."\<close>\<close>

definition private_part :: bytes where
  "private_part = [49, 57, 50, 46, 49, 54, 56, 46]"

text \<open>\<open>AF_INET\<close> is 2 and \<open>AF_INET6\<close> 10.\<close>

fun ip_walk :: "bytes \<Rightarrow> ifaddr list \<Rightarrow> bytes \<Rightarrow> bytes" where
  "ip_walk interface [] ip = ip"
| "ip_walk interface (ifa # ifas) ip =
     (case ifa_family ifa of
        None \<Rightarrow> ip_walk interface ifas ip
      | Some family \<Rightarrow>
          if family = 2 \<or> family = 10 then
            (case ifa_host ifa of
               None \<Rightarrow> ip
             | Some host \<Rightarrow>
                 ip_walk interface ifas
                   (if interface = ifa_name ifa \<and> \<not> contains_str private_part host then host else ip))
          else ip_walk interface ifas ip)"

definition get_ip_from_interface :: "ifaddr list option \<Rightarrow> bytes \<Rightarrow> bytes" where
  "get_ip_from_interface ifaddrs interface =
     (case ifaddrs of None \<Rightarrow> [] | Some ifas \<Rightarrow> ip_walk interface ifas [])"

definition estimate_outside_ip ::
  "(nat \<Rightarrow> bytes option) \<Rightarrow> nat \<Rightarrow> bool \<Rightarrow> bytes option list \<Rightarrow> ifaddr list option \<Rightarrow> bytes result" where
  "estimate_outside_ip names pid sent datagrams ifaddrs =
     bindR (get_interface names pid sent datagrams) (\<lambda>interface.
       Inr (if length interface \<noteq> 0 then get_ip_from_interface ifaddrs interface else []))"

end
