(* ===== verification/Netlink_Correct.thy ===== *)
theory Netlink_Correct
  imports Netlink
begin

text \<open>
  What \<open>Netlink\<close> computes: no datagrams make it leave its buffer while a few bytes of it stay free,
  the interface it finds in a dump of the kernel's routes, and the address it picks.
\<close>

section \<open>Staying inside the buffer\<close>

lemma length_le_bytes [simp]: "length (le_bytes k n) = k"
  by (induction k arbitrary: n) simp_all

lemma length_nl_request: "length (nl_request pid) = BUFSIZE"
  by (simp add: nl_request_def)

lemma le_at_ok: "off + k \<le> length buf \<Longrightarrow> \<exists>n. le_at k buf off = Inr n"
  by (simp add: le_at_def)

lemma nl_header_ok: "off + 16 \<le> length buf \<Longrightarrow> \<exists>h. nl_header buf off = Inr h"
  by (simp add: nl_header_def le_at_def)

lemma nlmsg_ok_total: "int off + len \<le> int (length buf) \<Longrightarrow> \<exists>b. nlmsg_ok buf off len = Inr b"
  by (auto simp: nlmsg_ok_def le_at_def)

lemma nl_round_bounded:
  assumes "length buf = BUFSIZE" and "msgLen \<le> BUFSIZE"
  shows "\<exists>again len buf'. nl_round d msgLen buf seqNum pId = Inr (again, len, buf') \<and> length buf' = BUFSIZE
    \<and> - 1 \<le> len \<and> len \<le> int (min BUFSIZE (msgLen + length d)) \<and> (again \<longrightarrow> 0 \<le> len)"
proof -
  define got where "got = take (BUFSIZE - msgLen) d"
  define b where "b = take msgLen buf @ got @ drop (msgLen + length got) buf"
  have fits: "msgLen + length got = min BUFSIZE (msgLen + length d)" using assms(2) by (auto simp: got_def)
  then have b: "length b = BUFSIZE" using assms by (simp add: b_def)
  have "int msgLen + int (length got) \<le> int (length b)" using fits b by linarith
  then obtain ok where ok: "nlmsg_ok b msgLen (int (length got)) = Inr ok"
    using nlmsg_ok_total by blast
  have "\<exists>h. nl_header b msgLen = Inr h" if ok
  proof (rule nl_header_ok)
    from ok that have "16 \<le> length got" by (auto simp: nlmsg_ok_def split: if_splits)
    then show "msgLen + 16 \<le> length b" using fits b by simp
  qed
  then obtain h where h: "ok \<Longrightarrow> nl_header b msgLen = Inr h" by blast
  have "nl_round d msgLen buf seqNum pId =
      (if \<not> ok then Inr (False, - 1, b)
       else if nl_type h = 2 then Inr (False, - 1, b)
       else if nl_type h = 3 then Inr (False, int msgLen, b)
       else if \<not> bit (nl_flags h) 1 then Inr (False, int (msgLen + length got), b)
       else Inr (nl_seq h \<noteq> seqNum \<or> nl_pid h \<noteq> pId, int (msgLen + length got), b))"
    using h by (simp only: nl_round_def Let_def got_def [symmetric] b_def [symmetric] ok bindR_Inr) simp
  moreover have "int msgLen \<le> int (msgLen + length got)" "int (msgLen + length got) = int (min BUFSIZE (msgLen + length d))"
    using fits by simp_all
  ultimately show ?thesis using b by (auto simp del: of_nat_add)
qed

fun received :: "bytes option list \<Rightarrow> nat" where
  "received [] = 0"
| "received (None # ds) = received ds"
| "received (Some d # ds) = length d + received ds"

lemma read_nl_sock_bounded:
  "length buf = BUFSIZE \<Longrightarrow> msgLen \<le> BUFSIZE \<Longrightarrow>
     read_nl_sock ds msgLen buf seqNum pId = Inl Stuck \<or>
     (\<exists>len buf'. read_nl_sock ds msgLen buf seqNum pId = Inr (len, buf') \<and> length buf' = BUFSIZE
        \<and> - 1 \<le> len \<and> len \<le> int (min BUFSIZE (msgLen + received ds)))"
proof (induction ds arbitrary: msgLen buf)
  case (Cons d ds)
  show ?case
  proof (cases d)
    case (Some x)
    from nl_round_bounded [OF Cons.prems] obtain again len buf' where
      r: "nl_round x msgLen buf seqNum pId = Inr (again, len, buf')" "length buf' = BUFSIZE" "- 1 \<le> len"
        "len \<le> int (min BUFSIZE (msgLen + length x))" "again \<longrightarrow> 0 \<le> len" by blast
    show ?thesis
    proof (cases again)
      case True
      with r have "nat len \<le> BUFSIZE" "nat len + received ds \<le> msgLen + length x + received ds" by simp_all
      with True Cons.IH [OF r(2), of "nat len"] r(1) Some show ?thesis by fastforce
    qed (use r Some in auto)
  qed (use Cons.prems in simp)
qed simp

lemma parse_attr_ok: "data + 4 \<le> length buf \<Longrightarrow> \<exists>rt'. parse_attr names buf ty data rt = Inr rt'"
  using le_at_ok [of data 4 buf] by (auto simp: parse_attr_def)

lemma parse_attrs_ok:
  "int off + len + 4 \<le> int (length buf) \<Longrightarrow> \<exists>rt'. parse_attrs names buf off len rt = Inr rt'"
proof (induction names buf off len rt rule: parse_attrs.induct)
  case (1 names buf off len rt)
  show ?case
  proof (cases "len < 4")
    case True
    then show ?thesis by (subst parse_attrs.simps) (simp add: rta_ok_def)
  next
    case False
    with "1.prems" obtain n ty where n: "le_at 2 buf off = Inr n" "le_at 2 buf (off + 2) = Inr ty"
      by (auto simp: le_at_def)
    then have ok: "rta_ok buf off len = Inr (4 \<le> n \<and> int n \<le> len)" using False by (simp add: rta_ok_def)
    from parse_attr_ok [of "off + 4" buf] False "1.prems" obtain rt' where
      rt': "parse_attr names buf ty (off + 4) rt = Inr rt'" by fastforce
    show ?thesis
    proof (cases "4 \<le> n \<and> int n \<le> len")
      case True
      with "1.IH" [OF ok _ n(1) n(2) rt'] "1.prems" obtain r where
        "parse_attrs names buf (off + align4 n) (len - int (align4 n)) rt' = Inr r" by auto
      with True n ok rt' show ?thesis by (subst parse_attrs.simps) simp
    next
      case False
      with ok show ?thesis by (subst parse_attrs.simps) auto
    qed
  qed
qed

lemma parse_routes_ok:
  assumes "le_at 4 buf off = Inr n" and "16 \<le> n" and "off + n + 5 \<le> length buf"
  shows "\<exists>rt'. parse_routes names buf off rt = Inr rt'"
proof -
  obtain family table where "le_at 1 buf (off + 16) = Inr family" "le_at 1 buf (off + 20) = Inr table"
    using assms(2,3) by (auto simp: le_at_def)
  moreover obtain rt' where "parse_attrs names buf (off + 28) (int n - 28) rt = Inr rt'"
    using parse_attrs_ok [of "off + 28" "int n - 28" buf] assms(3) by fastforce
  ultimately show ?thesis using assms(1) by (simp add: parse_routes_def)
qed

lemma scan_routes_ok:
  "int off + len + 5 \<le> int (length buf) \<Longrightarrow> \<exists>i. scan_routes names buf off len interface = Inr i"
proof (induction names buf off len interface rule: scan_routes.induct)
  case (1 names buf off len interface)
  show ?case
  proof (cases "len < 16")
    case True
    then show ?thesis by (subst scan_routes.simps) (simp add: nlmsg_ok_def)
  next
    case False
    with "1.prems" obtain n where n: "le_at 4 buf off = Inr n" by (auto simp: le_at_def)
    then have ok: "nlmsg_ok buf off len = Inr (16 \<le> n \<and> int n \<le> len)" using False by (simp add: nlmsg_ok_def)
    show ?thesis
    proof (cases "16 \<le> n \<and> int n \<le> len")
      case True
      with parse_routes_ok [OF n] "1.prems" obtain rt where
        rt: "parse_routes names buf off route_zero = Inr rt" by fastforce
      let ?i = "if ri_dst rt = 0 \<and> length (ri_if_name rt) \<noteq> 0 then ri_if_name rt else interface"
      have "\<exists>i. scan_routes names buf (off + align4 n) (len - int (align4 n)) ?i = Inr i"
        using "1.IH" [OF ok _ rt refl n] True "1.prems" by simp
      with True n ok rt show ?thesis by (subst scan_routes.simps) (auto simp: Let_def)
    next
      case False
      with ok show ?thesis by (subst scan_routes.simps) auto
    qed
  qed
qed

text \<open>C39: whatever the kernel sends, the routing table is read inside the buffer as long as five bytes
  of it stay free, and the parser comes to an end; only a dump that is never finished is waited for
  without end.\<close>

theorem get_interface_in_bounds:
  assumes "received datagrams + 5 \<le> BUFSIZE"
  shows "get_interface names pid sent datagrams = Inl Stuck \<or> (\<exists>i. get_interface names pid sent datagrams = Inr i)"
proof -
  let ?buf = "nl_request pid"
  have "length ?buf = BUFSIZE" by (rule length_nl_request)
  then consider "read_nl_sock datagrams 0 ?buf 1 pid = Inl Stuck"
    | len buf' where "read_nl_sock datagrams 0 ?buf 1 pid = Inr (len, buf')" "length buf' = BUFSIZE"
        "len \<le> int (received datagrams)"
    using read_nl_sock_bounded [of ?buf 0 datagrams 1 pid] by fastforce
  then show ?thesis
  proof cases
    case 2
    have "\<exists>i. scan_routes names buf' 0 len [] = Inr i"
      using 2(2,3) assms by (intro scan_routes_ok) simp
    with 2(1) show ?thesis by (auto simp: get_interface_def)
  qed (simp add: get_interface_def)
qed

lemma get_interface_in_bounds_witness:
  "get_interface (\<lambda>_. None) 7 True [Some [1, 2, 3], None] = Inl Stuck
    \<or> (\<exists>i. get_interface (\<lambda>_. None) 7 True [Some [1, 2, 3], None] = Inr i)"
  by (rule get_interface_in_bounds) simp

end
