(* ===== verification/Netlink_Dump.thy ===== *)
theory Netlink_Dump
  imports Netlink_Correct
begin

text \<open>
  The reader of the routing table against a dump of it: the messages of \<open>rtnetlink(7)\<close> for a list of
  routes are written down, and \<open>get_interface\<close> is shown to find the interface of the last default
  route in them.
\<close>

section \<open>A dump of the kernel's routes\<close>

record kroute =
  kr_family :: nat
  kr_table :: nat
  kr_attrs :: "(nat \<times> bytes) list"

definition attr_bytes :: "nat \<times> bytes \<Rightarrow> bytes" where
  "attr_bytes a = (let n = 4 + length (snd a) in
     le_bytes 2 n @ le_bytes 2 (fst a) @ snd a @ replicate (align4 n - n) 0)"

definition route_body :: "kroute \<Rightarrow> bytes" where
  "route_body r = of_nat (kr_family r) # replicate 3 0 @ of_nat (kr_table r) # replicate 7 0
     @ concat (map attr_bytes (kr_attrs r))"

definition nl_message :: "nat \<Rightarrow> nat \<Rightarrow> bytes \<Rightarrow> bytes" where
  "nl_message ty pid body = le_bytes 4 (16 + length body) @ le_bytes 2 ty @ le_bytes 2 2
     @ le_bytes 4 0 @ le_bytes 4 pid @ body"

text \<open>\<open>RTM_NEWROUTE\<close> is 24.\<close>

definition route_msg :: "nat \<Rightarrow> kroute \<Rightarrow> bytes" where
  "route_msg pid r = nl_message 24 pid (route_body r)"

definition dump_bytes :: "nat \<Rightarrow> kroute list \<Rightarrow> bytes" where
  "dump_bytes pid rs = concat (map (route_msg pid) rs)"

definition done_msg :: "nat \<Rightarrow> bytes" where
  "done_msg pid = nl_message 3 pid (replicate 4 0)"

text \<open>
  The fields fit their widths, and in the IPv4 routes of the main table addresses and interface
  numbers have four bytes; the attributes of other routes, the 16 bytes of an IPv6 address for
  example, are of any size.
\<close>

definition attr_ok :: "nat \<times> bytes \<Rightarrow> bool" where
  "attr_ok a \<longleftrightarrow> fst a < 2 ^ 16 \<and> 4 + length (snd a) < 2 ^ 16
     \<and> (fst a \<in> {1, 4, 5, 7} \<longrightarrow> length (snd a) = 4)"

definition in_main :: "kroute \<Rightarrow> bool" where
  "in_main r \<longleftrightarrow> kr_family r = 2 \<and> kr_table r = 254"

definition kroute_ok :: "kroute \<Rightarrow> bool" where
  "kroute_ok r \<longleftrightarrow> kr_family r < 256 \<and> kr_table r < 256 \<and> (in_main r \<longrightarrow> list_all attr_ok (kr_attrs r))"

text \<open>What a route says, and the interfaces of the default routes.\<close>

definition attr_effect :: "(nat \<Rightarrow> bytes option) \<Rightarrow> nat \<times> bytes \<Rightarrow> route_info \<Rightarrow> route_info" where
  "attr_effect names a rt = (let v = value_of 8 (snd a) in
     if fst a = 4 then (case names v of Some name \<Rightarrow> rt\<lparr>ri_if_name := name\<rparr> | None \<Rightarrow> rt)
     else if fst a = 5 then rt\<lparr>ri_gateway := v\<rparr>
     else if fst a = 7 then rt\<lparr>ri_src := v\<rparr>
     else if fst a = 1 then rt\<lparr>ri_dst := v\<rparr> else rt)"

definition route_of :: "(nat \<Rightarrow> bytes option) \<Rightarrow> kroute \<Rightarrow> route_info" where
  "route_of names r = fold (attr_effect names) (kr_attrs r) route_zero"

definition default_interfaces :: "(nat \<Rightarrow> bytes option) \<Rightarrow> kroute list \<Rightarrow> bytes list" where
  "default_interfaces names rs = map (\<lambda>r. ri_if_name (route_of names r))
     (filter (\<lambda>r. kr_family r = 2 \<and> kr_table r = 254 \<and> ri_dst (route_of names r) = 0
        \<and> ri_if_name (route_of names r) \<noteq> []) rs)"

definition last_or :: "bytes \<Rightarrow> bytes list \<Rightarrow> bytes" where
  "last_or x xs = (if xs = [] then x else last xs)"

section \<open>Reading what was written\<close>

lemma value_of_le_bytes: "n < 256 ^ k \<Longrightarrow> value_of 8 (le_bytes k n) = n"
proof (induction k arbitrary: n)
  case (Suc k)
  then have "n div 256 < 256 ^ k" by (simp add: less_mult_imp_div_less mult.commute)
  with Suc.IH show ?case by (simp add: unsigned_of_nat take_bit_eq_mod)
qed simp

lemma le_at_append: "length x = k \<Longrightarrow> off = length pre \<Longrightarrow> le_at k (pre @ x @ post) off = Inr (value_of 8 x)"
  by (simp add: le_at_def)

lemma le_at_le_bytes:
  "n < 256 ^ k \<Longrightarrow> off = length pre \<Longrightarrow> le_at k (pre @ le_bytes k n @ post) off = Inr n"
  by (simp add: le_at_append value_of_le_bytes)

lemma align4_multiple: "4 dvd n \<Longrightarrow> align4 n = n"
  by (auto simp: align4_def)

lemma align4_dvd: "4 dvd align4 n"
  by (simp add: align4_def)

lemma length_attr_bytes: "length (attr_bytes a) = align4 (4 + length (snd a))"
  using align4_bounds(1) [of "4 + length (snd a)"] by (simp add: attr_bytes_def Let_def)

lemma parse_attrs_correct:
  "list_all attr_ok attrs \<Longrightarrow> off = length pre \<Longrightarrow>
     parse_attrs names (pre @ concat (map attr_bytes attrs) @ post) off
       (int (length (concat (map attr_bytes attrs)))) rt = Inr (fold (attr_effect names) attrs rt)"
proof (induction attrs arbitrary: pre off rt)
  case Nil
  then show ?case by (subst parse_attrs.simps) (simp add: rta_ok_def)
next
  case (Cons a attrs)
  obtain ty x where a: "a = (ty, x)" by (cases a)
  let ?n = "4 + length x" and ?more = "concat (map attr_bytes attrs)"
  let ?buf = "pre @ concat (map attr_bytes (a # attrs)) @ post"
  from Cons.prems(1) have wf: "ty < 2 ^ 16" "?n < 2 ^ 16" "ty \<in> {1, 4, 5, 7} \<longrightarrow> length x = 4"
    by (simp_all add: a attr_ok_def)
  let ?pad = "replicate (align4 ?n - ?n) 0 @ ?more @ post"
  have buf: "?buf = pre @ le_bytes 2 ?n @ le_bytes 2 ty @ x @ ?pad" by (simp add: a attr_bytes_def Let_def)
  have n: "le_at 2 ?buf off = Inr ?n"
    unfolding buf by (rule le_at_le_bytes) (use wf Cons.prems(2) in simp_all)
  have ty: "le_at 2 ?buf (off + 2) = Inr ty"
    using le_at_le_bytes [of ty 2 "off + 2" "pre @ le_bytes 2 ?n" "x @ ?pad"] wf(1) Cons.prems(2)
    unfolding buf by simp
  have x: "le_at 4 ?buf (off + 4) = Inr (value_of 8 x)" if "length x = 4"
    using le_at_append [of x 4 "off + 4" "pre @ le_bytes 2 ?n @ le_bytes 2 ty" ?pad] that Cons.prems(2)
    unfolding buf by simp
  have ok: "rta_ok ?buf off (int (length (concat (map attr_bytes (a # attrs))))) = Inr True"
    using n align4_bounds(1) [of ?n] by (simp add: rta_ok_def length_attr_bytes a)
  have attr: "parse_attr names ?buf ty (off + 4) rt = Inr (attr_effect names a rt)"
    using x wf(3) by (auto simp: parse_attr_def attr_effect_def a Let_def)
  have "parse_attrs names ((pre @ attr_bytes a) @ ?more @ post) (off + align4 ?n) (int (length ?more))
      (attr_effect names a rt) = Inr (fold (attr_effect names) attrs (attr_effect names a rt))"
    using Cons.prems by (intro Cons.IH) (simp_all add: length_attr_bytes a)
  then have "parse_attrs names ?buf (off + align4 ?n)
      (int (length (concat (map attr_bytes (a # attrs)))) - int (align4 ?n)) (attr_effect names a rt)
      = Inr (fold (attr_effect names) (a # attrs) rt)"
    by (simp add: length_attr_bytes a)
  with ok n ty attr show ?case by (subst parse_attrs.simps) (simp only: bindR_Inr if_True)
qed

lemma length_route_body: "4 dvd length (route_body r)" "12 \<le> length (route_body r)"
proof -
  have "4 dvd length (concat (map attr_bytes as))" for as
    by (induction as) (simp_all add: length_attr_bytes align4_dvd)
  then show "4 dvd length (route_body r)" by (simp add: route_body_def dvd_add_right_iff [of 4 12, simplified])
qed (simp add: route_body_def)

lemma length_nl_message [simp]: "length (nl_message ty pid body) = 16 + length body"
  by (simp add: nl_message_def)

lemma le_at_message_length:
  "16 + length body < 2 ^ 32 \<Longrightarrow> off = length pre \<Longrightarrow>
     le_at 4 (pre @ nl_message ty pid body @ post) off = Inr (16 + length body)"
  by (simp add: nl_message_def le_at_le_bytes)

text \<open>What the readers find in the message of a route.\<close>

lemma route_msg_fields:
  assumes ok: "kroute_ok r" and len: "16 + length (route_body r) < 2 ^ 32" and off: "off = length pre"
  shows "le_at 1 (pre @ route_msg pid r @ post) (off + 16) = Inr (kr_family r)"
    and "le_at 1 (pre @ route_msg pid r @ post) (off + 20) = Inr (kr_table r)"
    and "le_at 4 (pre @ route_msg pid r @ post) off = Inr (16 + length (route_body r))"
    and "in_main r \<Longrightarrow> parse_attrs names (pre @ route_msg pid r @ post) (off + 28) (int (16 + length (route_body r)) - 28) route_zero
      = Inr (route_of names r)"
proof -
  let ?buf = "pre @ route_msg pid r @ post" and ?attrs = "concat (map attr_bytes (kr_attrs r))"
  define hdr where "hdr = le_bytes 4 (16 + length (route_body r)) @ le_bytes 2 24 @ le_bytes 2 2 @ le_bytes 4 0 @ le_bytes 4 pid"
  have hdr: "length hdr = 16" by (simp add: hdr_def)
  let ?rest = "replicate 7 0 @ ?attrs @ post"
  have buf: "?buf = pre @ hdr @ [of_nat (kr_family r)] @ replicate 3 0 @ [of_nat (kr_table r)] @ ?rest"
    by (simp add: route_msg_def nl_message_def route_body_def hdr_def)
  have byte: "value_of 8 [of_nat k] = k" if "k < 256" for k
    using that by (simp add: unsigned_of_nat take_bit_nat_eq_self)
  show "le_at 1 ?buf (off + 16) = Inr (kr_family r)"
    using le_at_append [of "[of_nat (kr_family r)]" 1 "off + 16" "pre @ hdr"] ok hdr off byte
    unfolding buf by (simp add: kroute_ok_def)
  show "le_at 1 ?buf (off + 20) = Inr (kr_table r)"
    using le_at_append [of "[of_nat (kr_table r)]" 1 "off + 20" "pre @ hdr @ [of_nat (kr_family r)] @ replicate 3 0"] ok hdr off byte
    unfolding buf by (simp add: kroute_ok_def)
  show "le_at 4 ?buf off = Inr (16 + length (route_body r))"
    unfolding route_msg_def by (rule le_at_message_length [OF len off])
  show "parse_attrs names ?buf (off + 28) (int (16 + length (route_body r)) - 28) route_zero = Inr (route_of names r)" if "in_main r"
    using parse_attrs_correct [of "kr_attrs r" "off + 28" "pre @ hdr @ [of_nat (kr_family r)] @ replicate 3 0
        @ [of_nat (kr_table r)] @ replicate 7 0" names post route_zero] ok hdr off that
    unfolding buf by (simp add: kroute_ok_def route_of_def route_body_def)
qed

lemma parse_routes_correct:
  "kroute_ok r \<Longrightarrow> 16 + length (route_body r) < 2 ^ 32 \<Longrightarrow> off = length pre \<Longrightarrow>
     parse_routes names (pre @ route_msg pid r @ post) off route_zero =
       Inr (if kr_family r = 2 \<and> kr_table r = 254 then route_of names r else route_zero)"
  unfolding parse_routes_def by (simp only: route_msg_fields(1-3) bindR_Inr) (simp add: route_msg_fields(4) [simplified] in_main_def)

text \<open>How a loop over the messages sees the first of them.\<close>

lemma route_msg_next:
  assumes "length (dump_bytes pid (r # rs)) < 2 ^ 32" and "off = length pre"
  shows "16 + length (route_body r) < 2 ^ 32" and "align4 (16 + length (route_body r)) = 16 + length (route_body r)"
    and "le_at 4 (pre @ dump_bytes pid (r # rs) @ post) off = Inr (16 + length (route_body r))"
    and "nlmsg_ok (pre @ dump_bytes pid (r # rs) @ post) off (int (length (dump_bytes pid (r # rs)))) = Inr True"
proof -
  show len: "16 + length (route_body r) < 2 ^ 32" using assms(1) by (simp add: dump_bytes_def route_msg_def)
  show "align4 (16 + length (route_body r)) = 16 + length (route_body r)"
    using length_route_body(1) [of r] by (intro align4_multiple) simp
  show n: "le_at 4 (pre @ dump_bytes pid (r # rs) @ post) off = Inr (16 + length (route_body r))"
    using le_at_message_length [OF len assms(2), of 24 pid "dump_bytes pid rs @ post"]
    by (simp add: dump_bytes_def route_msg_def)
  then show "nlmsg_ok (pre @ dump_bytes pid (r # rs) @ post) off (int (length (dump_bytes pid (r # rs)))) = Inr True"
    by (simp add: nlmsg_ok_def dump_bytes_def route_msg_def)
qed

lemma dump_bytes_Cons: "dump_bytes pid (r # rs) = route_msg pid r @ dump_bytes pid rs"
  by (simp add: dump_bytes_def)

lemma scan_routes_correct:
  "list_all kroute_ok rs \<Longrightarrow> length (dump_bytes pid rs) < 2 ^ 32 \<Longrightarrow> off = length pre \<Longrightarrow>
     scan_routes names (pre @ dump_bytes pid rs @ post) off (int (length (dump_bytes pid rs))) interface =
       Inr (last_or interface (default_interfaces names rs))"
proof (induction rs arbitrary: pre off interface)
  case Nil
  then show ?case
    by (subst scan_routes.simps) (simp add: nlmsg_ok_def last_or_def default_interfaces_def dump_bytes_def)
next
  case (Cons r rs)
  let ?n = "16 + length (route_body r)" and ?more = "dump_bytes pid rs"
  let ?buf = "pre @ dump_bytes pid (r # rs) @ post" and ?len = "int (length (dump_bytes pid (r # rs)))"
  note nxt = route_msg_next [OF Cons.prems(2,3)]
  define rt where "rt = (if kr_family r = 2 \<and> kr_table r = 254 then route_of names r else route_zero)"
  have rt: "parse_routes names ?buf off route_zero = Inr rt"
    using parse_routes_correct [OF _ nxt(1) Cons.prems(3), of names pid "?more @ post"] Cons.prems(1)
    by (simp add: rt_def dump_bytes_Cons)
  define i where "i = (if ri_dst rt = 0 \<and> length (ri_if_name rt) \<noteq> 0 then ri_if_name rt else interface)"
  have i: "last_or i (default_interfaces names rs) = last_or interface (default_interfaces names (r # rs))"
    by (auto simp: i_def rt_def last_or_def default_interfaces_def route_zero_def)
  have "scan_routes names ((pre @ route_msg pid r) @ ?more @ post) (off + ?n) (int (length ?more)) i
      = Inr (last_or i (default_interfaces names rs))"
    using Cons.prems by (intro Cons.IH) (simp_all add: dump_bytes_Cons route_msg_def)
  then have "scan_routes names ?buf (off + align4 ?n) (?len - int (align4 ?n)) i
      = Inr (last_or interface (default_interfaces names (r # rs)))"
    using i unfolding nxt(2) by (simp add: dump_bytes_Cons) (simp add: route_msg_def)
  with nxt(3,4) rt show ?case by (subst scan_routes.simps) (simp only: bindR_Inr if_True Let_def i_def)
qed

section \<open>Receiving a dump\<close>

lemma nl_header_message:
  assumes "ty < 2 ^ 16" and "pid < 2 ^ 32" and "off = length pre"
  shows "nl_header (pre @ nl_message ty pid body @ post) off = Inr \<lparr>nl_type = ty, nl_flags = 2, nl_seq = 0, nl_pid = pid\<rparr>"
proof -
  let ?buf = "pre @ nl_message ty pid body @ post" and ?l = "le_bytes 4 (16 + length body)"
  have "le_at 2 ?buf (off + 4) = Inr ty"
    using le_at_le_bytes [of ty 2 "off + 4" "pre @ ?l"] assms by (simp add: nl_message_def)
  moreover have "le_at 2 ?buf (off + 6) = Inr 2"
    using le_at_le_bytes [of 2 2 "off + 6" "pre @ ?l @ le_bytes 2 ty"] assms by (simp add: nl_message_def)
  moreover have "le_at 4 ?buf (off + 8) = Inr 0"
    using le_at_le_bytes [of 0 4 "off + 8" "pre @ ?l @ le_bytes 2 ty @ le_bytes 2 2"] assms by (simp add: nl_message_def)
  moreover have "le_at 4 ?buf (off + 12) = Inr pid"
    using le_at_le_bytes [of pid 4 "off + 12" "pre @ ?l @ le_bytes 2 ty @ le_bytes 2 2 @ le_bytes 4 0"] assms
    by (simp add: nl_message_def)
  ultimately show ?thesis by (simp add: nl_header_def)
qed

lemma nl_round_message:
  assumes "ty < 2 ^ 16" "ty \<noteq> 2" "pid < 2 ^ 32" and d: "d = nl_message ty pid body @ tail"
    and buf: "length buf = BUFSIZE" "length pre + length d \<le> BUFSIZE"
  shows "nl_round d (length pre) (pre @ drop (length pre) buf) 1 pid =
    Inr (ty \<noteq> 3, int (length pre + (if ty = 3 then 0 else length d)), pre @ d @ drop (length pre + length d) buf)"
proof -
  have "take (BUFSIZE - length pre) d = d" using buf(2) by simp
  moreover have "16 + length body < 2 ^ 32" using d buf(2) by simp
  then have "nlmsg_ok (pre @ d @ drop (length pre + length d) buf) (length pre) (int (length d)) = Inr True"
    using le_at_message_length [of body "length pre" pre ty pid "tail @ drop (length pre + length d) buf"]
    by (simp add: nlmsg_ok_def d)
  moreover have "nl_header (pre @ d @ drop (length pre + length d) buf) (length pre) =
      Inr \<lparr>nl_type = ty, nl_flags = 2, nl_seq = 0, nl_pid = pid\<rparr>"
    using nl_header_message [OF assms(1,3) refl, of pre body "tail @ drop (length pre + length d) buf"] by (simp add: d)
  moreover have "take (length pre) (pre @ drop (length pre) buf) = pre"
    "drop (length pre + length d) (pre @ drop (length pre) buf) = drop (length pre + length d) buf"
    by (simp_all add: add.commute)
  ultimately show ?thesis using assms(2) unfolding nl_round_def by (simp add: Let_def bit_1_iff bit_iff_odd)
qed

lemma read_dump:
  assumes pid: "pid < 2 ^ 32"
  shows "\<forall>g \<in> set gs. g \<noteq> [] \<Longrightarrow> length buf = BUFSIZE \<Longrightarrow> take (length pre) buf = pre \<Longrightarrow>
     length pre + length (dump_bytes pid (concat gs)) + 20 \<le> BUFSIZE \<Longrightarrow>
     \<exists>tail. read_nl_sock (map (\<lambda>g. Some (dump_bytes pid g)) gs @ Some (done_msg pid) # ds) (length pre) buf 1 pid =
       Inr (int (length pre + length (dump_bytes pid (concat gs))), pre @ dump_bytes pid (concat gs) @ tail)
      \<and> length (pre @ dump_bytes pid (concat gs) @ tail) = BUFSIZE"
proof (induction gs arbitrary: pre buf)
  case Nil
  have buf: "pre @ drop (length pre) buf = buf" using Nil.prems(3) by (metis append_take_drop_id)
  have "length pre + length (done_msg pid) \<le> BUFSIZE" using Nil.prems(4) by (simp add: done_msg_def dump_bytes_def)
  then have "nl_round (done_msg pid) (length pre) buf 1 pid =
      Inr (False, int (length pre), pre @ done_msg pid @ drop (length pre + length (done_msg pid)) buf)"
    using nl_round_message [OF _ _ pid, of 3 "done_msg pid" "replicate 4 0" "[]" buf pre] Nil.prems(2)
    by (simp add: done_msg_def buf)
  then show ?case using Nil.prems by (simp add: dump_bytes_def done_msg_def)
next
  case (Cons g gs)
  let ?d = "dump_bytes pid g"
  obtain r rs where g: "g = r # rs" using Cons.prems(1) by (cases g) auto
  have d: "?d = nl_message 24 pid (route_body r) @ dump_bytes pid rs"
    by (simp add: g dump_bytes_def route_msg_def)
  have split: "dump_bytes pid (concat (g # gs)) = ?d @ dump_bytes pid (concat gs)" by (simp add: dump_bytes_def)
  have fits: "length pre + length ?d \<le> BUFSIZE" using Cons.prems(4) split by simp
  let ?buf = "pre @ ?d @ drop (length pre + length ?d) buf"
  have "pre @ drop (length pre) buf = buf" using Cons.prems(3) by (metis append_take_drop_id)
  then have round: "nl_round ?d (length pre) buf 1 pid = Inr (True, int (length (pre @ ?d)), ?buf)"
    using nl_round_message [OF _ _ pid d Cons.prems(2) fits] by simp
  have "\<exists>tail. read_nl_sock (map (\<lambda>g. Some (dump_bytes pid g)) gs @ Some (done_msg pid) # ds) (length (pre @ ?d)) ?buf 1 pid =
       Inr (int (length (pre @ ?d) + length (dump_bytes pid (concat gs))), (pre @ ?d) @ dump_bytes pid (concat gs) @ tail)
      \<and> length ((pre @ ?d) @ dump_bytes pid (concat gs) @ tail) = BUFSIZE"
    using Cons.prems fits split by (intro Cons.IH) simp_all
  then show ?case using round unfolding split by (auto simp: nat_int_add add.assoc)
qed

text \<open>\<open>get_interface\<close> understands the kernel: from a dump of IPv4 and other routes in any number of
  datagrams, closed by a \<open>NLMSG_DONE\<close> and fitting into the buffer, it returns the interface of the last
  route of the main table without a destination, or nothing when there is none. That it asks for the
  wrong sequence number does no harm.\<close>

lemma get_interface_default_route:
  assumes "pid < 2 ^ 32" and "\<forall>g \<in> set gs. g \<noteq> []" and "list_all kroute_ok (concat gs)"
    and "length (dump_bytes pid (concat gs)) + 20 \<le> BUFSIZE"
  shows "get_interface names pid True (map (\<lambda>g. Some (dump_bytes pid g)) gs @ Some (done_msg pid) # ds) =
    Inr (last_or [] (default_interfaces names (concat gs)))"
proof -
  let ?all = "dump_bytes pid (concat gs)"
  obtain tail where tail: "read_nl_sock (map (\<lambda>g. Some (dump_bytes pid g)) gs @ Some (done_msg pid) # ds) 0
      (nl_request pid) 1 pid = Inr (int (length ?all), ?all @ tail)"
    using read_dump [OF assms(1,2) length_nl_request, of "[]" pid ds] assms(4) by auto
  have "scan_routes names (?all @ tail) 0 (int (length ?all)) [] = Inr (last_or [] (default_interfaces names (concat gs)))"
    using scan_routes_correct [OF assms(3), of pid 0 "[]" names tail "[]"] assms(4) by simp
  with tail show ?thesis by (simp add: get_interface_def)
qed

section \<open>The address of the interface\<close>

text \<open>The addresses looked at, up to the first that cannot be turned into text.\<close>

definition is_ip :: "ifaddr \<Rightarrow> bool" where
  "is_ip ifa \<longleftrightarrow> ifa_family ifa = Some 2 \<or> ifa_family ifa = Some 10"

definition outside_hosts :: "bytes \<Rightarrow> ifaddr list \<Rightarrow> bytes list" where
  "outside_hosts interface ifas = filter (\<lambda>host. \<not> contains_str private_part host)
     (map (the \<circ> ifa_host) (filter (\<lambda>ifa. is_ip ifa \<and> ifa_name ifa = interface)
       (takeWhile (\<lambda>ifa. is_ip ifa \<longrightarrow> ifa_host ifa \<noteq> None) ifas)))"

lemma ip_walk_eq: "ip_walk interface ifas ip = last_or ip (outside_hosts interface ifas)"
proof (induction ifas arbitrary: ip)
  case (Cons ifa ifas)
  then show ?case
    by (cases "ifa_family ifa"; cases "ifa_host ifa") (auto simp: is_ip_def outside_hosts_def last_or_def)
qed (simp add: outside_hosts_def last_or_def)

text \<open>\<open>contains_str\<close> is the search for a substring.\<close>

lemma contains_str_iff: "contains_str p s \<longleftrightarrow> (\<exists>a b. s = a @ p @ b)"
proof (induction s)
  case (Cons c s)
  have "(\<exists>a b. c # s = a @ p @ b) \<longleftrightarrow> (\<exists>b. c # s = p @ b) \<or> (\<exists>a b. s = a @ p @ b)"
    by (metis append_Cons append_Nil list.inject neq_Nil_conv)
  moreover have "(\<exists>b. c # s = p @ b) \<longleftrightarrow> take (length p) (c # s) = p"
    by (metis append_eq_conv_conj append_take_drop_id)
  ultimately show ?case using Cons by simp
qed auto

text \<open>C20: \<open>estimate_outside_ip\<close> understands the kernel: from a dump of routes of any family in any number
  of datagrams, closed by a \<open>NLMSG_DONE\<close> and fitting into the buffer, in which the IPv4 routes of the
  main table have addresses and interface numbers of four bytes, it takes the interface of the last
  of these routes that has no destination and whose interface has a name, and of this interface the
  last address listed, IPv4 or IPv6, in whose text \<open>"192.168."\<close> occurs nowhere, up to the first address that cannot be shown.\<close>

theorem estimate_outside_ip_correct:
  assumes "pid < 2 ^ 32" and "\<forall>g \<in> set gs. g \<noteq> []" and "list_all kroute_ok (concat gs)"
    and "length (dump_bytes pid (concat gs)) + 20 \<le> BUFSIZE"
  shows "estimate_outside_ip names pid True
      (map (\<lambda>g. Some (dump_bytes pid g)) gs @ Some (done_msg pid) # ds) (Some ifas) =
    Inr (let interface = last_or [] (default_interfaces names (concat gs)) in
      if interface = [] then [] else last_or [] (outside_hosts interface ifas))"
  using get_interface_default_route [OF assms]
  by (simp add: estimate_outside_ip_def get_ip_from_interface_def ip_walk_eq Let_def)

definition sample_route :: "(nat \<times> bytes) list \<Rightarrow> kroute" where
  "sample_route as = \<lparr>kr_family = 2, kr_table = 254, kr_attrs = as\<rparr>"

text \<open>The dump has an IPv6 route to \<open>fe80::\<close> between the default route and another.\<close>

lemma estimate_outside_ip_correct_witness:
  "estimate_outside_ip (\<lambda>i. if i = 2 then Some [101] else None) 7 True
     [Some (dump_bytes 7 [sample_route [(4, [2, 0, 0, 0])],
        \<lparr>kr_family = 10, kr_table = 254, kr_attrs = [(1, 254 # 128 # replicate 14 0), (4, [3, 0, 0, 0])]\<rparr>,
        sample_route [(1, [10, 0, 0, 0])]]), Some (done_msg 7)]
     (Some [\<lparr>ifa_name = [101], ifa_family = Some 2, ifa_host = Some [56]\<rparr>]) = Inr [56]"
proof -
  let ?six = "\<lparr>kr_family = 10, kr_table = 254, kr_attrs = [(1, 254 # 128 # replicate 14 0), (4, [3, 0, 0, 0])]\<rparr>"
  let ?gs = "[[sample_route [(4, [2, 0, 0, 0])], ?six, sample_route [(1, [10, 0, 0, 0])]]]"
  have "list_all kroute_ok (concat ?gs)" by (simp add: kroute_ok_def attr_ok_def in_main_def sample_route_def)
  moreover have "length (dump_bytes 7 (concat ?gs)) + 20 \<le> BUFSIZE"
    by (simp add: dump_bytes_def route_msg_def route_body_def length_attr_bytes sample_route_def align4_def)
  ultimately show ?thesis
    using estimate_outside_ip_correct [of 7 ?gs "\<lambda>i. if i = 2 then Some [101] else None" "[]"
        "[\<lparr>ifa_name = [101], ifa_family = Some 2, ifa_host = Some [56]\<rparr>]"]
    by (simp add: default_interfaces_def route_of_def attr_effect_def sample_route_def route_zero_def last_or_def
        outside_hosts_def is_ip_def private_part_def)
qed

end
