(* ===== verification/Dotted.thy ===== *)
theory Dotted
  imports Prelude
begin

text \<open>
  \<open>ntoa\<close> of \<open>inc/estimate_outside_ip.h\<close>: an IPv4 address in network byte order, read by the machine as
  an \<open>int\<close>, is printed as four decimal numbers into a static buffer of 18 characters.
\<close>

section \<open>The program\<close>

text \<open>\<open>%d\<close> of a number that is not negative.\<close>

fun decimal :: "nat \<Rightarrow> u8 list" where
  "decimal n = (if n < 10 then [of_nat (48 + n)] else decimal (n div 10) @ [of_nat (48 + n mod 10)])"

declare decimal.simps [simp del]

text \<open>
  The mask of the last number does not fit an \<open>int\<close>, so the shift is one of an unsigned value; the
  others shift values that are not negative.
\<close>

definition ntoa :: "u32 \<Rightarrow> u8 list result" where
  "ntoa addr =
     (let text = decimal (unat (addr AND 0x000000FF)) @ [46]
            @ decimal (unat (drop_bit 8 (addr AND 0x0000FF00))) @ [46]
            @ decimal (unat (drop_bit 16 (addr AND 0x00FF0000))) @ [46]
            @ decimal (unat (drop_bit 24 (addr AND 0xFF000000)))
      in bindR (assertR (length text + 1 \<le> 18) OutOfBounds) (\<lambda>_. Inr text))"

section \<open>Reading it back\<close>

fun read_decimal :: "u8 list \<Rightarrow> nat" where
  "read_decimal ds = foldl (\<lambda>n d. 10 * n + (unat d - 48)) 0 ds"

fun split_dots :: "u8 list \<Rightarrow> u8 list list" where
  "split_dots [] = [[]]"
| "split_dots (c # s) = (if c = 46 then [] # split_dots s
     else case split_dots s of p # ps \<Rightarrow> (c # p) # ps | [] \<Rightarrow> [[c]])"

lemma unat_decimal_digit: "d < 10 \<Longrightarrow> unat (of_nat (48 + d) :: u8) = 48 + d"
  by (simp only: unsigned_of_nat take_bit_nat_eq_self) (simp add: take_bit_nat_eq_self)

lemma read_decimal_decimal: "read_decimal (decimal n) = n"
proof (induction n rule: decimal.induct)
  case (1 n)
  show ?case
  proof (cases "n < 10")
    case True
    then show ?thesis using unat_decimal_digit [of n] by (simp add: decimal.simps [of n])
  next
    case False
    with 1 have "foldl (\<lambda>n d. 10 * n + (unat d - 48)) 0 (decimal (n div 10)) = n div 10" by simp
    then show ?thesis using False unat_decimal_digit [of "n mod 10"] by (simp add: decimal.simps [of n])
  qed
qed

lemma decimal_no_dot: "46 \<notin> set (decimal n)"
proof (induction n rule: decimal.induct)
  case (1 n)
  have "of_nat (48 + d) \<noteq> (46 :: u8)" if "d < 10" for d
  proof
    assume "of_nat (48 + d) = (46 :: u8)"
    then have "unat (of_nat (48 + d) :: u8) = unat (46 :: u8)" by (rule arg_cong)
    then show False using unat_decimal_digit [OF that] by simp
  qed
  from this [of n] this [of "n mod 10"] 1 show ?case by (subst decimal.simps) (auto simp del: of_nat_add)
qed

lemma length_decimal_byte: "n < 256 \<Longrightarrow> length (decimal n) \<le> 3"
  by (simp add: decimal.simps [of n] decimal.simps [of "n div 10"] decimal.simps [of "n div 10 div 10"])

lemma split_dots_no_dot: "46 \<notin> set a \<Longrightarrow> split_dots a = [a]"
  by (induction a) auto

lemma split_dots_append: "46 \<notin> set a \<Longrightarrow> split_dots (a @ 46 # s) = a # split_dots s"
  by (induction a) auto

text \<open>The octets, the lowest first, which on the wire is the first.\<close>

lemma octet:
  fixes a :: u32
  shows "unat (drop_bit k (a AND push_bit k (mask 8))) = unat a div 2 ^ k mod 256"
proof -
  have "drop_bit k (a AND push_bit k (mask 8)) = take_bit 8 (drop_bit k a)"
    by (rule bit_word_eqI) (auto simp: bit_simps dest: bit_imp_le_length)
  then have "unat (drop_bit k (a AND push_bit k (mask 8))) = take_bit 8 (drop_bit k (take_bit LENGTH(32) (unat a)))"
    by (simp only: unsigned_take_bit_eq unsigned_drop_bit_eq)
  also have "take_bit LENGTH(32) (unat a) = unat a" by (rule take_bit_nat_eq_self) (rule unsigned_less)
  finally show ?thesis by (simp only: take_bit_eq_mod drop_bit_eq_div) simp
qed

lemma octet_masks:
  "(0x000000FF :: u32) = push_bit 0 (mask 8)" "(0x0000FF00 :: u32) = push_bit 8 (mask 8)"
  "(0x00FF0000 :: u32) = push_bit 16 (mask 8)" "(0xFF000000 :: u32) = push_bit 24 (mask 8)"
  by (simp_all add: mask_eq_exp_minus_1 push_bit_eq_mult)

text \<open>The text of an address.\<close>

definition dotted_text :: "nat \<Rightarrow> u8 list" where
  "dotted_text n = decimal (n mod 256) @ [46] @ decimal (n div 2 ^ 8 mod 256) @ [46]
     @ decimal (n div 2 ^ 16 mod 256) @ [46] @ decimal (n div 2 ^ 24 mod 256)"

lemma ntoa_text: "ntoa addr = Inr (dotted_text (unat addr))" and length_dotted_text: "length (dotted_text n) < 18"
proof -
  have d: "length (decimal (n mod 256)) \<le> 3" for n by (rule length_decimal_byte) simp
  have len: "length (dotted_text n) + 1 \<le> 18" for n
    using d [of n] d [of "n div 2 ^ 8"] d [of "n div 2 ^ 16"] d [of "n div 2 ^ 24"]
    unfolding dotted_text_def length_append by simp
  then show "length (dotted_text n) < 18" by (metis Suc_eq_plus1 Suc_le_lessD)
  show "ntoa addr = Inr (dotted_text (unat addr))"
    using octet [of 0 addr] octet [of 8 addr] octet [of 16 addr] octet [of 24 addr] len [of "unat addr"]
    by (simp only: ntoa_def Let_def octet_masks drop_bit_0 id_apply dotted_text_def power_0 div_by_1 assertR_True bindR_Inr)
qed

text \<open>\<open>ntoa\<close> never overruns its buffer of 18 characters, and what it prints reads back as the four
  octets of the address in network order, so two addresses are never printed alike.\<close>

lemma ntoa_reads_back:
  "\<exists>text. ntoa addr = Inr text \<and> length text < 18 \<and> map read_decimal (split_dots text) =
     map (\<lambda>k. unat addr div 256 ^ k mod 256) [0, 1, 2, 3]"
proof (intro exI conjI)
  show "ntoa addr = Inr (dotted_text (unat addr))" and "length (dotted_text (unat addr)) < 18"
    by (rule ntoa_text, rule length_dotted_text)
  show "map read_decimal (split_dots (dotted_text (unat addr))) = map (\<lambda>k. unat addr div 256 ^ k mod 256) [0, 1, 2, 3]"
    by (simp add: dotted_text_def split_dots_append split_dots_no_dot decimal_no_dot read_decimal_decimal
        del: read_decimal.simps)
qed

end
