(* ===== verification/Snippets.thy ===== *)
theory Snippets
  imports Netlink_Dump Dotted
begin

text \<open>
  The programs under \<open>snippets/\<close>, from which the code of \<open>inc/estimate_outside_ip.h\<close> was made:
  \<open>getrouting.cc\<close> prints the routing table, \<open>getips.cc\<close> the addresses of all interfaces, and
  \<open>get_outside_ip.cc\<close>, otherwise a copy of the header, the address that is chosen. Each \<open>main\<close> gives the
  exit status and what is printed. \<open>readNlSock\<close> of \<open>getrouting.cc\<close> and the request it sends are those of
  the header, \<open>read_nl_sock\<close> and \<open>nl_request\<close>.
\<close>

definition ascii :: "string \<Rightarrow> u8 list" where
  "ascii s = map (\<lambda>c. of_nat (of_char c)) s"

section \<open>The routing table\<close>

text \<open>\<open>printRoute\<close>\<close>

definition print_route :: "route_info \<Rightarrow> u8 list result" where
  "print_route rt =
     bindR (if ri_dst rt \<noteq> 0 then ntoa (of_nat (ri_dst rt)) else Inr (ascii ''0.0.0.0  '')) (\<lambda>dst.
     bindR (if ri_gateway rt \<noteq> 0 then ntoa (of_nat (ri_gateway rt)) else Inr (ascii ''*.*.*.*'')) (\<lambda>gateway.
     bindR (if ri_src rt \<noteq> 0 then ntoa (of_nat (ri_src rt)) else Inr (ascii ''*.*.*.*'')) (\<lambda>src.
       Inr (dst @ [9] @ gateway @ [9] @ ri_if_name rt @ [9] @ src @ [10]
         @ (if ri_dst rt = 0 then [9, 9, 9] @ ascii ''^^^^^ here it is!'' @ [10] else [])))))"

text \<open>\<open>parseRoutes\<close> with its call of \<open>printRoute\<close>: what is printed for the message at \<open>off\<close>.\<close>

definition parse_print ::
  "(nat \<Rightarrow> bytes option) \<Rightarrow> bytes \<Rightarrow> nat \<Rightarrow> route_info \<Rightarrow> u8 list result" where
  "parse_print names buf off rt =
     bindR (le_at 1 buf (off + 16)) (\<lambda>family.
       if family \<noteq> 2 then Inr []
       else bindR (le_at 1 buf (off + 20)) (\<lambda>table.
         if table \<noteq> 254 then Inr []
         else bindR (le_at 4 buf off) (\<lambda>len.
           bindR (parse_attrs names buf (off + 28) (int len - 28) rt) print_route)))"

text \<open>The loop of \<open>main\<close> over the messages.\<close>

function print_routes :: "(nat \<Rightarrow> bytes option) \<Rightarrow> bytes \<Rightarrow> nat \<Rightarrow> int \<Rightarrow> u8 list result" where
  "print_routes names buf off len =
     bindR (nlmsg_ok buf off len) (\<lambda>ok.
       if ok then
         bindR (parse_print names buf off route_zero) (\<lambda>line.
         bindR (le_at 4 buf off) (\<lambda>n.
         bindR (print_routes names buf (off + align4 n) (len - int (align4 n))) (\<lambda>lines. Inr (line @ lines))))
       else Inr [])"
  by pat_completeness auto
termination
proof (relation "measure (\<lambda>(names, buf, off, len). nat len)", simp)
  fix names :: "nat \<Rightarrow> bytes option" and buf off len and line :: "u8 list" and ok n
  assume "nlmsg_ok buf off len = Inr ok" and "ok" and "le_at 4 buf off = Inr n"
  then have "16 \<le> n" and "16 \<le> len" by (auto simp: nlmsg_ok_def split: if_splits)
  with align4_bounds(1) [of n]
  show "((names, buf, off + align4 n, len - int (align4 n)), names, buf, off, len)
      \<in> measure (\<lambda>(names, buf, off, len). nat len)" by simp
qed

declare print_routes.simps [simp del]

definition route_header :: "u8 list" where
  "route_header = ascii ''Destination'' @ [9] @ ascii ''Gateway'' @ [9] @ ascii ''Interface'' @ [9]
     @ ascii ''Source'' @ [10]"

definition getrouting_main ::
  "(nat \<Rightarrow> bytes option) \<Rightarrow> nat \<Rightarrow> bool \<Rightarrow> bytes option list \<Rightarrow> (int \<times> u8 list) result" where
  "getrouting_main names pid sent datagrams =
     (let msgBuf = nl_request pid in
      if \<not> sent then Inr (- 1, ascii ''Write To Socket Failed...'' @ [10])
      else bindR (read_nl_sock datagrams 0 msgBuf 1 pid) (\<lambda>(len, msgBuf).
        if len < 0 then Inr (- 1, ascii ''Read From Socket Failed...'' @ [10])
        else bindR (print_routes names msgBuf 0 len) (\<lambda>lines. Inr (0, route_header @ lines))))"

section \<open>The addresses\<close>

text \<open>The counters \<open>tx_packets\<close>, \<open>rx_packets\<close>, \<open>tx_bytes\<close> and \<open>rx_bytes\<close> of a link.\<close>

record ifaddr_link = ifaddr +
  ifa_stats :: "(nat \<times> nat \<times> nat \<times> nat) option"

text \<open>\<open>%-8s\<close> and \<open>%10u\<close>\<close>

definition pad_right :: "nat \<Rightarrow> u8 list \<Rightarrow> u8 list" where
  "pad_right n s = s @ replicate (n - length s) 32"

definition pad_left :: "nat \<Rightarrow> u8 list \<Rightarrow> u8 list" where
  "pad_left n s = replicate (n - length s) 32 @ s"

text \<open>\<open>AF_PACKET\<close> is 17.\<close>

definition family_line :: "bytes \<Rightarrow> nat \<Rightarrow> u8 list" where
  "family_line name family = pad_right 8 name @ [32]
     @ ascii (if family = 17 then ''AF_PACKET'' else if family = 2 then ''AF_INET''
              else if family = 10 then ''AF_INET6'' else ''???'')
     @ ascii '' ('' @ decimal family @ ascii '')'' @ [10]"

definition address_line :: "bytes \<Rightarrow> u8 list" where
  "address_line host = [9, 9] @ ascii ''address: <'' @ host @ ascii ''>'' @ [10]"

definition stats_lines :: "nat \<times> nat \<times> nat \<times> nat \<Rightarrow> u8 list" where
  "stats_lines s = (case s of (txp, rxp, txb, rxb) \<Rightarrow>
     [9, 9] @ ascii ''tx_packets = '' @ pad_left 10 (decimal txp) @ ascii ''; rx_packets = '' @ pad_left 10 (decimal rxp) @ [10]
     @ [9, 9] @ ascii ''tx_bytes   = '' @ pad_left 10 (decimal txb) @ ascii ''; rx_bytes   = '' @ pad_left 10 (decimal rxb) @ [10])"

text \<open>\<open>gai\<close> is the message of a failing \<open>getnameinfo\<close>, after which the program leaves with status 1.\<close>

fun getips_walk :: "u8 list \<Rightarrow> ifaddr_link list \<Rightarrow> int \<times> u8 list" where
  "getips_walk gai [] = (0, [])"
| "getips_walk gai (ifa # ifas) =
     (case ifa_family ifa of
        None \<Rightarrow> getips_walk gai ifas
      | Some family \<Rightarrow>
          let line = family_line (ifa_name ifa) family in
          if family = 2 \<or> family = 10 then
            (case ifa_host ifa of
               None \<Rightarrow> (1, line @ ascii ''getnameinfo() failed: '' @ gai @ [10])
             | Some host \<Rightarrow> (let (status, out) = getips_walk gai ifas in (status, line @ address_line host @ out)))
          else if family = 17 \<and> ifa_stats ifa \<noteq> None then
            (let (status, out) = getips_walk gai ifas in (status, line @ stats_lines (the (ifa_stats ifa)) @ out))
          else (let (status, out) = getips_walk gai ifas in (status, line @ out)))"

definition getips_main :: "u8 list \<Rightarrow> ifaddr_link list option \<Rightarrow> int \<times> u8 list" where
  "getips_main gai ifaddrs = (case ifaddrs of None \<Rightarrow> (1, []) | Some ifas \<Rightarrow> getips_walk gai ifas)"

section \<open>The address that is chosen\<close>

definition get_outside_ip_main ::
  "(nat \<Rightarrow> bytes option) \<Rightarrow> nat \<Rightarrow> bool \<Rightarrow> bytes option list \<Rightarrow> ifaddr list option \<Rightarrow> (int \<times> u8 list) result" where
  "get_outside_ip_main names pid sent datagrams ifaddrs =
     bindR (estimate_outside_ip names pid sent datagrams ifaddrs) (\<lambda>ip. Inr (0, ip @ [10]))"

section \<open>What is printed\<close>

text \<open>The line of a route, an unset address shown as a placeholder.\<close>

definition address_or :: "string \<Rightarrow> nat \<Rightarrow> u8 list" where
  "address_or placeholder a = (if a \<noteq> 0 then dotted_text (a mod 2 ^ 32) else ascii placeholder)"

definition route_line :: "route_info \<Rightarrow> u8 list" where
  "route_line rt = address_or ''0.0.0.0  '' (ri_dst rt) @ [9] @ address_or ''*.*.*.*'' (ri_gateway rt) @ [9]
     @ ri_if_name rt @ [9] @ address_or ''*.*.*.*'' (ri_src rt) @ [10]
     @ (if ri_dst rt = 0 then [9, 9, 9] @ ascii ''^^^^^ here it is!'' @ [10] else [])"

lemma print_route_line: "print_route rt = Inr (route_line rt)"
proof -
  have "ntoa (of_nat a) = Inr (dotted_text (a mod 2 ^ 32))" for a
    by (simp only: ntoa_text unsigned_of_nat take_bit_eq_mod) simp
  then show ?thesis by (simp add: print_route_def route_line_def address_or_def)
qed

definition listed_routes :: "(nat \<Rightarrow> bytes option) \<Rightarrow> kroute list \<Rightarrow> route_info list" where
  "listed_routes names rs = map (route_of names) (filter (\<lambda>r. kr_family r = 2 \<and> kr_table r = 254) rs)"

lemma print_routes_lines:
  "list_all kroute_ok rs \<Longrightarrow> length (dump_bytes pid rs) < 2 ^ 32 \<Longrightarrow> off = length pre \<Longrightarrow>
     print_routes names (pre @ dump_bytes pid rs @ post) off (int (length (dump_bytes pid rs))) =
       Inr (concat (map route_line (listed_routes names rs)))"
proof (induction rs arbitrary: pre off)
  case Nil
  then show ?case by (subst print_routes.simps) (simp add: nlmsg_ok_def dump_bytes_def listed_routes_def)
next
  case (Cons r rs)
  let ?n = "16 + length (route_body r)" and ?more = "dump_bytes pid rs"
  let ?buf = "pre @ dump_bytes pid (r # rs) @ post" and ?len = "int (length (dump_bytes pid (r # rs)))"
  note nxt = route_msg_next [OF Cons.prems(2,3)]
  define line where "line = concat (map route_line (listed_routes names [r]))"
  have buf: "?buf = pre @ route_msg pid r @ (?more @ post)" by (simp add: dump_bytes_Cons)
  have line: "parse_print names ?buf off route_zero = Inr line"
  proof -
    have ok: "kroute_ok r" using Cons.prems(1) by simp
    note fields = route_msg_fields [OF ok nxt(1) Cons.prems(3)]
    show ?thesis
    proof (cases "in_main r")
      case True
      show ?thesis unfolding parse_print_def buf fields(1-3) bindR_Inr fields(4) [OF True]
        using True by (simp add: print_route_line line_def listed_routes_def in_main_def)
    next
      case False
      then show ?thesis unfolding parse_print_def buf fields(1-3) bindR_Inr
        by (auto simp: line_def listed_routes_def in_main_def)
    qed
  qed
  have "print_routes names ((pre @ route_msg pid r) @ ?more @ post) (off + ?n) (int (length ?more))
      = Inr (concat (map route_line (listed_routes names rs)))"
    using Cons.prems by (intro Cons.IH) (simp_all add: dump_bytes_Cons route_msg_def)
  then have "print_routes names ?buf (off + align4 ?n) (?len - int (align4 ?n))
      = Inr (concat (map route_line (listed_routes names rs)))"
    unfolding nxt(2) by (simp add: dump_bytes_Cons) (simp add: route_msg_def)
  with nxt(3,4) line show ?case
    by (subst print_routes.simps) (simp only: bindR_Inr if_True, simp add: line_def listed_routes_def)
qed

text \<open>\<open>getrouting\<close> prints the kernel's table: for a dump of routes in any number of datagrams that is
  closed by a \<open>NLMSG_DONE\<close> and fits into the buffer, one line for each IPv4 route of the main table, in
  the kernel's order; and the interface the node takes for its own address, from the same dump, is that
  of the last line marked with \<open>here it is!\<close> which names one.\<close>

lemma getrouting_prints_table:
  assumes "pid < 2 ^ 32" and "\<forall>g \<in> set gs. g \<noteq> []" and "list_all kroute_ok (concat gs)"
    and "length (dump_bytes pid (concat gs)) + 20 \<le> BUFSIZE"
  shows "let dump = map (\<lambda>g. Some (dump_bytes pid g)) gs @ Some (done_msg pid) # ds;
      listed = listed_routes names (concat gs) in
    getrouting_main names pid True dump = Inr (0, route_header @ concat (map route_line listed))
    \<and> get_interface names pid True dump =
        Inr (last_or [] (map ri_if_name (filter (\<lambda>rt. ri_dst rt = 0 \<and> ri_if_name rt \<noteq> []) listed)))"
proof -
  let ?all = "dump_bytes pid (concat gs)"
  obtain tail where tail: "read_nl_sock (map (\<lambda>g. Some (dump_bytes pid g)) gs @ Some (done_msg pid) # ds) 0
      (nl_request pid) 1 pid = Inr (int (length ?all), ?all @ tail)"
    using read_dump [OF assms(1,2) length_nl_request, of "[]" pid ds] assms(4) by auto
  have "print_routes names (?all @ tail) 0 (int (length ?all)) =
      Inr (concat (map route_line (listed_routes names (concat gs))))"
    using print_routes_lines [OF assms(3), of pid 0 "[]" names tail] assms(4) by simp
  with tail get_interface_default_route [OF assms, of names ds] show ?thesis
    by (simp add: getrouting_main_def Let_def listed_routes_def default_interfaces_def filter_map comp_def conj_assoc)
qed

text \<open>What \<open>getips\<close> prints up to the first address that cannot be shown.\<close>

definition ifaddr_text :: "ifaddr_link \<Rightarrow> u8 list" where
  "ifaddr_text ifa = (case ifa_family ifa of None \<Rightarrow> [] | Some family \<Rightarrow> family_line (ifa_name ifa) family
     @ (if family = 2 \<or> family = 10 then address_line (the (ifa_host ifa))
        else if family = 17 then (case ifa_stats ifa of Some s \<Rightarrow> stats_lines s | None \<Rightarrow> []) else []))"

definition showable :: "ifaddr_link \<Rightarrow> bool" where
  "showable ifa \<longleftrightarrow> (ifa_family ifa = Some 2 \<or> ifa_family ifa = Some 10 \<longrightarrow> ifa_host ifa \<noteq> None)"

lemma getips_walk_text:
  "\<exists>rest. getips_walk gai ifas = (if list_all showable ifas then 0 else 1,
     concat (map ifaddr_text (takeWhile showable ifas)) @ rest) \<and> (list_all showable ifas \<longrightarrow> rest = [])"
proof (induction ifas)
  case (Cons ifa ifas)
  then obtain rest where IH: "getips_walk gai ifas = (if list_all showable ifas then 0 else 1,
     concat (map ifaddr_text (takeWhile showable ifas)) @ rest)" "list_all showable ifas \<longrightarrow> rest = []" by blast
  show ?case
  proof (cases "ifa_family ifa")
    case (Some family)
    then show ?thesis using IH
      by (cases "ifa_host ifa"; cases "ifa_stats ifa") (auto simp: showable_def [of ifa] ifaddr_text_def [of ifa] Let_def)
  qed (use IH in \<open>auto simp: showable_def [of ifa] ifaddr_text_def [of ifa]\<close>)
qed simp

text \<open>\<open>getips\<close> prints the text of each interface address in the system's order and ends with status 0,
  or with 1 at the first IP address that \<open>getnameinfo\<close> cannot turn into text; the address the node
  takes for its own is among those printed.\<close>

lemma getips_prints_addresses:
  "\<exists>rest. getips_main gai (Some ifas) = (if list_all showable ifas then 0 else 1,
      concat (map ifaddr_text (takeWhile showable ifas)) @ rest)
    \<and> (list_all showable ifas \<longrightarrow> rest = [])
    \<and> (let ip = get_ip_from_interface (Some (map ifaddr.truncate ifas)) interface in
        ip = [] \<or> (\<exists>ifa \<in> set (takeWhile showable ifas). ifa_name ifa = interface \<and>
          (\<exists>a. ifaddr_text ifa = a @ address_line ip)))"
proof -
  obtain rest where rest: "getips_walk gai ifas = (if list_all showable ifas then 0 else 1,
      concat (map ifaddr_text (takeWhile showable ifas)) @ rest)" "list_all showable ifas \<longrightarrow> rest = []"
    using getips_walk_text by blast
  let ?hosts = "outside_hosts interface (map ifaddr.truncate ifas)"
  have same: "ifa_family (ifaddr.truncate i) = ifa_family i" "ifa_host (ifaddr.truncate i) = ifa_host i"
    "ifa_name (ifaddr.truncate i) = ifa_name i" for i :: ifaddr_link by (simp_all add: ifaddr.defs)
  have while: "takeWhile (\<lambda>ifa. is_ip ifa \<longrightarrow> ifa_host ifa \<noteq> None) (map ifaddr.truncate ifas) =
      map ifaddr.truncate (takeWhile showable ifas)"
  proof -
    have "(\<lambda>ifa. is_ip ifa \<longrightarrow> ifa_host ifa \<noteq> None) \<circ> ifaddr.truncate = showable"
      by (simp add: fun_eq_iff showable_def is_ip_def same)
    then show ?thesis by (simp only: takeWhile_map)
  qed
  have "\<exists>ifa \<in> set (takeWhile showable ifas). ifa_name ifa = interface \<and> (\<exists>a. ifaddr_text ifa = a @ address_line ip)"
    if "ip \<in> set ?hosts" for ip
  proof -
    from that [unfolded outside_hosts_def while] obtain ifa where ifa: "ifa \<in> set (takeWhile showable ifas)"
        "is_ip (ifaddr.truncate ifa)" "ifa_name ifa = interface" "ip = the (ifa_host ifa)"
      by (auto simp: same)
    then have "ifaddr_text ifa = family_line (ifa_name ifa) (the (ifa_family ifa)) @ address_line ip"
      by (auto simp: ifaddr_text_def is_ip_def same)
    with ifa show ?thesis by blast
  qed
  moreover have "get_ip_from_interface (Some (map ifaddr.truncate ifas)) interface = last_or [] ?hosts"
    by (simp add: get_ip_from_interface_def ip_walk_eq)
  ultimately show ?thesis using rest by (auto simp: getips_main_def Let_def last_or_def)
qed

end
