(* ===== verification/Console.thy ===== *)
theory Console
  imports Node_Exchange Utilities Tools Snippets
begin

text \<open>
  What the programs write to the standard output. A program that prints is a pair of what it has printed
  so far and how it went on; of the node, what a round of each thread of \<open>bin/p2p.cc\<close> prints is a
  function of what the round works on, beside the function that gives the new state. \<open>endl\<close> is a newline.
  Left out is the line of \<open>Context::init\<close>, which the thread that makes the first socket prints.
\<close>

section \<open>Printing\<close>

type_synonym 'a console = "u8 list \<times> 'a result"

definition bindC :: "'a console \<Rightarrow> ('a \<Rightarrow> 'b console) \<Rightarrow> 'b console" where
  "bindC m f = (case snd m of Inl e \<Rightarrow> (fst m, Inl e) | Inr x \<Rightarrow> (fst m @ fst (f x), snd (f x)))"

definition print :: "u8 list \<Rightarrow> unit console" where
  "print s = (s, Inr ())"

definition liftC :: "'a result \<Rightarrow> 'a console" where
  "liftC r = ([], r)"

lemma bindC_simps [simp]:
  "bindC (liftC (Inr x)) f = f x" "bindC (liftC (Inl e)) f = ([], Inl e)"
  "bindC (print s) g = (s @ fst (g ()), snd (g ()))" "bindC (s, Inr x) f = (s @ fst (f x), snd (f x))"
  by (simp_all add: bindC_def liftC_def print_def)

definition line :: "u8 list \<Rightarrow> u8 list" where
  "line s = s @ [10]"

definition show_int :: "int \<Rightarrow> u8 list" where
  "show_int n = (if n < 0 then [45] @ decimal (nat (- n)) else decimal (nat n))"

section \<open>The set of a reconsiler\<close>

definition sr_filter_prints :: "sodium \<Rightarrow> bytes list \<Rightarrow> set_reconsiler \<Rightarrow> u8 list" where
  "sr_filter_prints S elems r =
     line (ascii ''N: '' @ decimal (sr_N r)) @ line (ascii ''n filters: '' @ decimal (length (sr_filters r)))
     @ line (ascii ''latest set:'')
     @ (case sr_filter S elems r of Inl e \<Rightarrow> [] | Inr r \<Rightarrow> concat (map (\<lambda>s. line (show_bytes S s)) (sr_current r)))"

definition sr_check_prints :: "sodium \<Rightarrow> set_reconsiler \<Rightarrow> u8 list" where
  "sr_check_prints S r =
     (if length (sr_current r) = 0 then line (ascii ''empty'')
      else case hash_vec S (sort (sr_current r)) of Inl e \<Rightarrow> []
        | Inr current_hash \<Rightarrow> line (ascii ''hashes: '' @ show_bytes S current_hash @ [32] @ show_bytes S (sr_hash r)))"

section \<open>The threads of a node\<close>

definition read_line_prints :: "bytes \<Rightarrow> u8 list" where
  "read_line_prints l = line ([91] @ l @ [93])"

text \<open>\<open>n\<close> is the number of the round.\<close>

definition mine_prints :: "capnp \<Rightarrow> sodium \<Rightarrow> nat \<Rightarrow> u64 \<Rightarrow> bytes \<Rightarrow> u8 list" where
  "mine_prints C S n time rnd =
     (let b = enc_block C \<lparr>bm_prev_hash = [], bm_tx_hash = [], bm_utxo_hash = [], bm_nonce = rnd, bm_time = time\<rparr>;
          h = hard_hash S b
      in if vec_get h 0 = Inr 0
         then line (decimal n @ ascii '': ['' @ show_bytes S b @ ascii ''] '') @ line (show_bytes S h) else [])"

text \<open>A connection; what it prints of a reply it prints only when there is one and it can be read.\<close>

definition run_task_prints ::
  "capnp \<Rightarrow> sodium \<Rightarrow> bytes \<Rightarrow> (bytes \<Rightarrow> bytes result) \<Rightarrow> task \<Rightarrow> node \<Rightarrow> u8 list" where
  "run_task_prints C S key peer task nd =
     (case t_type task of
        REQ_IPS \<Rightarrow>
          (case bindR (peer (enc_msg C Get_Peers)) (dec_msg C) of
             Inr (Ip_List ips) \<Rightarrow> concat (map (\<lambda>ip. line (c_str ip)) ips) | _ \<Rightarrow> [])
      | REQ_HASHSET_FILTER \<Rightarrow> line (ascii ''req hash filter: '') @
          (case bindR (peer (enc_msg C (Req_Set_Filter (Tx_Set_Hash (t_data task))))) (dec_set_filter C) of
             Inr (n, bl) \<Rightarrow> line (ascii ''p: '' @ decimal (unat (bs_p bl))) | Inl _ \<Rightarrow> [])
      | REQ_HASHSET \<Rightarrow> line (ascii ''req hash filter: '') @
          (case bindR (full_filter S key nd) (\<lambda>bl.
             bindR (peer (enc_msg C (Req_Set (Tx_Set_Hash (t_data task)) bl))) (dec_set C)) of
             Inr hashset \<Rightarrow> line (ascii ''got set: '' @ decimal (length hashset)) | Inl _ \<Rightarrow> [])
      | _ \<Rightarrow> [])"

text \<open>Opening connections: the socket prints an address before it connects, the connection once it is.\<close>

fun expand_loop_prints :: "(bytes \<Rightarrow> bool) \<Rightarrow> nat \<Rightarrow> bytes list \<Rightarrow> bytes list \<Rightarrow> u8 list" where
  "expand_loop_prints reachable 0 current_ips ips = []"
| "expand_loop_prints reachable (Suc n) current_ips ips =
     (let (new_ip, ips) = pick_ip current_ips ips [] in
      line (ascii ''selecting new ip'') @ line (ascii ''found: '' @ new_ip) @
      (if length new_ip \<noteq> 0
       then line (ascii ''connecting to '' @ new_ip) @
         (if reachable new_ip
          then line (ascii ''connecting to :'' @ new_ip) @ expand_loop_prints reachable n current_ips ips else [])
       else expand_loop_prints reachable n current_ips ips))"

definition expand_prints :: "(bytes \<Rightarrow> bool) \<Rightarrow> (bytes list \<Rightarrow> bytes list) \<Rightarrow> node \<Rightarrow> u8 list" where
  "expand_prints reachable shuffle nd =
     (let desired = min N_CONN (length (nd_ip_list nd));
          n_new = desired - length (nd_connections nd);
          ips_tmp = shuffle (nd_ip_list nd);
          current_ips = set_insert (nd_my_ip nd)
            (fold (\<lambda>con. set_insert (cn_ip con)) (nd_connections nd) [])
      in line (ascii ''expand'') @ line (ascii ''ips: '' @ show_vector (\<lambda>ip. ip) ips_tmp)
         @ expand_loop_prints reachable n_new current_ips ips_tmp)"

text \<open>\<open>SYNC_HASHSET\<close> gets no further than the check.\<close>

definition manage_task_prints ::
  "sodium \<Rightarrow> (bytes \<Rightarrow> bool) \<Rightarrow> (bytes list \<Rightarrow> bytes list) \<Rightarrow> task \<Rightarrow> node \<Rightarrow> u8 list" where
  "manage_task_prints S reachable shuffle task nd =
     (case t_type task of
        SYNC_HASHSET \<Rightarrow>
          (case reconsiler_at (t_data task) (init_hash (t_data task) (nd_reconsiler nd)) of
             Inr (r, m) \<Rightarrow> sr_check_prints S r | Inl _ \<Rightarrow> [])
      | REQ_IPS \<Rightarrow> line (ascii ''req'')
      | EXPAND_CONNECTION \<Rightarrow> expand_prints reachable shuffle nd
      | _ \<Rightarrow> [])"

definition answer_prints :: "capnp \<Rightarrow> sodium \<Rightarrow> bytes \<Rightarrow> content \<Rightarrow> node \<Rightarrow> u8 list" where
  "answer_prints C S body content nd =
     (case content of
        Hello ip port \<Rightarrow> line (ascii ''hello '' @ c_str ip)
      | Get_Peers \<Rightarrow> []
      | Block b \<Rightarrow> []
      | Transaction tx \<Rightarrow>
          (case process_transaction C S tx \<lparr>to_accounts = [], to_amounts = [], to_sigs = None\<rparr> of
             Inr (accepted, out) \<Rightarrow>
               if accepted then line (show_vector show_int (to_amounts out)) else line (ascii ''fail'')
           | Inl _ \<Rightarrow> [])
      | Text_Msg text \<Rightarrow> if hash S body \<notin> set (nd_seen nd) then line (ascii ''MESSAGE: '' @ c_str text) else []
      | Req_Set_Filter req \<Rightarrow> line (ascii ''got req hashset filter'')
      | Req_Set req bl \<Rightarrow> line (ascii ''got req hashset'')
      | _ \<Rightarrow> line (ascii ''default''))"

definition serve_prints :: "capnp \<Rightarrow> sodium \<Rightarrow> bytes list \<Rightarrow> node \<Rightarrow> u8 list" where
  "serve_prints C S msg nd =
     (case bindR (vec_get msg 2) (\<lambda>body. bindR (dec_msg C body) (\<lambda>content. Inr (body, content))) of
        Inr (body, content) \<Rightarrow> answer_prints C S body content nd | Inl _ \<Rightarrow> [])"

text \<open>\<open>main\<close> before it starts the threads: \<open>outside\<close> is what \<open>estimate_outside_ip\<close> gives, \<open>filler\<close> the random
  entries of the set, which are printed in the order of the set.\<close>

definition node_main_prints :: "sodium \<Rightarrow> u8 list \<Rightarrow> bytes list \<Rightarrow> u8 list" where
  "node_main_prints S outside filler =
     line (ascii ''my ip: '' @ outside) @ line (ascii ''fullset: '')
     @ concat (map (\<lambda>s. line (show_bytes S s)) (fold set_insert filler []))"

section \<open>Properties\<close>

lemma serve_prints_text:
  assumes "dec_msg C body = Inr (Text_Msg l)"
  shows "serve_prints C S [a, b, body] nd =
    (if hash S body \<in> set (nd_seen nd) then [] else line (ascii ''MESSAGE: '' @ c_str l))"
  using assms by (simp add: serve_prints_def answer_prints_def numeral_2_eq_2)

text \<open>C8: a text is shown and passed on once: the first time it arrives at a node it is printed, up to its
  first NUL, and the bytes of the message are queued for every connection; whatever the node does
  then, the same message from anyone prints nothing, queues nothing and is acknowledged, so texts do not go round in a ring of nodes.\<close>

theorem text_shown_once:
  assumes "dec_msg C body = Inr (Text_Msg l)" and "hash S body \<notin> set (nd_seen nd)"
  shows "serve_prints C S [a, b, body] nd = ascii ''MESSAGE: '' @ c_str l @ [10]
    \<and> (\<exists>nd1. serve_round C S key [a, b, body] nd = Inr ([a, b, enc_msg C (Ok [])], nd1)
      \<and> map cn_queue (nd_connections nd1) = map (\<lambda>con. cn_queue con @ [task_of SEND body]) (nd_connections nd)
      \<and> (\<forall>nd2 key' a' b'. (node_step C S)\<^sup>*\<^sup>* nd1 nd2 \<longrightarrow> serve_prints C S [a', b', body] nd2 = []
          \<and> serve_round C S key' [a', b', body] nd2 = Inr ([a', b', enc_msg C (Ok [])], nd2)))"
proof -
  obtain nd1 where nd1: "serve_round C S key [a, b, body] nd = Inr ([a, b, enc_msg C (Ok [])], nd1)"
      "map cn_queue (nd_connections nd1) = map (\<lambda>con. cn_queue con @ [task_of SEND body]) (nd_connections nd)"
    and later: "\<forall>nd2 key' a' b'. (node_step C S)\<^sup>*\<^sup>* nd1 nd2 \<longrightarrow>
         serve_round C S key' [a', b', body] nd2 = Inr ([a', b', enc_msg C (Ok [])], nd2)"
    using text_forwarded_once [OF assms] by blast
  have "hash S body \<in> set (nd_seen nd2)" if "(node_step C S)\<^sup>*\<^sup>* nd1 nd2" for nd2
  proof -
    have "hash S body \<in> set (nd_seen nd1)"
      using nd1(1) serve_text [OF assms(1), of S key a b nd] assms(2) by (auto simp: add_to_all_def)
    with that show ?thesis by (induction rule: rtranclp_induct) (auto dest: seen_step)
  qed
  then have "serve_prints C S [a', b', body] nd2 = []" if "(node_step C S)\<^sup>*\<^sup>* nd1 nd2" for nd2 a' b'
    using that serve_prints_text [OF assms(1)] by simp
  with nd1 later assms(2) serve_prints_text [OF assms(1), of S a b nd] show ?thesis by (auto simp: line_def)
qed

lemma text_shown_once_witness:
  "let body = enc_msg toy_capnp (Text_Msg [104, 105]) in
    serve_prints toy_capnp toy_sodium [[9], [], body] (node_init 0 [1] [] []) = ascii ''MESSAGE: hi'' @ [10]
    \<and> (\<exists>nd1. serve_round toy_capnp toy_sodium [] [[9], [], body] (node_init 0 [1] [] []) =
          Inr ([[9], [], enc_msg toy_capnp (Ok [])], nd1)
        \<and> serve_prints toy_capnp toy_sodium [[8], [], body] (read_line toy_capnp [104, 105] nd1) = [])"
proof -
  let ?body = "enc_msg toy_capnp (Text_Msg [104, 105])"
  have dec: "dec_msg toy_capnp ?body = Inr (Text_Msg [104, 105])" by (rule capnp_okD [OF toy_capnp_ok])
  have new: "hash toy_sodium ?body \<notin> set (nd_seen (node_init 0 [1] [] []))"
    by (simp add: node_init_def manage_start_def replan_def)
  have step: "(node_step toy_capnp toy_sodium)\<^sup>*\<^sup>* nd (read_line toy_capnp [104, 105] nd)" for nd
    by (rule r_into_rtranclp) (rule node_step.line)
  have "ascii ''MESSAGE: '' @ c_str [104, 105] @ [10] = ascii ''MESSAGE: hi'' @ [10]" by (simp add: ascii_def c_str_def)
  with text_shown_once [OF dec new, of "[9]" "[]" "[]"] step show ?thesis unfolding Let_def by metis
qed

end
