(* ===== verification/Keys.thy ===== *)
theory Keys
  imports Curve "HOL-Library.State_Monad"
begin

text \<open>
  The part of \<open>src/curve.cc\<close> and \<open>inc/curve.h\<close> that draws random numbers: the singleton behind
  \<open>Curve::inst\<close>, the constructors of the key, nonce and salt types, key pairs, and the messages that
  carry a nonce or an ephemeral key. The source of random numbers is the state of a state monad, an
  endless sequence of bytes that every draw takes a piece of.
\<close>

section \<open>Randomness\<close>

type_synonym entropy = "nat \<Rightarrow> u8"
type_synonym 'a draw = "(entropy, 'a) state"

text \<open>\<open>randombytes_buf\<close> on \<open>n\<close> bytes.\<close>

definition draw_bytes :: "nat \<Rightarrow> bytes draw" where
  "draw_bytes n = State (\<lambda>r. (map r [0..<n], \<lambda>i. r (n + i)))"

text \<open>\<open>Curve::random_bytes\<close> fills a vector of any size.\<close>

definition random_bytes :: "bytes \<Rightarrow> bytes draw" where
  "random_bytes b = draw_bytes (length b)"

lemma length_draw_bytes [simp]: "length (fst (run_state (draw_bytes n) r)) = n"
  by (simp add: draw_bytes_def)

lemma length_random_bytes [simp]: "length (fst (run_state (random_bytes b) r)) = length b"
  by (simp add: random_bytes_def)

section \<open>The singleton\<close>

text \<open>\<open>init\<close> is what \<open>sodium_init\<close> returns, the state whether \<open>s_curve\<close> is set.\<close>

definition curve_new :: "int \<Rightarrow> unit result" where
  "curve_new init = (if init = - 1 then Inl (Thrown ''Sodium Init Failed'') else Inr ())"

definition curve_inst :: "int \<Rightarrow> bool \<Rightarrow> bool result" where
  "curve_inst init s_curve = (if \<not> s_curve then bindR (curve_new init) (\<lambda>_. Inr True) else Inr s_curve)"

section \<open>Counting with a nonce\<close>

text \<open>\<open>Curve::increment\<close> hands the vector to \<open>sodium_increment\<close>.\<close>

definition increment :: "sodium \<Rightarrow> bytes \<Rightarrow> bytes" where
  "increment S b = sodium_increment S b"

lemma nat_mod_shift: "(a + i) mod M = (a + j) mod M \<longleftrightarrow> i mod M = j mod M" for a :: nat
proof -
  have "int (a + i) mod int M = int (a + j) mod int M \<longleftrightarrow> int i mod int M = int j mod int M"
    by (simp only: mod_eq_dvd_iff of_nat_add add_diff_cancel_left)
  then show ?thesis by (simp only: zmod_int [symmetric] of_nat_eq_iff)
qed

lemma value_of_increments:
  assumes "utils_ok S"
  shows "length ((increment S ^^ k) b) = length b
    \<and> value_of 8 ((increment S ^^ k) b) = (value_of 8 b + k) mod 256 ^ length b"
proof (induction k)
  case 0
  then show ?case using value_of_bytes_less [of b] by (simp add: power_mult)
next
  case (Suc k)
  have "length (increment S c) = length c \<and> value_of 8 (increment S c) = (value_of 8 c + 1) mod 256 ^ length c" for c
    using assms by (simp add: utils_ok_def increment_def)
  with Suc show ?case by (simp add: mod_Suc_eq)
qed

text \<open>A vector of \<open>n\<close> bytes counts with \<open>increment\<close> through all \<open>256 ^ n\<close> values before it comes to one
  again: two of its successors are the same exactly when their numbers are congruent. A nonce of 24
  bytes that is incremented for every message is thus not used twice in \<open>2 ^ 192\<close> messages.\<close>

lemma increments_distinct:
  assumes "utils_ok S"
  shows "(increment S ^^ i) b = (increment S ^^ j) b \<longleftrightarrow> i mod 256 ^ length b = j mod 256 ^ length b"
proof -
  note val = value_of_increments [OF assms]
  have "(increment S ^^ i) b = (increment S ^^ j) b \<longleftrightarrow>
      value_of 8 ((increment S ^^ i) b) = value_of 8 ((increment S ^^ j) b)"
    using value_of_inj val by metis
  also have "\<dots> \<longleftrightarrow> (value_of 8 b + i) mod 256 ^ length b = (value_of 8 b + j) mod 256 ^ length b"
    using val by simp
  also have "\<dots> \<longleftrightarrow> i mod 256 ^ length b = j mod 256 ^ length b"
    by (rule nat_mod_shift)
  finally show ?thesis .
qed

section \<open>Constructors\<close>

text \<open>The types differ in their sizes; a vector allocated by its size is zero.\<close>

datatype curve_type =
    SecretKey | PublicKey | SecretSignKey | PublicSignKey | Nonce | Seed | HashKey | HardHashSalt
  | ShortHashKey

fun type_size :: "curve_type \<Rightarrow> nat" where
  "type_size SecretKey = 32" | "type_size PublicKey = 32" | "type_size SecretSignKey = 64"
| "type_size PublicSignKey = 32" | "type_size Nonce = 24" | "type_size Seed = 32"
| "type_size HashKey = 32" | "type_size HardHashSalt = 16" | "type_size ShortHashKey = 16"

definition secret_key_new :: bytes where "secret_key_new = bytes_of_size 32"
definition public_key_new :: bytes where "public_key_new = bytes_of_size 32"
definition secret_sign_key_new :: bytes where "secret_sign_key_new = bytes_of_size 64"
definition public_sign_key_new :: bytes where "public_sign_key_new = bytes_of_size 32"

text \<open>\<open>PublicSignKey(Bytes &)\<close> and \<open>ShortHashKey(Bytes &)\<close> copy a vector of any size.\<close>

definition public_sign_key_of :: "bytes \<Rightarrow> bytes" where "public_sign_key_of b = b"
definition short_hash_key_of :: "bytes \<Rightarrow> bytes" where "short_hash_key_of b = b"

definition nonce_reset :: "bytes \<Rightarrow> bytes draw" where "nonce_reset this = random_bytes this"
definition nonce_new :: "bytes draw" where "nonce_new = nonce_reset (bytes_of_size 24)"

definition seed_new :: bytes where "seed_new = bytes_of_size 32"
definition hash_key_new :: bytes where "hash_key_new = bytes_of_size 32"

definition hard_hash_salt_new :: "bytes draw" where
  "hard_hash_salt_new = random_bytes (bytes_of_size 16)"

definition short_hash_key_new :: "bytes draw" where
  "short_hash_key_new = random_bytes (bytes_of_size 16)"

text \<open>\<open>ShortHash::reset\<close>\<close>

definition short_hash_reset :: "bytes \<Rightarrow> bytes draw" where "short_hash_reset this = random_bytes this"

text \<open>The key pairs of the default constructors, the public key first.\<close>

definition key_pair_new :: "sodium \<Rightarrow> (bytes \<times> bytes) draw" where
  "key_pair_new S = do { r \<leftarrow> draw_bytes 32; State_Monad.return (box_keypair S r) }"

definition sign_key_pair_new :: "sodium \<Rightarrow> (bytes \<times> bytes) draw" where
  "sign_key_pair_new S = do { r \<leftarrow> draw_bytes 32; State_Monad.return (sign_keypair S r) }"

text \<open>
  Messages whose constructor draws: a nonce, for the sender and for the receiver, who draws one that is
  not used, and the ephemeral key of a sealed message.
\<close>

definition encrypted_message_new :: "sodium \<Rightarrow> bytes \<Rightarrow> bytes \<Rightarrow> bytes \<Rightarrow> encrypted_message result draw" where
  "encrypted_message_new S message pub priv =
     do { nonce \<leftarrow> nonce_new; State_Monad.return (encrypt S nonce message pub priv) }"

definition encrypted_message_of :: "bytes \<Rightarrow> encrypted_message draw" where
  "encrypted_message_of enc =
     do { nonce \<leftarrow> nonce_new; State_Monad.return \<lparr>em_message = [], em_enc = enc, em_nonce = nonce\<rparr> }"

definition sealed_message_new :: "sodium \<Rightarrow> bytes \<Rightarrow> bytes \<Rightarrow> sealed_message draw" where
  "sealed_message_new S message pub =
     do { eph \<leftarrow> draw_bytes 32; State_Monad.return (seal S eph message pub) }"

definition sealed_message_of :: "bytes \<Rightarrow> sealed_message" where
  "sealed_message_of b = \<lparr>sm_message = [], sm_sealed = b\<rparr>"

definition signed_message_of :: "bytes \<Rightarrow> signed_message" where
  "signed_message_of b = \<lparr>sg_message = [], sg_signed = b\<rparr>"

section \<open>Typing\<close>

text \<open>
  The values of the types: what the constructors make, key pairs and public keys that are computed,
  and what \<open>reset\<close>, \<open>increment\<close> and wiping leave. The constructors of \<open>Seed\<close>, \<open>PublicSignKey\<close> and
  \<open>ShortHashKey\<close> from a vector copy it whatever its size is.
\<close>

inductive curve_value :: "sodium \<Rightarrow> curve_type \<Rightarrow> bytes \<Rightarrow> bool" for S where
  fresh_secret: "curve_value S SecretKey secret_key_new"
| fresh_public: "curve_value S PublicKey public_key_new"
| fresh_secret_sign: "curve_value S SecretSignKey secret_sign_key_new"
| fresh_public_sign: "curve_value S PublicSignKey public_sign_key_new"
| fresh_nonce: "run_state nonce_new r = (n, r') \<Longrightarrow> curve_value S Nonce n"
| fresh_seed: "curve_value S Seed seed_new"
| fresh_hash_key: "curve_value S HashKey hash_key_new"
| fresh_salt: "run_state hard_hash_salt_new r = (s, r') \<Longrightarrow> curve_value S HardHashSalt s"
| fresh_short_key: "run_state short_hash_key_new r = (k, r') \<Longrightarrow> curve_value S ShortHashKey k"
| copied_seed: "seed_of b = Inr s \<Longrightarrow> curve_value S Seed s"
| copied_salt: "hard_hash_salt b = Inr s \<Longrightarrow> curve_value S HardHashSalt s"
| copied_public_sign: "curve_value S PublicSignKey (public_sign_key_of b)"
| copied_short_key: "curve_value S ShortHashKey (short_hash_key_of b)"
| random_public: "run_state (key_pair_new S) r = ((pk, sk), r') \<Longrightarrow> curve_value S PublicKey pk"
| random_secret: "run_state (key_pair_new S) r = ((pk, sk), r') \<Longrightarrow> curve_value S SecretKey sk"
| random_public_sign: "run_state (sign_key_pair_new S) r = ((pk, sk), r') \<Longrightarrow> curve_value S PublicSignKey pk"
| random_secret_sign: "run_state (sign_key_pair_new S) r = ((pk, sk), r') \<Longrightarrow> curve_value S SecretSignKey sk"
| seeded_public: "key_pair_of_seed S seed = Inr (pk, sk) \<Longrightarrow> curve_value S PublicKey pk"
| seeded_secret: "key_pair_of_seed S seed = Inr (pk, sk) \<Longrightarrow> curve_value S SecretKey sk"
| seeded_public_sign: "sign_key_pair_of_seed S seed = Inr (pk, sk) \<Longrightarrow> curve_value S PublicSignKey pk"
| seeded_secret_sign: "sign_key_pair_of_seed S seed = Inr (pk, sk) \<Longrightarrow> curve_value S SecretSignKey sk"
| computed_public: "curve_value S SecretKey sk \<Longrightarrow> secret_key_pub S sk = Inr pk \<Longrightarrow> curve_value S PublicKey pk"
| reset: "curve_value S Nonce n \<Longrightarrow> run_state (nonce_reset n) r = (n', r') \<Longrightarrow> curve_value S Nonce n'"
| incremented: "curve_value S ty b \<Longrightarrow> curve_value S ty (increment S b)"
| wiped: "curve_value S ty b \<Longrightarrow> curve_value S ty (zero_bytes b)"

lemma draw_length: "run_state (random_bytes b) r = (x, r') \<Longrightarrow> length x = length b"
  by (metis fst_conv length_random_bytes)

lemmas fixed_constructors = secret_key_new_def public_key_new_def secret_sign_key_new_def
  public_sign_key_new_def seed_new_def hash_key_new_def public_sign_key_of_def short_hash_key_of_def

lemmas random_constructors = nonce_new_def nonce_reset_def hard_hash_salt_new_def short_hash_key_new_def

lemma key_pairs_sized:
  assumes "random_keys_ok S"
  shows "run_state (key_pair_new S) r = ((pk, sk), r') \<Longrightarrow> length pk = 32 \<and> length sk = 32"
    and "run_state (sign_key_pair_new S) r = ((pk, sk), r') \<Longrightarrow> length pk = 32 \<and> length sk = 64"
    and "key_pair_of_seed S seed = Inr (pk, sk) \<Longrightarrow> length pk = 32 \<and> length sk = 32"
    and "sign_key_pair_of_seed S seed = Inr (pk, sk) \<Longrightarrow> length pk = 32 \<and> length sk = 64"
    and "secret_key_pub S k = Inr pk \<Longrightarrow> length pk = 32"
  using assms
  by (auto simp: random_keys_ok_def key_pair_new_def sign_key_pair_new_def key_pair_of_seed_def
      sign_key_pair_of_seed_def secret_key_pub_def bindR_eq_Inr split: prod.splits) (metis fst_conv snd_conv)+

lemma curve_value_length:
  "curve_value S ty b \<Longrightarrow> random_keys_ok S \<Longrightarrow> utils_ok S \<Longrightarrow> ty \<notin> {Seed, PublicSignKey, ShortHashKey} \<Longrightarrow>
     length b = type_size ty"
proof (induction rule: curve_value.induct)
  case (copied_salt b s)
  then show ?case by (auto simp: hard_hash_salt_def bindR_eq_Inr)
next
  case (incremented ty b)
  then show ?case using value_of_increments [of S 1 b] by simp
qed (auto simp: fixed_constructors random_constructors bytes_of_size_def zero_bytes_def
    dest: draw_length key_pairs_sized)

text \<open>C24: the sizes are types, with three exceptions. A key, nonce or salt of the types without a
  constructor from a vector of any size always has the size of its type, whatever the constructors and
  functions of \<open>curve.cc\<close> make of it, and the public key computed from a secret key is one again; so
  \<open>crypto_scalarmult_base\<close> stays within its vector. \<open>Seed\<close>, \<open>PublicSignKey\<close> and \<open>ShortHashKey\<close> are the
  exceptions: every vector is a value of them, and making key pairs from a seed or verifying a
  signature reads past the vectors exactly when they are shorter than 32, or for the signature 64,
  bytes. \<open>resize\<close> and the assignment of a vector, which the types inherit, are left out.\<close>

theorem curve_values_typed:
  assumes "random_keys_ok S" and "utils_ok S"
  shows "(\<forall>ty b. curve_value S ty b \<and> ty \<notin> {Seed, PublicSignKey, ShortHashKey} \<longrightarrow> length b = type_size ty)
    \<and> (\<forall>sk. curve_value S SecretKey sk \<longrightarrow> (\<exists>pk. secret_key_pub S sk = Inr pk \<and> curve_value S PublicKey pk))
    \<and> (\<forall>b. curve_value S Seed b \<and> curve_value S PublicSignKey b \<and> curve_value S ShortHashKey b)
    \<and> (\<forall>seed. if length seed < 32
         then key_pair_of_seed S seed = Inl OutOfBounds \<and> sign_key_pair_of_seed S seed = Inl OutOfBounds
         else (\<exists>pk sk. key_pair_of_seed S seed = Inr (pk, sk) \<and> curve_value S PublicKey pk \<and> curve_value S SecretKey sk)
           \<and> (\<exists>pk sk. sign_key_pair_of_seed S seed = Inr (pk, sk) \<and> length pk = 32 \<and> curve_value S SecretSignKey sk))
    \<and> (\<forall>sig m pk. signature_verify S sig m pk = Inl OutOfBounds \<longleftrightarrow> length sig < 64 \<or> length pk < 32)"
proof (intro conjI allI impI)
  fix ty b assume "curve_value S ty b \<and> ty \<notin> {Seed, PublicSignKey, ShortHashKey}"
  then show "length b = type_size ty" using curve_value_length assms by blast
next
  fix sk assume sk: "curve_value S SecretKey sk"
  then have "length sk = 32" using curve_value_length [OF sk assms] by simp
  then show "\<exists>pk. secret_key_pub S sk = Inr pk \<and> curve_value S PublicKey pk"
    using curve_value.computed_public [OF sk] by (simp add: secret_key_pub_def)
next
  fix b show "curve_value S Seed b" "curve_value S PublicSignKey b" "curve_value S ShortHashKey b"
    using curve_value.copied_seed [of b] curve_value.copied_public_sign [of S b] curve_value.copied_short_key [of S b]
    by (simp_all add: seed_of_def public_sign_key_of_def short_hash_key_of_def)
next
  fix seed
  show "if length seed < 32
    then key_pair_of_seed S seed = Inl OutOfBounds \<and> sign_key_pair_of_seed S seed = Inl OutOfBounds
    else (\<exists>pk sk. key_pair_of_seed S seed = Inr (pk, sk) \<and> curve_value S PublicKey pk \<and> curve_value S SecretKey sk)
      \<and> (\<exists>pk sk. sign_key_pair_of_seed S seed = Inr (pk, sk) \<and> length pk = 32 \<and> curve_value S SecretSignKey sk)"
  proof (cases "length seed < 32")
    case False
    obtain pk sk where 1: "key_pair_of_seed S seed = Inr (pk, sk)"
      using False by (cases "box_seed_keypair S (take 32 seed)") (simp add: key_pair_of_seed_def)
    obtain vk ss where 2: "sign_key_pair_of_seed S seed = Inr (vk, ss)"
      using False by (cases "sign_seed_keypair S (take 32 seed)") (simp add: sign_key_pair_of_seed_def)
    from False 1 2 key_pairs_sized(4) [OF assms(1) 2] curve_value.seeded_public [OF 1] curve_value.seeded_secret [OF 1]
      curve_value.seeded_secret_sign [OF 2] show ?thesis by simp
  qed (simp add: key_pair_of_seed_def sign_key_pair_of_seed_def)
next
  fix sig m pk show "signature_verify S sig m pk = Inl OutOfBounds \<longleftrightarrow> length sig < 64 \<or> length pk < 32"
    by (auto simp: signature_verify_def assertR_def)
qed

lemma curve_values_typed_witness:
  "(\<exists>pk. secret_key_pub toy_sodium (increment toy_sodium (zero_bytes secret_key_new)) = Inr pk \<and> length pk = 32)
    \<and> key_pair_of_seed toy_sodium [1, 2, 3] = Inl OutOfBounds
    \<and> signature_verify toy_sodium (replicate 64 0) [] (public_sign_key_of [7]) = Inl OutOfBounds"
proof -
  note typed = curve_values_typed [OF toy_random_ok(1) toy_utils_ok]
  have "curve_value toy_sodium SecretKey (increment toy_sodium (zero_bytes secret_key_new))"
    by (intro curve_value.intros)
  with typed obtain pk where "secret_key_pub toy_sodium (increment toy_sodium (zero_bytes secret_key_new)) = Inr pk"
    and "curve_value toy_sodium PublicKey pk" by blast
  moreover have "length pk = 32" using typed calculation(2) by fastforce
  moreover have "key_pair_of_seed toy_sodium [1, 2, 3] = Inl OutOfBounds"
    using typed [THEN conjunct2, THEN conjunct2, THEN conjunct2, THEN conjunct1, rule_format, of "[1, 2, 3]"] by simp
  moreover have "signature_verify toy_sodium (replicate 64 0) [] (public_sign_key_of [7]) = Inl OutOfBounds"
    using typed by (simp add: public_sign_key_of_def)
  ultimately show ?thesis by blast
qed

end
