(* ===== verification/Client.thy ===== *)
theory Client
  imports Console Keys Convert
begin

text \<open>
  \<open>bin/node.cc\<close>: a client that creates a transaction, checks it itself and then greets a node, hands it
  the transaction and asks for its peers, with everything it prints on the way.
\<close>

section \<open>The program\<close>

text \<open>
  \<open>peer\<close> is the other side of the client's socket, which answers a request and changes its state;
  \<open>outside\<close> is what \<open>estimate_outside_ip\<close> gives. \<open>"sdfasdf"\<close> is the address the client gives as its own.
  A key pair is the secret key and the public key.
\<close>

definition client_ip :: bytes where
  "client_ip = [115, 100, 102, 97, 115, 100, 102]"

definition client_amounts :: "int list" where
  "client_amounts = [10, - 4, 12]"

text \<open>The first half, without the network: the transaction, its hashes, the second key pair, a hashed password,
  and what \<open>process_transaction\<close> makes of the transaction.\<close>

definition client_transaction ::
  "capnp \<Rightarrow> sodium \<Rightarrow> sign_keypair list \<Rightarrow> sign_keypair \<Rightarrow> unit console" where
  "client_transaction C S accounts test_pair =
     bindC (liftC (vec_get accounts 0)) (\<lambda>first.
     bindC (print (line (ascii ''priv: '' @ bytes_to_bech32 (ascii ''pv'') (fst first)))) (\<lambda>_.
     bindC (liftC (create_transaction_bytes C S accounts client_amounts)) (\<lambda>tx.
     bindC (print (line (ascii ''sdf'') @ line (ascii ''hash: '' @ show_bytes S (hash S tx))
       @ line (ascii ''hardhash: '' @ show_bytes S (hard_hash S tx)) @ line (show_bytes S (snd test_pair))
       @ line (ascii ''pub: '' @ bytes_to_bech32 (ascii ''pb'') (snd test_pair))
       @ line (ascii ''priv: '' @ bytes_to_bech32 (ascii ''pv'') (fst test_pair))
       @ line (ascii ''pwd: '' @ bytes_to_bech32 (ascii ''hs'') (hardest_hash S (ascii ''apasswd''))))) (\<lambda>_.
     bindC (liftC (process_transaction_bytes C S tx [] [])) (\<lambda>(ok, accounts, amounts).
     bindC (print (line (decimal (if ok then 1 else 0)) @ line (decimal (length amounts))
       @ line (show_vector show_int amounts) @ line (show_vector (show_bytes S) accounts))) (\<lambda>_.
     bindC (liftC (vec_get accounts 0)) (\<lambda>new_account.
     print (line (bytes_to_bech32 (ascii ''pc'') new_account)))))))))"

text \<open>The second half: the socket, which is the first of the process, and three requests.\<close>

definition client_requests ::
  "capnp \<Rightarrow> sodium \<Rightarrow> (bytes \<Rightarrow> bool) \<Rightarrow> ('s \<Rightarrow> bytes \<Rightarrow> (bytes \<times> 's) result) \<Rightarrow> sign_keypair list
   \<Rightarrow> bytes \<Rightarrow> 's \<Rightarrow> (int \<times> 's) console" where
  "client_requests C S reachable peer accounts constr s =
     bindC (print (line (ascii ''Initialising Context'') @ line (ascii ''connecting to '' @ constr))) (\<lambda>_.
     bindC (liftC (assertR (reachable constr) (Thrown ''couldn't connect''))) (\<lambda>_.
     bindC (liftC (peer s (enc_msg C (Hello client_ip 120)))) (\<lambda>(_, s).
     let (_, tx) = create_transaction C S accounts client_amounts \<lparr>tm_credit_set = [], tm_signatures = []\<rparr> in
     bindC (liftC (peer s (enc_msg C (Transaction tx)))) (\<lambda>(_, s).
     bindC (liftC (peer s (enc_msg C Get_Peers))) (\<lambda>(result, s).
     bindC (liftC (dec_msg C result)) (\<lambda>content.
       case content of
         Ip_List ips \<Rightarrow>
           bindC (liftC (list_get C ips 0)) (\<lambda>ip.
           bindC (print (line (decimal (length ips) @ ascii '' ip: '' @ c_str ip) @ line (ascii ''Socket destructor called''))) (\<lambda>_.
             liftC (Inr (0, s))))
       | _ \<Rightarrow> liftC (Inl AssertFailed)))))))"

definition client_run ::
  "capnp \<Rightarrow> sodium \<Rightarrow> (bytes \<Rightarrow> bool) \<Rightarrow> ('s \<Rightarrow> bytes \<Rightarrow> (bytes \<times> 's) result) \<Rightarrow> u8 list result
   \<Rightarrow> sign_keypair list \<Rightarrow> sign_keypair \<Rightarrow> bytes list \<Rightarrow> 's \<Rightarrow> (int \<times> 's) console" where
  "client_run C S reachable peer outside accounts test_pair argv s =
     bindC (liftC (assertR (1 < length argv) AssertFailed)) (\<lambda>_.
     bindC (liftC outside) (\<lambda>ip.
     bindC (print (line (ascii ''my ip: '' @ ip))) (\<lambda>_.
     bindC (client_transaction C S accounts test_pair) (\<lambda>_.
       client_requests C S reachable peer accounts (argv ! 1) s))))"

text \<open>\<open>main\<close>: the vector draws three key pairs, and the fourth is drawn by itself.\<close>

definition client_main ::
  "capnp \<Rightarrow> sodium \<Rightarrow> (bytes \<Rightarrow> bool) \<Rightarrow> ('s \<Rightarrow> bytes \<Rightarrow> (bytes \<times> 's) result) \<Rightarrow> u8 list result
   \<Rightarrow> bytes list \<Rightarrow> 's \<Rightarrow> (int \<times> 's) console draw" where
  "client_main C S reachable peer outside argv s =
     do { a \<leftarrow> sign_key_pair_new S; b \<leftarrow> sign_key_pair_new S; c \<leftarrow> sign_key_pair_new S;
          test_pair \<leftarrow> sign_key_pair_new S;
          State_Monad.return (client_run C S reachable peer outside
            (map prod.swap [a, b, c]) (prod.swap test_pair) argv s) }"

section \<open>A session with a node\<close>

text \<open>A node as the other side, behind its router socket.\<close>

definition served :: "capnp \<Rightarrow> sodium \<Rightarrow> bytes \<Rightarrow> bytes \<Rightarrow> node \<Rightarrow> bytes \<Rightarrow> (bytes \<times> node) result" where
  "served C S key ident nd req =
     bindR (serve_round C S key [ident, [], req] nd) (\<lambda>(reply, nd).
     bindR (vec_get reply 2) (\<lambda>b. Inr (b, nd)))"

lemma served_answer:
  assumes "capnp_ok C" and "answer C S key (enc_msg C m) m nd = Inr (reply, nd')"
  shows "served C S key ident nd (enc_msg C m) = Inr (enc_msg C reply, nd')"
  using assms(2) by (simp add: served_def serve_round_def capnp_okD [OF assms(1)] numeral_2_eq_2)

lemma client_amounts_int32: "\<forall>a \<in> set client_amounts. int32 a"
  by (simp add: client_amounts_def)

text \<open>libsodium documents that a random signing key is made from a random seed, which can be got back from it.\<close>

definition random_sign_seeded :: "sodium \<Rightarrow> bool" where
  "random_sign_seeded S \<longleftrightarrow> (\<forall>r. \<exists>seed. sign_keypair S r = sign_seed_keypair S seed)"

lemma toy_random_sign_seeded: "random_sign_seeded toy_sodium"
  unfolding random_sign_seeded_def by (simp add: toy_sodium_def) blast

lemma drawn_keypair:
  assumes "random_sign_seeded S"
  obtains p r' where "run_state (sign_key_pair_new S) r = (p, r')" and "genuine_keypair S (prod.swap p)"
proof -
  obtain p r' where p: "run_state (sign_key_pair_new S) r = (p, r')" by (cases "run_state (sign_key_pair_new S) r")
  then have "p = sign_keypair S (fst (run_state (draw_bytes 32) r))" by (auto simp: sign_key_pair_new_def split: prod.splits)
  with assms have "genuine_keypair S (prod.swap p)" unfolding genuine_keypair_def random_sign_seeded_def by (metis fst_swap snd_swap prod.collapse)
  with p that show ?thesis by blast
qed

definition key_lines :: "capnp \<Rightarrow> sodium \<Rightarrow> sign_keypair list \<Rightarrow> sign_keypair \<Rightarrow> u8 list" where
  "key_lines C S accounts test_pair =
     (let tx = enc_tx C (snd (create_transaction C S accounts client_amounts \<lparr>tm_credit_set = [], tm_signatures = []\<rparr>)) in
      line (ascii ''priv: '' @ bytes_to_bech32 (ascii ''pv'') (fst (accounts ! 0)))
      @ line (ascii ''sdf'') @ line (ascii ''hash: '' @ show_bytes S (hash S tx))
      @ line (ascii ''hardhash: '' @ show_bytes S (hard_hash S tx)) @ line (show_bytes S (snd test_pair))
      @ line (ascii ''pub: '' @ bytes_to_bech32 (ascii ''pb'') (snd test_pair))
      @ line (ascii ''priv: '' @ bytes_to_bech32 (ascii ''pv'') (fst test_pair))
      @ line (ascii ''pwd: '' @ bytes_to_bech32 (ascii ''hs'') (hardest_hash S (ascii ''apasswd''))))"

lemma client_transaction_prints:
  assumes S: "sign_ok S" and C: "capnp_ok C" and accounts: "length accounts = 3"
    and pairs: "\<forall>kp \<in> set accounts. genuine_keypair S kp"
  shows "client_transaction C S accounts test_pair =
    (key_lines C S accounts test_pair @ line (ascii ''1'') @ line (ascii ''3'') @ line (ascii ''[10, -4, 12]'')
       @ line (show_vector (show_bytes S) (map snd accounts))
       @ line (bytes_to_bech32 (ascii ''pc'') (snd (accounts ! 0))), Inr ())"
proof -
  let ?b = "\<lparr>tm_credit_set = [], tm_signatures = []\<rparr>"
  have len: "length accounts = length client_amounts" using accounts by (simp add: client_amounts_def)
  note made = process_created [OF S C len pairs client_amounts_int32, of ?b None]
  have bytes: "create_transaction_bytes C S accounts client_amounts
      = Inr (enc_tx C (snd (create_transaction C S accounts client_amounts ?b)))"
    using len by (simp add: create_transaction_bytes_def create_transaction_def Let_def)
  have "show_vector show_int client_amounts = ascii ''[10, -4, 12]''"
    by (simp add: client_amounts_def show_vector_Cons show_int_def decimal.simps ascii_def)
  moreover have "decimal 1 = ascii ''1''" "decimal (length client_amounts) = ascii ''3''"
    by (simp_all add: client_amounts_def decimal.simps ascii_def)
  moreover have "0 < length accounts" using accounts by simp
  ultimately show ?thesis
    unfolding client_transaction_def
    by (simp add: bytes process_transaction_bytes_def capnp_okD [OF C] made key_lines_def Let_def) (simp add: print_def)
qed

lemma client_requests_served:
  assumes S: "sign_ok S" and C: "capnp_ok C" and accounts: "length accounts = 3"
    and pairs: "\<forall>kp \<in> set accounts. genuine_keypair S kp" and net: "reachable addr"
  shows "let nd' = nd\<lparr>nd_ip_list := set_insert client_ip (nd_ip_list nd)\<rparr>;
      tx = snd (create_transaction C S accounts client_amounts \<lparr>tm_credit_set = [], tm_signatures = []\<rparr>) in
    client_requests C S reachable (served C S key ident) accounts addr nd =
      (line (ascii ''Initialising Context'') @ line (ascii ''connecting to '' @ addr)
         @ line (decimal (length (nd_ip_list nd')) @ ascii '' ip: '' @ c_str (nd_ip_list nd' ! 0))
         @ line (ascii ''Socket destructor called''), Inr (0, nd'))
    \<and> served C S key ident nd' (enc_msg C (Transaction tx)) = Inr (enc_msg C (Ok []), nd')"
proof -
  let ?b = "\<lparr>tm_credit_set = [], tm_signatures = []\<rparr>"
  let ?tx = "snd (create_transaction C S accounts client_amounts ?b)"
  let ?nd = "nd\<lparr>nd_ip_list := set_insert client_ip (nd_ip_list nd)\<rparr>"
  have len: "length accounts = length client_amounts" using accounts by (simp add: client_amounts_def)
  note made = process_created [OF S C len pairs client_amounts_int32, of ?b None]
  have ip: "c_str client_ip = client_ip" by (simp add: c_str_def client_ip_def)
  have hello: "served C S key ident nd (enc_msg C (Hello client_ip 120)) = Inr (enc_msg C (Welcome []), ?nd)"
    by (rule served_answer [OF C]) (simp add: answer_def ip)
  have tx: "served C S key ident ?nd (enc_msg C (Transaction ?tx)) = Inr (enc_msg C (Ok []), ?nd)"
    by (rule served_answer [OF C]) (simp add: answer_def made)
  have peers: "served C S key ident ?nd (enc_msg C Get_Peers) =
      Inr (enc_msg C (Ip_List (map c_str (nd_ip_list ?nd))), ?nd)"
    by (rule served_answer [OF C]) (simp add: answer_def)
  have "set (nd_ip_list ?nd) \<noteq> {}" by simp
  then have ne: "nd_ip_list ?nd \<noteq> []" by (metis set_empty)
  then have first: "list_get C (map c_str (nd_ip_list ?nd)) 0 = Inr (c_str (nd_ip_list ?nd ! 0))" by simp
  have "client_requests C S reachable (served C S key ident) accounts addr nd =
      (line (ascii ''Initialising Context'') @ line (ascii ''connecting to '' @ addr)
         @ line (decimal (length (nd_ip_list ?nd)) @ ascii '' ip: '' @ c_str (nd_ip_list ?nd ! 0))
         @ line (ascii ''Socket destructor called''), Inr (0, ?nd))"
    unfolding client_requests_def
    by (simp only: net hello tx peers first capnp_okD [OF C] assertR_True bindC_simps fst_conv snd_conv
        case_prod_beta content.case Let_def length_map c_str_idem append_assoc) (simp add: liftC_def)
  with tx show ?thesis by (simp add: Let_def)
qed

text \<open>C23: the client's session with any node succeeds, whatever keys it draws: it prints that its own check
  accepted the transaction with the three amounts, the node accepts the transaction too and lists at least
  the client's own address, and the last lines tell how many addresses there are and the first of them;
  of the node's state only the list of addresses changes, by the address in the greeting.\<close>

theorem client_session:
  assumes S: "sign_ok S" "random_sign_seeded S" and C: "capnp_ok C"
    and net: "reachable (argv ! 1)" "1 < length argv"
  shows "\<exists>out accounts r'. run_state (client_main C S reachable (served C S key ident) (Inr outside) argv nd) r =
      ((out, Inr (0, nd\<lparr>nd_ip_list := set_insert client_ip (nd_ip_list nd)\<rparr>)), r')
    \<and> length accounts = 3
    \<and> (\<exists>a b. out = line (ascii ''my ip: '' @ outside) @ a @ line (ascii ''1'') @ line (ascii ''3'')
        @ line (ascii ''[10, -4, 12]'') @ line (show_vector (show_bytes S) (map snd accounts)) @ b
        @ line (decimal (length (set_insert client_ip (nd_ip_list nd))) @ ascii '' ip: ''
            @ c_str (set_insert client_ip (nd_ip_list nd) ! 0))
        @ line (ascii ''Socket destructor called''))
    \<and> (\<exists>nd'. served C S key ident nd' (enc_msg C (Transaction
          (snd (create_transaction C S accounts client_amounts \<lparr>tm_credit_set = [], tm_signatures = []\<rparr>)))) =
        Inr (enc_msg C (Ok []), nd') \<and> nd' = nd\<lparr>nd_ip_list := set_insert client_ip (nd_ip_list nd)\<rparr>)"
proof -
  obtain a r1 where a: "run_state (sign_key_pair_new S) r = (a, r1)" "genuine_keypair S (prod.swap a)"
    using drawn_keypair [OF S(2)] .
  obtain b r2 where b: "run_state (sign_key_pair_new S) r1 = (b, r2)" "genuine_keypair S (prod.swap b)"
    using drawn_keypair [OF S(2)] .
  obtain c r3 where c: "run_state (sign_key_pair_new S) r2 = (c, r3)" "genuine_keypair S (prod.swap c)"
    using drawn_keypair [OF S(2)] .
  obtain d r4 where d: "run_state (sign_key_pair_new S) r3 = (d, r4)" using drawn_keypair [OF S(2)] .
  let ?accounts = "map prod.swap [a, b, c]"
  have len: "length ?accounts = 3" and pairs: "\<forall>kp \<in> set ?accounts. genuine_keypair S kp" using a b c by simp_all
  have main: "run_state (client_main C S reachable (served C S key ident) (Inr outside) argv nd) r =
      (client_run C S reachable (served C S key ident) (Inr outside) ?accounts (prod.swap d) argv nd, r4)"
    unfolding client_main_def by (simp add: a b c d)
  note requests = client_requests_served [where reachable = reachable and addr = "argv ! 1" and nd = nd and key = key
      and ident = ident, OF S(1) C len pairs net(1), unfolded Let_def]
  have "assertR (1 < length argv) AssertFailed = Inr ()" using net(2) by simp
  then have run: "client_run C S reachable (served C S key ident) (Inr outside) ?accounts (prod.swap d) argv nd =
      (line (ascii ''my ip: '' @ outside) @ fst (client_transaction C S ?accounts (prod.swap d))
         @ fst (client_requests C S reachable (served C S key ident) ?accounts (argv ! 1) nd),
       snd (client_requests C S reachable (served C S key ident) ?accounts (argv ! 1) nd))"
    by (simp only: client_run_def client_transaction_prints [OF S(1) C len pairs] bindC_simps fst_conv snd_conv)
  let ?tail = "line (bytes_to_bech32 (ascii ''pc'') (snd (?accounts ! 0))) @ line (ascii ''Initialising Context'')
    @ line (ascii ''connecting to '' @ argv ! 1)"
  have ips: "nd_ip_list (nd\<lparr>nd_ip_list := s\<rparr>) = s" for s by simp
  let ?out = "line (ascii ''my ip: '' @ outside) @ fst (client_transaction C S ?accounts (prod.swap d))
         @ fst (client_requests C S reachable (served C S key ident) ?accounts (argv ! 1) nd)"
  have "snd (client_requests C S reachable (served C S key ident) ?accounts (argv ! 1) nd) =
      Inr (0, nd\<lparr>nd_ip_list := set_insert client_ip (nd_ip_list nd)\<rparr>)"
    by (simp only: conjunct1 [OF requests] snd_conv)
  with main run have "run_state (client_main C S reachable (served C S key ident) (Inr outside) argv nd) r =
      ((?out, Inr (0, nd\<lparr>nd_ip_list := set_insert client_ip (nd_ip_list nd)\<rparr>)), r4)" by (simp only:)
  moreover have "?out = line (ascii ''my ip: '' @ outside) @ key_lines C S ?accounts (prod.swap d) @ line (ascii ''1'')
      @ line (ascii ''3'') @ line (ascii ''[10, -4, 12]'') @ line (show_vector (show_bytes S) (map snd ?accounts)) @ ?tail
      @ line (decimal (length (set_insert client_ip (nd_ip_list nd))) @ ascii '' ip: ''
            @ c_str (set_insert client_ip (nd_ip_list nd) ! 0))
      @ line (ascii ''Socket destructor called'')"
    by (simp only: client_transaction_prints [OF S(1) C len pairs] conjunct1 [OF requests] fst_conv append_assoc ips)
  ultimately show ?thesis using len conjunct2 [OF requests] by blast
qed

lemma client_session_witness:
  "\<exists>out nd' r'. run_state (client_main toy_capnp toy_sodium (\<lambda>_. True) (served toy_capnp toy_sodium [] [9])
      (Inr (ascii ''5.6.7.8'')) [[], [120]] (node_init 0 [1] [] [])) (\<lambda>_. 0) = ((out, Inr (0, nd')), r')
    \<and> nd_ip_list nd' = [client_ip] \<and> (\<exists>a. out = a @ ascii ''1 ip: sdfasdf'' @ [10] @ line (ascii ''Socket destructor called''))"
proof -
  have "decimal 1 @ ascii '' ip: '' @ c_str client_ip = ascii ''1 ip: sdfasdf''"
    by (simp add: decimal.simps ascii_def c_str_def client_ip_def)
  moreover have "nd_ip_list (node_init 0 [1] [] []) = []" by (simp add: node_init_def manage_start_def replan_def)
  ultimately show ?thesis
    using client_session [OF toy_sign_ok toy_random_sign_seeded toy_capnp_ok, of "\<lambda>_. True" "[[], [120]]"
        "[]" "[9]" "ascii ''5.6.7.8''" "node_init 0 [1] [] []" "\<lambda>_. 0"]
    by (auto simp: line_def)
qed

end
