(* ===== verification/Payment.thy ===== *)
theory Payment
  imports Chain
begin

text \<open>
  A payment from its creation to the choice of transactions: \<open>create_transaction\<close> of \<open>src/process.cc\<close>,
  the parser and the pool of \<open>bin/p2p.cc\<close>, and \<open>get_latest\<close> on a pool that was empty.
\<close>

definition paid :: "sign_keypair list \<Rightarrow> int list \<Rightarrow> ptx_credit list" where
  "paid accounts amounts = map (\<lambda>(kp, a). \<lparr>px_pub = snd kp, px_amount = a\<rparr>) (zip accounts amounts)"

lemma parsed_credits:
  "length accounts = length amounts \<Longrightarrow> (\<And>a. a \<in> set amounts \<Longrightarrow> int32 a) \<Longrightarrow>
     map (\<lambda>c. \<lparr>px_pub = cr_account c, px_amount = narrow (cr_amount c)\<rparr>) (credits_of accounts amounts) = paid accounts amounts"
  by (induction accounts amounts rule: list_induct2) (auto simp: credits_of_def credit_of_def paid_def narrow_widened)

lemma created_is_parsed:
  assumes S: "sign_ok S" and C: "capnp_ok C" and len: "length accounts = length amounts"
    and keys: "\<forall>kp \<in> set accounts. genuine_keypair S kp" and ints: "\<forall>a \<in> set amounts. int32 a"
  shows "\<exists>tx. bindR (create_transaction_bytes C S accounts amounts) (ptx_of_bytes C S) = Inr tx
    \<and> px_credits tx = paid accounts amounts"
proof -
  let ?cs = "credits_of accounts amounts"
  let ?sigs = "sign_negatives S (enc_credits C ?cs) accounts amounts"
  let ?ws = "map (\<lambda>sig. \<lparr>wi_type = 0, wi_data = sig\<rparr>) ?sigs"
  have "create_transaction_bytes C S accounts amounts = Inr (enc_tx C \<lparr>tm_credit_set = enc_credits C ?cs, tm_signatures = ?ws\<rparr>)"
    using len by (simp add: create_transaction_bytes_def create_transaction_def Let_def)
  moreover have "judge S (enc_credits C ?cs) (debited ?cs) (map wi_data ?ws) = Accepted"
    using created_is_accepted [OF S len, of "enc_credits C ?cs"] keys ints by (simp add: comp_def)
  ultimately show ?thesis
    using ptx_of_bytes_Inr [OF C, of S ?cs ?ws] parsed_credits [OF len] ints by (auto simp: bindR_def)
qed

lemma paid_int32: "\<forall>a \<in> set amounts. int32 a \<Longrightarrow> c \<in> set (paid accounts amounts) \<Longrightarrow> int32 (px_amount c)"
  by (auto simp: paid_def dest: set_zip_rightD)

text \<open>C12: a payment made with genuine keys and 32-bit amounts is parsed by every node and gets into its
  pool; when the pool was empty, \<open>get_latest\<close> chooses it exactly if no account occurs twice and every
  debit is within the balance of its account, and answers with the hash of the payment's hash, twice;
  otherwise there is nothing to choose and the program aborts. The balances are assumed to be between 0
  and a bound that leaves room for the amounts of the payment in 64 bits.\<close>

theorem payment_selected:
  assumes S: "sign_ok S" and C: "capnp_ok C" and len: "length accounts = length amounts"
    and keys: "\<forall>kp \<in> set accounts. genuine_keypair S kp" and ints: "\<forall>a \<in> set amounts. int32 a"
    and pool: "pool_ok ch" "bc_mempool ch = []"
    and bal: "balances_within B (map_of (bc_balance ch))" "0 \<le> B" "B + int (length amounts) * 2 ^ 31 < 2 ^ 63"
  shows "\<exists>tx. bindR (create_transaction_bytes C S accounts amounts) (ptx_of_bytes C S) = Inr tx
    \<and> (let h = hash S (ptx_bytes C tx); ch' = chain_add C S tx ch; root = hash S (h @ h) in
        bc_mempool ch' = [h] \<and> get_latest S ch' =
          (if covered (map_of (bc_balance ch)) (paid accounts amounts)
           then Inr (root, ch'\<lparr>bc_latest_set := [h], bc_latest_hash := root\<rparr>)
           else Inl AssertFailed))"
proof -
  obtain tx where tx: "bindR (create_transaction_bytes C S accounts amounts) (ptx_of_bytes C S) = Inr tx"
      "px_credits tx = paid accounts amounts"
    using created_is_parsed [OF S C len keys ints] by blast
  let ?h = "hash S (ptx_bytes C tx)" and ?ch = "chain_add C S tx ch"
  have ints': "int32 (px_amount c)" if "c \<in> set (px_credits tx)" for c
    using that paid_int32 [OF ints] by (simp only: tx(2))
  have "map_of (bc_txs ch) ?h = None" using pool unfolding pool_ok_def by (metis domIff empty_iff empty_set)
  then have eq: "?ch = ch\<lparr>bc_txs := map_assign ?h (Some tx) (bc_txs ch), bc_mempool := [?h]\<rparr>"
    using pool(2) by (simp add: chain_add_def map_count_def Let_def)
  then have mem: "bc_mempool ?ch = [?h]" "bc_balance ?ch = bc_balance ch" by simp_all
  have "map_ok (bc_txs ch)" using pool(1) by (simp add: pool_ok_def)
  then have credits: "pool_credits ?ch ?h = paid accounts amounts"
    by (simp add: eq pool_credits_def tx(2))
  have size: "pool_size ?ch = length amounts" using mem credits len by (simp add: pool_size_def paid_def)
  have sel: "chosen_of (pool_credits ?ch) (bc_mempool ?ch) (map_of (bc_balance ?ch)) =
      (if covered (map_of (bc_balance ch)) (paid accounts amounts) then [?h] else [])"
    by (simp add: mem credits)
  have ok: "pool_ok ?ch" using chain_add_step [OF pool(1) ints'] by blast
  have "tree_root S (tree_height (length [?h])) [?h] = hash S (?h @ ?h)"
    using hash_vec_root [of "[?h]" S] by (simp add: hash_vec_def hash_levels.simps hash_twin_def)
  with get_latest_eq [OF ok, of B S] bal mem(2) size sel have "get_latest S ?ch =
      (if covered (map_of (bc_balance ch)) (paid accounts amounts)
       then Inr (hash S (?h @ ?h), ?ch\<lparr>bc_latest_set := [?h], bc_latest_hash := hash S (?h @ ?h)\<rparr>)
       else Inl AssertFailed)"
    by (simp add: Let_def split: if_splits)
  with tx(1) mem(1) show ?thesis by (auto simp: Let_def)
qed

lemma payment_selected_witness:
  "\<exists>tx root. bindR (create_transaction_bytes toy_capnp toy_sodium
        [(toy_pad 64 (toy_pad 32 [1]), toy_pad 32 [1]), (toy_pad 64 (toy_pad 32 [2]), toy_pad 32 [2])] [10, - 4])
        (ptx_of_bytes toy_capnp toy_sodium) = Inr tx
    \<and> (let ch' = chain_add toy_capnp toy_sodium tx (chain_new\<lparr>bc_balance := [(toy_pad 32 [2], 7)]\<rparr>) in
        get_latest toy_sodium ch' = Inr (root, ch'\<lparr>bc_latest_set := bc_mempool ch', bc_latest_hash := root\<rparr>))"
proof -
  let ?ch = "chain_new\<lparr>bc_balance := [(toy_pad 32 [2], 7)]\<rparr>"
  have "pool_ok ?ch" using pool_ok_new by (simp add: pool_ok_def map_ok_def pool_credits_def)
  moreover have "toy_pad 32 [1] \<noteq> toy_pad 32 [2]" by (simp add: toy_pad_def)
  ultimately show ?thesis
    using payment_selected [OF toy_sign_ok toy_capnp_ok, of
        "[(toy_pad 64 (toy_pad 32 [1]), toy_pad 32 [1]), (toy_pad 64 (toy_pad 32 [2]), toy_pad 32 [2])]" "[10, - 4]" ?ch 7]
    by (auto simp: toy_keypair Let_def chain_new_def balances_within_def covered_def paid_def split: if_splits)
qed

end
