(* ===== verification/Word_Tools.thy ===== *)
theory Word_Tools
  imports Tools
begin

text \<open>
  \<open>bin/wordenc.cc\<close> and \<open>bin/worddec.cc\<close>: a sentence of up to 24 words of a list of 2048, eleven bits a
  word, packed into 33 bytes and protected with a password as in \<open>Tools\<close>. The words of
  \<open>words/english.txt\<close> are an argument, and the output of the models is the last line of \<open>wordenc\<close> and
  the words of \<open>worddec\<close>; \<open>Word_Programs\<close> adds the file and the traces printed on the way.
\<close>

section \<open>The program\<close>

text \<open>\<open>find(words.begin(), words.end(), w) - words.begin()\<close>\<close>

fun find_index :: "bytes \<Rightarrow> bytes list \<Rightarrow> nat" where
  "find_index w [] = 0"
| "find_index w (x # xs) = (if x = w then 0 else Suc (find_index w xs))"

text \<open>The bits of a word's number, the least significant first; \<open>k\<close> rounds are left.\<close>

fun put_word :: "nat \<Rightarrow> u32 \<Rightarrow> nat \<Rightarrow> bool list \<Rightarrow> (nat \<times> bool list) result" where
  "put_word 0 n idx bits = Inr (idx, bits)"
| "put_word (Suc k) n idx bits =
     bindR (vec_set bits idx (n mod 2 \<noteq> 0)) (\<lambda>bits. put_word k (drop_bit 1 n) (idx + 1) bits)"

text \<open>The loop over the words of the sentence; \<open>None\<close> is the \<open>return -1\<close> for an unknown one.\<close>

fun put_words :: "bytes list \<Rightarrow> bytes list \<Rightarrow> nat \<Rightarrow> bool list \<Rightarrow> bool list option result" where
  "put_words words [] idx bits = Inr (Some bits)"
| "put_words words (w # enc_words) idx bits =
     (let n = of_nat (find_index w words) :: u32 in
      if unat n = length words then Inr None
      else bindR (put_word 11 n idx bits) (\<lambda>(idx, bits). put_words words enc_words idx bits))"

definition wordenc_main :: "sodium \<Rightarrow> bytes list \<Rightarrow> bytes \<Rightarrow> bytes list \<Rightarrow> (int \<times> u8 list) result" where
  "wordenc_main S words salt_b argv =
     (if length argv < 3 then Inr (1, [])
      else
        let enc_words = drop 2 argv; pass_b = argv ! 1 in
        bindR (put_words words enc_words 0 (replicate (11 * 24) False)) (\<lambda>r.
          case r of
            None \<Rightarrow> Inr (- 1, [])
          | Some bits \<Rightarrow>
              bindR (bytes_of_bitset bits) (\<lambda>msg_b. bindR (password_key S salt_b pass_b) (\<lambda>h.
              bindR (mask_message S h msg_b) (\<lambda>msg_b.
                Inr (0, show_bytes S msg_b @ [32] @ show_bytes S salt_b @ [10]))))))"

text \<open>The number of a word: \<open>k\<close> rounds are left, \<open>n\<close> are done.\<close>

fun get_number :: "nat \<Rightarrow> nat \<Rightarrow> bool list \<Rightarrow> nat \<Rightarrow> u32 \<Rightarrow> (nat \<times> u32) result" where
  "get_number 0 n bits idx m = Inr (idx, m)"
| "get_number (Suc k) n bits idx m =
     bindR (vec_get bits idx) (\<lambda>b. get_number k (n + 1) bits (idx + 1) (m OR push_bit n (of_bool b)))"

fun get_words :: "bytes list \<Rightarrow> nat \<Rightarrow> bool list \<Rightarrow> nat \<Rightarrow> bytes list result" where
  "get_words words 0 bits idx = Inr []"
| "get_words words (Suc i) bits idx =
     bindR (get_number 11 0 bits idx 0) (\<lambda>(idx, m). bindR (vec_get words (unat m)) (\<lambda>w.
     bindR (get_words words i bits idx) (\<lambda>ws. Inr (w # ws))))"

definition worddec_main :: "sodium \<Rightarrow> bytes list \<Rightarrow> bytes list \<Rightarrow> (int \<times> bytes list) result" where
  "worddec_main S words argv =
     (if length argv \<noteq> 4 then Inr (1, [])
      else
        let msg_hex = argv ! 1; salt_hex = argv ! 2; pass_b = argv ! 3; salt_b = from_hex S salt_hex in
        bindR (password_key S salt_b pass_b) (\<lambda>h.
          let msg_b = from_hex S msg_hex in
          bindR (mask_message S h msg_b) (\<lambda>msg_b. bindR (bitset_of_bytes (11 * 24) msg_b) (\<lambda>bitset.
          bindR (get_words words 24 bitset 0) (\<lambda>ws. Inr (0, ws))))))"

section \<open>Numbers and bits\<close>

fun low_bits :: "nat \<Rightarrow> u32 \<Rightarrow> bool list" where
  "low_bits 0 n = []"
| "low_bits (Suc k) n = odd n # low_bits k (drop_bit 1 n)"

lemma length_low_bits [simp]: "length (low_bits k n) = k"
  by (induction k arbitrary: n) simp_all

lemma low_bits_0: "low_bits k 0 = replicate k False"
  by (induction k) simp_all

lemma put_word_eq:
  "idx + k \<le> length bits \<Longrightarrow>
     put_word k n idx bits = Inr (idx + k, take idx bits @ low_bits k n @ drop (idx + k) bits)"
proof (induction k arbitrary: n idx bits)
  case (Suc k)
  then have "put_word (Suc k) n idx bits = put_word k (drop_bit 1 n) (idx + 1) (bits[idx := odd n])"
    by (simp add: odd_iff_mod_2_eq_one)
  with Suc show ?case by (simp add: take_Suc_conv_app_nth)
qed simp

lemma take_bit_Suc_split:
  "take_bit (Suc k) x = of_bool (odd x) OR push_bit 1 (take_bit k (drop_bit 1 x))" for x :: u32
proof (rule bit_word_eqI)
  fix i assume "i < LENGTH(32)"
  then show "bit (take_bit (Suc k) x) i \<longleftrightarrow> bit (of_bool (odd x) OR push_bit 1 (take_bit k (drop_bit 1 x))) i"
    unfolding bit_or_iff bit_take_bit_iff bit_push_bit_iff bit_drop_bit_eq bit_of_bool_iff o_def
    by (cases i) (auto simp: bit_0)
qed

lemma get_number_eq:
  "drop idx bits = low_bits k x @ rest \<Longrightarrow> idx + k \<le> length bits \<Longrightarrow>
     get_number k n bits idx m = Inr (idx + k, m OR push_bit n (take_bit k x))"
proof (induction k arbitrary: n idx m x)
  case (Suc k)
  have x: "take_bit (Suc k) x = of_bool (odd x) OR push_bit 1 (take_bit k (drop_bit 1 x))"
    by (rule take_bit_Suc_split)
  have "drop idx bits = bits ! idx # drop (idx + 1) bits"
    using Suc.prems(2) by (simp add: Cons_nth_drop_Suc)
  with Suc.prems(1) have "bits ! idx = odd x" and r: "drop (idx + 1) bits = low_bits k (drop_bit 1 x) @ rest"
    by simp_all
  then have "get_number (Suc k) n bits idx m =
      get_number k (n + 1) bits (idx + 1) (m OR push_bit n (of_bool (odd x)))"
    using Suc.prems by simp
  also have "\<dots> = Inr (idx + Suc k, (m OR push_bit n (of_bool (odd x))) OR push_bit (n + 1) (take_bit k (drop_bit 1 x)))"
    using Suc.IH [OF r] Suc.prems by simp
  finally show ?case unfolding x by (simp add: or.assoc push_bit_or)
qed simp

section \<open>Sentences\<close>

lemma find_index_known: "w \<in> set words \<Longrightarrow> find_index w words < length words \<and> words ! find_index w words = w"
  by (induction words) auto

lemma find_index_unknown: "w \<notin> set words \<Longrightarrow> find_index w words = length words"
  by (induction words) auto

definition word_number :: "bytes list \<Rightarrow> bytes \<Rightarrow> u32" where
  "word_number words w = of_nat (find_index w words)"

lemma unat_word_number: "length words \<le> 2048 \<Longrightarrow> unat (word_number words w) = find_index w words"
proof -
  assume "length words \<le> 2048"
  moreover have "find_index w words \<le> length words" by (induction words) auto
  ultimately have "find_index w words < 2 ^ LENGTH(32)" by simp
  then show ?thesis by (simp add: word_number_def unsigned_of_nat take_bit_nat_eq_self)
qed

definition sentence_bits :: "bytes list \<Rightarrow> bytes list \<Rightarrow> bool list" where
  "sentence_bits words ws = concat (map (\<lambda>w. low_bits 11 (word_number words w)) ws)"

lemma length_sentence_bits [simp]: "length (sentence_bits words ws) = 11 * length ws"
  by (induction ws) (simp_all add: sentence_bits_def)

lemma put_words_known:
  "length words \<le> 2048 \<Longrightarrow> set ks \<subseteq> set words \<Longrightarrow> idx + 11 * length ks \<le> length bits \<Longrightarrow>
     put_words words (ks @ ws) idx bits = put_words words ws (idx + 11 * length ks)
       (take idx bits @ sentence_bits words ks @ drop (idx + 11 * length ks) bits)"
proof (induction ks arbitrary: idx bits)
  case (Cons w ks)
  let ?bits = "take idx bits @ low_bits 11 (word_number words w) @ drop (idx + 11) bits"
  have "unat (word_number words w) \<noteq> length words"
    using Cons.prems find_index_known [of w words] by (simp add: unat_word_number)
  then have "put_words words ((w # ks) @ ws) idx bits = put_words words (ks @ ws) (idx + 11) ?bits"
    using Cons.prems(3) put_word_eq [of idx 11 bits "word_number words w"]
    by (simp add: word_number_def [symmetric] Let_def)
  also have "\<dots> = put_words words ws (idx + 11 + 11 * length ks)
       (take (idx + 11) ?bits @ sentence_bits words ks @ drop (idx + 11 + 11 * length ks) ?bits)"
    using Cons.prems by (intro Cons.IH) simp_all
  finally show ?case using Cons.prems(3) by (simp add: sentence_bits_def ac_simps)
qed (simp add: sentence_bits_def)

lemma get_words_eq:
  "drop idx bits = concat (map (low_bits 11) ns) @ rest \<Longrightarrow> length words \<le> 2048 \<Longrightarrow>
     (\<forall>n \<in> set ns. unat n < length words) \<Longrightarrow> idx + 11 * length ns \<le> length bits \<Longrightarrow>
     get_words words (length ns) bits idx = Inr (map (\<lambda>n. words ! unat n) ns)"
proof (induction ns arbitrary: idx)
  case (Cons n ns)
  then have "unat n < 2 ^ 11" by simp
  then have n: "take_bit 11 n = n" by (simp add: word_unat_eq_iff unsigned_take_bit_eq take_bit_nat_eq_self_iff)
  have "get_number 11 0 bits idx 0 = Inr (idx + 11, n)"
    using get_number_eq [of idx bits 11 n "concat (map (low_bits 11) ns) @ rest" 0 0] Cons.prems n by simp
  moreover have "drop (idx + 11) bits = concat (map (low_bits 11) ns) @ rest"
  proof -
    have "drop (idx + 11) bits = drop 11 (drop idx bits)" by (simp add: add.commute)
    then show ?thesis using Cons.prems(1) by simp
  qed
  ultimately show ?case using Cons by simp
qed simp

lemma concat_replicate_const: "concat (replicate n (replicate k x)) = replicate (k * n) x"
  by (induction n) (simp_all add: replicate_add)

text \<open>A sentence of one to 24 words of the list, protected by \<open>wordenc\<close>, is restored by \<open>worddec\<close> with
  the same password; a shorter sentence comes back filled up to 24 words with the first word of the
  list.\<close>

lemma word_tools_roundtrip:
  assumes S: "hash_lengths_ok S" "hex_ok S" and words: "length words \<le> 2048"
    and ws: "ws \<noteq> []" "length ws \<le> 24" "set ws \<subseteq> set words"
  shows "\<exists>c. wordenc_main S words salt (prog # pass # ws) =
      Inr (0, bin2hex S c @ [0, 32] @ bin2hex S salt @ [0, 10])
    \<and> length c = 33
    \<and> worddec_main S words [prog', bin2hex S c, bin2hex S salt, pass] =
      Inr (0, ws @ replicate (24 - length ws) (words ! 0))"
proof -
  let ?bits = "sentence_bits words ws @ replicate (264 - 11 * length ws) False"
  let ?ns = "map (word_number words) ws @ replicate (24 - length ws) 0"
  have len: "length ?bits = 264" using ws(2) by simp
  have put: "put_words words ws 0 (replicate (11 * 24) False) = Inr (Some ?bits)"
    using put_words_known [of words ws 0 "replicate 264 False" "[]"] words ws(2,3) by simp
  obtain msg where msg: "bytes_of_bitset ?bits = Inr msg" "length msg = 33"
    using bytes_of_bitset_eq [of ?bits] length_full_bytes [of ?bits] unfolding len by simp
  have unpacked: "bitset_of_bytes 264 msg = Inr ?bits"
    using bitset_whole_roundtrip [of ?bits] unfolding len msg(1) by simp
  obtain c where c: "mask_message S (tool_key S salt pass) msg = Inr c" "length c = length msg"
      "mask_message S (tool_key S salt pass) c = Inr msg"
    using mask_message_twice [OF S(1)] by blast
  from ws(1,3) have pos: "0 < length words" by (cases ws) auto
  have "replicate (264 - 11 * length ws) False = concat (replicate (24 - length ws) (low_bits 11 0))"
    using ws(2) by (simp add: low_bits_0 concat_replicate_const diff_mult_distrib2)
  then have "drop 0 ?bits = concat (map (low_bits 11) ?ns) @ []"
    by (simp add: sentence_bits_def comp_def map_replicate_const)
  moreover have "\<forall>n \<in> set ?ns. unat n < length words"
    using ws(3) pos find_index_known words by (auto simp: unat_word_number set_replicate_conv_if)
  moreover have "length ?ns = 24" using ws(2) by simp
  ultimately have "get_words words 24 ?bits 0 = Inr (map (\<lambda>n. words ! unat n) ?ns)"
    using get_words_eq [of 0 ?bits ?ns "[]" words] words len by simp
  also have "map (\<lambda>n. words ! unat n) ?ns = ws @ replicate (24 - length ws) (words ! 0)"
    using ws(3) words find_index_known by (auto simp: unat_word_number subset_iff intro!: map_idI)
  finally have get: "get_words words 24 ?bits 0 = Inr (ws @ replicate (24 - length ws) (words ! 0))" .
  have "wordenc_main S words salt (prog # pass # ws) = Inr (0, bin2hex S c @ [0, 32] @ bin2hex S salt @ [0, 10])"
    using put msg(1) c(1) ws(1) by (cases ws) (simp_all add: wordenc_main_def password_key_eq S show_bytes_def)
  moreover have "worddec_main S words [prog', bin2hex S c, bin2hex S salt, pass] =
      Inr (0, ws @ replicate (24 - length ws) (words ! 0))"
    using c(3) unpacked get by (simp add: worddec_main_def password_key_eq S from_hex_bin2hex numeral_2_eq_2 numeral_3_eq_3)
  ultimately show ?thesis using c(2) msg(2) by auto
qed

lemma put_word_out: "length bits \<le> idx \<Longrightarrow> 0 < k \<Longrightarrow> put_word k n idx bits = Inl OutOfBounds"
  by (cases k) simp_all

text \<open>\<open>wordenc\<close> gives up with -1 at the first word that is not in the list, and writes past its
  bitset when a 25th word is in the list: the number of words is not checked.\<close>

lemma wordenc_bad_sentences:
  assumes words: "length words \<le> 2048" and ks: "set ks \<subseteq> set words" "length ks \<le> 24"
  shows "(w \<notin> set words \<longrightarrow> wordenc_main S words salt (prog # pass # ks @ w # ws) = Inr (- 1, []))
    \<and> (w \<in> set words \<and> length ks = 24 \<longrightarrow>
         wordenc_main S words salt (prog # pass # ks @ w # ws) = Inl OutOfBounds)"
proof -
  let ?rest = "put_words words (w # ws) (11 * length ks) (sentence_bits words ks @ replicate (264 - 11 * length ks) False)"
  have rest: "put_words words (ks @ w # ws) 0 (replicate (11 * 24) False) = ?rest"
    using put_words_known [of words ks 0 "replicate 264 False" "w # ws"] words ks by simp
  have n: "unat (of_nat (find_index w words) :: u32) = find_index w words"
    using unat_word_number [OF words, of w] by (simp add: word_number_def)
  have "?rest = Inr None" if "w \<notin> set words"
    using find_index_unknown [OF that] n by (simp add: Let_def)
  moreover have "?rest = Inl OutOfBounds" if "w \<in> set words" and "length ks = 24"
    using find_index_known [OF that(1)] n that(2) by (simp add: Let_def put_word_out)
  moreover have "\<not> length (prog # pass # ks @ w # ws) < 3" by simp
  ultimately show ?thesis using rest by (simp add: wordenc_main_def del: put_words.simps)
qed

end
