(* ===== verification/Word_Programs.thy ===== *)
theory Word_Programs
  imports Word_Tools Dotted
begin

text \<open>
  \<open>bin/wordenc.cc\<close> and \<open>bin/worddec.cc\<close> from the words file to the standard output: reading
  \<open>words/english.txt\<close>, and everything the programs print, with the traces of numbers, bits and bytes
  left in them.
\<close>

section \<open>The words file\<close>

text \<open>\<open>words_file >> w\<close> skips white space and takes what is before the next; an empty word, which the last
  reading gives, is not kept. \<open>w\<close> holds what was read of a word so far.\<close>

definition is_space :: "u8 \<Rightarrow> bool" where
  "is_space c \<longleftrightarrow> c = 32 \<or> (9 \<le> c \<and> c \<le> 13)"

fun read_words_from :: "bytes \<Rightarrow> bytes \<Rightarrow> bytes list" where
  "read_words_from w [] = (if w = [] then [] else [w])"
| "read_words_from w (c # file) =
     (if is_space c then (if w = [] then read_words_from [] file else w # read_words_from [] file)
      else read_words_from (w @ [c]) file)"

definition read_words :: "bytes \<Rightarrow> bytes list" where
  "read_words file = read_words_from [] file"

section \<open>Traces\<close>

text \<open>A bitset is printed from its highest bit down.\<close>

definition bits_text :: "bool list \<Rightarrow> u8 list" where
  "bits_text bits = map (\<lambda>b. if b then 49 else 48) (rev bits)"

text \<open>\<open>cout << n << endl\<close> for each word up to the first unknown one.\<close>

fun number_lines :: "bytes list \<Rightarrow> bytes list \<Rightarrow> u8 list" where
  "number_lines words [] = []"
| "number_lines words (w # enc_words) =
     (let n = of_nat (find_index w words) :: u32 in
      if unat n = length words then [] else decimal (unat n) @ [10] @ number_lines words enc_words)"

text \<open>What \<open>Bytes::bitset\<close> prints for bit \<open>i\<close>: the byte, the mask, and both combined.\<close>

definition bit_line :: "nat \<Rightarrow> bytes \<Rightarrow> nat \<Rightarrow> u8 list" where
  "bit_line N v i =
     (let x = v ! (i div 8); base = (if i div 8 = N div 8 then N mod 8 else 8);
          mask = push_bit (base - 1 - i mod 8) 1
      in decimal (unat x) @ [32] @ decimal (unat mask) @ [32] @ decimal (unat (x AND mask)) @ [10])"

definition bitset_trace :: "nat \<Rightarrow> bytes \<Rightarrow> u8 list" where
  "bitset_trace N v = concat (map (bit_line N v) [0..<N])"

definition wordenc_program :: "sodium \<Rightarrow> bytes \<Rightarrow> bytes \<Rightarrow> bytes list \<Rightarrow> (int \<times> u8 list) result" where
  "wordenc_program S file salt_b argv =
     (if length argv < 3 then Inr (1, [])
      else
        let words = read_words file; enc_words = drop 2 argv; numbers = number_lines words enc_words in
        bindR (put_words words enc_words 0 (replicate (11 * 24) False)) (\<lambda>r.
          case r of
            None \<Rightarrow> Inr (- 1, numbers)
          | Some bits \<Rightarrow>
              bindR (bytes_of_bitset bits) (\<lambda>msg_b.
              bindR (wordenc_main S words salt_b argv) (\<lambda>(status, last_line).
                Inr (status, numbers @ decimal (length bits) @ [10] @ bits_text bits @ [10]
                  @ decimal (length msg_b) @ [10] @ show_bytes S msg_b @ [10] @ last_line)))))"

definition worddec_program :: "sodium \<Rightarrow> bytes \<Rightarrow> bytes list \<Rightarrow> (int \<times> u8 list) result" where
  "worddec_program S file argv =
     (if length argv \<noteq> 4 then Inr (1, [])
      else
        let words = read_words file in
        bindR (password_key S (from_hex S (argv ! 2)) (argv ! 3)) (\<lambda>h.
        bindR (mask_message S h (from_hex S (argv ! 1))) (\<lambda>msg_b.
        bindR (bitset_of_bytes (11 * 24) msg_b) (\<lambda>bitset.
        bindR (worddec_main S words argv) (\<lambda>(status, ws).
          Inr (status, show_bytes S msg_b @ [10] @ bitset_trace (11 * 24) msg_b @ bits_text bitset @ [10]
            @ concat (map (\<lambda>w. w @ [10]) ws)))))))"

section \<open>The whole run\<close>

definition plain_word :: "bytes \<Rightarrow> bool" where
  "plain_word w \<longleftrightarrow> w \<noteq> [] \<and> (\<forall>c \<in> set w. \<not> is_space c)"

lemma read_words_from_word:
  "\<forall>c \<in> set w. \<not> is_space c \<Longrightarrow> is_space d \<Longrightarrow> v @ w \<noteq> [] \<Longrightarrow>
     read_words_from v (w @ d # file) = (v @ w) # read_words_from [] file"
  by (induction w arbitrary: v) auto

text \<open>A file with a word on each line.\<close>

lemma read_words_lines: "\<forall>w \<in> set ws. plain_word w \<Longrightarrow> read_words (concat (map (\<lambda>w. w @ [10]) ws)) = ws"
proof (induction ws)
  case (Cons w ws)
  then have "read_words_from [] (w @ 10 # concat (map (\<lambda>w. w @ [10]) ws)) =
      ([] @ w) # read_words_from [] (concat (map (\<lambda>w. w @ [10]) ws))"
    by (intro read_words_from_word) (simp_all add: plain_word_def is_space_def)
  with Cons show ?case by (simp add: read_words_def)
qed (simp add: read_words_def)

lemma number_lines_known:
  "set ws \<subseteq> set words \<Longrightarrow> length words \<le> 2048 \<Longrightarrow>
     number_lines words ws = concat (map (\<lambda>w. decimal (find_index w words) @ [10]) ws)"
proof (induction ws)
  case (Cons w ws)
  then have "unat (of_nat (find_index w words) :: u32) = find_index w words" "find_index w words < length words"
    using unat_word_number [of words w] find_index_known [of w words] by (simp_all add: word_number_def)
  with Cons show ?case by (simp add: Let_def)
qed simp

text \<open>C21: with the same words file, a word on each line, and the same password, what \<open>wordenc\<close> prints in its
  last line \<open>worddec\<close> turns back into the sentence, one word on each of its last 24 lines, filled up
  with the first word of the file. But \<open>wordenc\<close> also prints, before the line it protects, the number
  of every word of the sentence in the clear.\<close>

theorem word_programs_roundtrip:
  assumes S: "hash_lengths_ok S" "hex_ok S"
    and lines: "file = concat (map (\<lambda>w. w @ [10]) words)" "\<forall>w \<in> set words. plain_word w" "length words \<le> 2048"
    and ws: "ws \<noteq> []" "length ws \<le> 24" "set ws \<subseteq> set words"
  shows "\<exists>c trace trace'. wordenc_program S file salt (prog # pass # ws) =
      Inr (0, concat (map (\<lambda>w. decimal (find_index w words) @ [10]) ws) @ trace
        @ bin2hex S c @ [0, 32] @ bin2hex S salt @ [0, 10])
    \<and> worddec_program S file [prog', bin2hex S c, bin2hex S salt, pass] =
      Inr (0, trace' @ concat (map (\<lambda>w. w @ [10]) (ws @ replicate (24 - length ws) (words ! 0))))"
proof -
  have words: "read_words file = words" using read_words_lines [OF lines(2)] lines(1) by simp
  obtain c where c: "wordenc_main S words salt (prog # pass # ws) =
      Inr (0, bin2hex S c @ [0, 32] @ bin2hex S salt @ [0, 10])"
    "worddec_main S words [prog', bin2hex S c, bin2hex S salt, pass] =
      Inr (0, ws @ replicate (24 - length ws) (words ! 0))"
    using word_tools_roundtrip [OF S lines(3) ws] by blast
  obtain bits msg where e: "put_words words ws 0 (replicate (11 * 24) False) = Inr (Some bits)" "bytes_of_bitset bits = Inr msg"
    using c(1) ws(1) by (cases ws) (auto simp: wordenc_main_def bindR_eq_Inr split: option.splits)
  obtain h m bs where d: "password_key S (from_hex S (bin2hex S salt)) pass = Inr h"
      "mask_message S h (from_hex S (bin2hex S c)) = Inr m" "bitset_of_bytes (11 * 24) m = Inr bs"
    using c(2) by (auto simp: worddec_main_def bindR_eq_Inr numeral_2_eq_2 numeral_3_eq_3)
  have "wordenc_program S file salt (prog # pass # ws) = Inr (0, number_lines words ws @ (decimal (length bits) @ [10]
      @ bits_text bits @ [10] @ decimal (length msg) @ [10] @ show_bytes S msg @ [10])
      @ bin2hex S c @ [0, 32] @ bin2hex S salt @ [0, 10])"
    using e c(1) ws(1) by (cases ws) (simp_all add: wordenc_program_def words Let_def)
  moreover have "worddec_program S file [prog', bin2hex S c, bin2hex S salt, pass] =
      Inr (0, (show_bytes S m @ [10] @ bitset_trace (11 * 24) m @ bits_text bs @ [10])
        @ concat (map (\<lambda>w. w @ [10]) (ws @ replicate (24 - length ws) (words ! 0))))"
    using d c(2) by (simp add: worddec_program_def words Let_def numeral_2_eq_2 numeral_3_eq_3)
  ultimately show ?thesis using number_lines_known [OF ws(3) lines(3)] by metis
qed

lemma word_programs_roundtrip_witness:
  "\<exists>c trace. wordenc_program toy_sodium [97, 10, 98, 10, 99, 10] [7] ([] # [1] # [[99], [98]]) =
      Inr (0, [50, 10, 49, 10] @ trace @ bin2hex toy_sodium c @ [0, 32] @ bin2hex toy_sodium [7] @ [0, 10])"
proof -
  have "decimal (Suc (Suc 0)) = [50]" "decimal (Suc 0) = [49]" by (simp_all add: decimal.simps)
  then show ?thesis
    using word_programs_roundtrip [OF toy_hash_lengths_ok toy_hex_ok refl, of "[[97], [98], [99]]" "[[99], [98]]" "[7]" "[]" "[1]" "[]"]
    by (auto simp: plain_word_def is_space_def)
qed

end
