(* ===== verification/Races.thy ===== *)
theory Races
  imports Node
begin

text \<open>
  The set of addresses \<open>ip_list\<close> of \<open>bin/p2p.cc\<close> under concurrency, finer than the rounds of \<open>Node\<close>: the
  server that answers \<open>GetPeers\<close> counts the addresses before it takes the mutex, then copies them one
  by one; a connection's thread, and the server on \<open>Hello\<close>, insert addresses one by one under the mutex.
  Each of these is a thread that moves in steps of one access to the set; any number of them run.
\<close>

section \<open>Threads\<close>

text \<open>
  \<open>Count\<close>, \<open>Await n\<close> with \<open>n\<close> texts allocated in the reply, \<open>Fill n seen\<close> in the loop with the addresses
  visited so far, \<open>Replied\<close>, and \<open>Overran\<close> when \<open>iplist.set\<close> is called beyond the texts allocated;
  \<open>Learn new\<close> before the mutex with the addresses to insert, \<open>Insert new\<close> in the loop, \<open>Learned\<close>.
\<close>

datatype ip_thread =
    Count | Await nat | Fill nat "bytes list" | Replied "bytes list" | Overran
  | Learn "bytes list" | Insert "bytes list" | Learned

record ip_state =
  ps_mutex :: "nat option"
  ps_ips :: "bytes list"
  ps_threads :: "ip_thread list"

text \<open>The iterator of \<open>for (auto ip : ip_list)\<close>: the least address above the one it stands on.\<close>

definition next_ip :: "bytes list \<Rightarrow> bytes list \<Rightarrow> bytes option" where
  "next_ip seen ips = find (\<lambda>ip. seen = [] \<or> last seen < ip) ips"

text \<open>A step of a thread: its new state, the mutex afterwards and the set, or \<open>None\<close> when it has ended or
  waits for the mutex. \<open>i\<close> is its number.\<close>

fun peers_move :: "nat \<Rightarrow> nat option \<Rightarrow> bytes list \<Rightarrow> ip_thread \<Rightarrow> (ip_thread \<times> nat option \<times> bytes list) option" where
  "peers_move i m ips Count = Some (Await (length ips), m, ips)"
| "peers_move i m ips (Await n) = (if m = None then Some (Fill n [], Some i, ips) else None)"
| "peers_move i m ips (Fill n seen) =
     (case next_ip seen ips of
        Some ip \<Rightarrow> Some (if length seen < n then Fill n (seen @ [ip]) else Overran, m, ips)
      | None \<Rightarrow> Some (Replied (map c_str seen @ replicate (n - length seen) []), None, ips))"
| "peers_move i m ips t = None"

fun learn_move :: "nat \<Rightarrow> nat option \<Rightarrow> bytes list \<Rightarrow> ip_thread \<Rightarrow> (ip_thread \<times> nat option \<times> bytes list) option" where
  "learn_move i m ips (Learn new) = (if m = None then Some (Insert new, Some i, ips) else None)"
| "learn_move i m ips (Insert (ip # new)) = Some (Insert new, m, set_insert (c_str ip) ips)"
| "learn_move i m ips (Insert []) = Some (Learned, None, ips)"
| "learn_move i m ips t = None"

definition ip_move :: "nat \<Rightarrow> nat option \<Rightarrow> bytes list \<Rightarrow> ip_thread \<Rightarrow> (ip_thread \<times> nat option \<times> bytes list) option" where
  "ip_move i m ips t = (case peers_move i m ips t of Some r \<Rightarrow> Some r | None \<Rightarrow> learn_move i m ips t)"

inductive ip_step :: "ip_state \<Rightarrow> ip_state \<Rightarrow> bool" where
  move: "i < length (ps_threads s) \<Longrightarrow>
    ip_move i (ps_mutex s) (ps_ips s) (ps_threads s ! i) = Some (t, m, ips) \<Longrightarrow>
    ip_step s \<lparr>ps_mutex = m, ps_ips = ips, ps_threads = (ps_threads s)[i := t]\<rparr>"

inductive_cases ip_stepE: "ip_step s s'"

lemma ip_move_simps [simp]:
  "ip_move i m ips Count = peers_move i m ips Count" "ip_move i m ips (Await n) = peers_move i m ips (Await n)"
  "ip_move i m ips (Fill n seen) = peers_move i m ips (Fill n seen)"
  "ip_move i m ips (Learn new) = learn_move i m ips (Learn new)"
  "ip_move i m ips (Insert new) = learn_move i m ips (Insert new)"
  "ip_move i m ips (Replied l) = None" "ip_move i m ips Overran = None" "ip_move i m ips Learned = None"
  by (simp_all add: ip_move_def split: option.splits)

definition ip_start :: "bytes list \<Rightarrow> ip_thread list \<Rightarrow> ip_state" where
  "ip_start ips ts = \<lparr>ps_mutex = None, ps_ips = ips, ps_threads = ts\<rparr>"

definition begins :: "ip_thread \<Rightarrow> bool" where
  "begins t \<longleftrightarrow> t = Count \<or> (\<exists>new. t = Learn new)"

section \<open>The invariant\<close>

fun holds :: "ip_thread \<Rightarrow> bool" where
  "holds (Fill n seen) = True" | "holds Overran = True" | "holds (Insert new) = True" | "holds _ = False"

text \<open>Addresses that will still be inserted.\<close>

fun pending :: "ip_thread \<Rightarrow> bytes set" where
  "pending (Learn new) = c_str ` set new" | "pending (Insert new) = c_str ` set new" | "pending _ = {}"

fun thread_ok :: "bytes list \<Rightarrow> bytes list \<Rightarrow> ip_thread \<Rightarrow> bool" where
  "thread_ok ips0 ips (Await n) \<longleftrightarrow> length ips0 \<le> n \<and> n \<le> length ips"
| "thread_ok ips0 ips (Fill n seen) \<longleftrightarrow> length ips0 \<le> n \<and> n \<le> length ips \<and> length seen \<le> n \<and> seen = take (length seen) ips"
| "thread_ok ips0 ips (Replied l) \<longleftrightarrow>
     (\<exists>l0. l = map c_str l0 \<and> ascending l0 \<and> set ips0 \<subseteq> set l0 \<and> set l0 \<subseteq> set ips)"
| "thread_ok ips0 ips Overran \<longleftrightarrow> length ips0 < length ips"
| "thread_ok ips0 ips t \<longleftrightarrow> True"

definition ip_ok :: "bytes list \<Rightarrow> bytes set \<Rightarrow> ip_state \<Rightarrow> bool" where
  "ip_ok ips0 news s \<longleftrightarrow> ascending (ps_ips s) \<and> set ips0 \<subseteq> set (ps_ips s)
     \<and> set (ps_ips s) \<union> \<Union> (pending ` set (ps_threads s)) = set ips0 \<union> news
     \<and> (\<forall>i < length (ps_threads s). (holds (ps_threads s ! i) \<longleftrightarrow> ps_mutex s = Some i)
          \<and> thread_ok ips0 (ps_ips s) (ps_threads s ! i))
     \<and> (\<forall>i. ps_mutex s = Some i \<longrightarrow> i < length (ps_threads s))"

lemma next_ip_take:
  assumes "ascending ips" and "k \<le> length ips"
  shows "next_ip (take k ips) ips = (if k < length ips then Some (ips ! k) else None)"
proof -
  have below: "\<not> (take k ips = [] \<or> last (take k ips) < ips ! j)" if "j < k" for j
  proof -
    from that assms(2) have ne: "take k ips \<noteq> []" by auto
    with that assms(2) have "last (take k ips) = ips ! (k - 1)" by (simp add: last_conv_nth min_def)
    moreover have "ips ! j \<le> ips ! (k - 1)"
      using that assms sorted_wrt_nth_less [of "(<)" ips j "k - 1"] by (cases "j = k - 1") (auto simp: less_imp_le)
    ultimately show ?thesis using ne by simp
  qed
  have above: "take k ips = [] \<or> last (take k ips) < ips ! k" if "k < length ips"
  proof (cases "k = 0")
    case False
    with that have "last (take k ips) = ips ! (k - 1)" by (subst last_conv_nth) (auto simp: min_def)
    then show ?thesis using False that assms(1) sorted_wrt_nth_less [of "(<)" ips "k - 1" k] by simp
  qed simp
  show ?thesis
  proof (cases "k < length ips")
    case True
    with above below show ?thesis unfolding next_ip_def by (auto simp: find_Some_iff intro!: exI [of _ k])
  next
    case False
    with assms(2) have "k = length ips" by simp
    with below show ?thesis unfolding next_ip_def by (auto simp: find_None_iff in_set_conv_nth)
  qed
qed

lemma ascending_length_mono: "ascending xs \<Longrightarrow> ascending ys \<Longrightarrow> set xs \<subseteq> set ys \<Longrightarrow> length xs \<le> length ys"
  by (metis List.finite_set card_mono distinct_card strict_sorted_iff)


text \<open>What a thread does, and what the others see of it.\<close>

lemma ip_move_ok:
  assumes "ip_move i m ips t = Some (t', m', ips')" and "ascending ips" and "ascending ips0" and "set ips0 \<subseteq> set ips"
    and "thread_ok ips0 ips t" and "holds t \<longleftrightarrow> m = Some i"
  shows "ascending ips' \<and> set ips \<subseteq> set ips' \<and> set ips' \<union> pending t' = set ips \<union> pending t
    \<and> (holds t' \<longleftrightarrow> m' = Some i) \<and> thread_ok ips0 ips' t'
    \<and> (m' \<noteq> m \<longrightarrow> m \<in> {None, Some i} \<and> m' \<in> {None, Some i}) \<and> (ips' \<noteq> ips \<longrightarrow> m = Some i)"
  using assms(1,5,6)
proof (cases t)
  case (Fill n seen)
  with assms(5) have seen: "length ips0 \<le> n" "n \<le> length ips" "length seen \<le> n" "seen = take (length seen) ips"
    by simp_all
  then have nxt: "next_ip seen ips = (if length seen < length ips then Some (ips ! length seen) else None)"
    using next_ip_take [OF assms(2), of "length seen"] by simp
  show ?thesis
  proof (cases "length seen < length ips")
    case True
    with seen have "seen @ [ips ! length seen] = take (Suc (length seen)) ips" by (simp add: take_Suc_conv_app_nth)
    with True nxt seen Fill assms show ?thesis by (auto split: if_splits)
  next
    case False
    with seen have "seen = ips" "n = length seen" by simp_all
    with False nxt Fill assms show ?thesis by auto
  qed
next
  case (Insert new)
  then show ?thesis using assms by (cases new) auto
qed (use assms ascending_length_mono [OF assms(3,2,4)] in \<open>auto split: if_splits\<close>)

lemma ip_step_ok:
  assumes "ip_step s s'" and ok: "ip_ok ips0 news s" and ips0: "ascending ips0"
  shows "ip_ok ips0 news s' \<and> length (ps_threads s') = length (ps_threads s)"
  using assms(1)
proof (rule ip_stepE)
  fix i t m ips
  assume i: "i < length (ps_threads s)" and mv: "ip_move i (ps_mutex s) (ps_ips s) (ps_threads s ! i) = Some (t, m, ips)"
    and s': "s' = \<lparr>ps_mutex = m, ps_ips = ips, ps_threads = (ps_threads s)[i := t]\<rparr>"
  let ?ts = "ps_threads s"
  from ok have asc: "ascending (ps_ips s)" and sub: "set ips0 \<subseteq> set (ps_ips s)"
    and th: "\<And>j. j < length ?ts \<Longrightarrow> (holds (?ts ! j) \<longleftrightarrow> ps_mutex s = Some j) \<and> thread_ok ips0 (ps_ips s) (?ts ! j)"
    by (simp_all add: ip_ok_def)
  from ip_move_ok [OF mv asc ips0 sub] th [OF i] have new: "ascending ips" "set (ps_ips s) \<subseteq> set ips"
      "set ips \<union> pending t = set (ps_ips s) \<union> pending (?ts ! i)" "holds t \<longleftrightarrow> m = Some i" "thread_ok ips0 ips t"
      "m \<noteq> ps_mutex s \<Longrightarrow> ps_mutex s \<in> {None, Some i} \<and> m \<in> {None, Some i}"
      "ips \<noteq> ps_ips s \<Longrightarrow> ps_mutex s = Some i" by blast+
  have len: "length (ps_ips s) \<le> length ips" using ascending_length_mono [OF asc new(1,2)] .
  have other: "(holds (?ts ! j) \<longleftrightarrow> m = Some j) \<and> thread_ok ips0 ips (?ts ! j)" if "j < length ?ts" "j \<noteq> i" for j
  proof -
    have h: "holds (?ts ! j) \<longleftrightarrow> m = Some j" using th [OF that(1)] new(6) that(2) by (cases "m = ps_mutex s") auto
    have "thread_ok ips0 ips (?ts ! j)"
    proof (cases "ips = ps_ips s")
      case False
      with new(7) that(2) th [OF that(1)] have "\<not> holds (?ts ! j)" by simp
      with th [OF that(1)] len new(2) show ?thesis by (cases "?ts ! j") (auto 4 3)
    qed (use th that in simp)
    with h show ?thesis by blast
  qed
  have "set ips \<union> \<Union> (pending ` set (?ts[i := t])) = set (ps_ips s) \<union> \<Union> (pending ` set ?ts)"
  proof -
    have "\<Union> (pending ` set (?ts[i := t])) = pending t \<union> (\<Union>j \<in> {..<length ?ts} - {i}. pending (?ts ! j))" for t
      using i by (auto simp: set_conv_nth nth_list_update split: if_splits)
    from this [of t] this [of "?ts ! i"] new(3) show ?thesis by auto
  qed
  moreover have "m = Some k \<Longrightarrow> k < length ?ts" for k
    using ok new(6) i by (cases "m = ps_mutex s") (auto simp: ip_ok_def)
  ultimately have "ip_ok ips0 news s'"
    using ok new(1-5) other i sub unfolding ip_ok_def s' by (auto simp: nth_list_update)
  then show ?thesis by (simp add: s')
qed

lemma ip_start_ok:
  assumes "ascending ips0" and "\<forall>t \<in> set ts. begins t"
  shows "ip_ok ips0 (\<Union> (pending ` set ts)) (ip_start ips0 ts)"
proof -
  have "\<not> holds (ts ! i) \<and> thread_ok ips0 ips0 (ts ! i)" if "i < length ts" for i
  proof -
    from assms(2) that have "begins (ts ! i)" by simp
    then show ?thesis by (auto simp: begins_def)
  qed
  with assms(1) show ?thesis by (auto simp: ip_ok_def ip_start_def)
qed

lemma ip_run_ok:
  assumes "ip_step\<^sup>*\<^sup>* (ip_start ips0 ts) s" and "ascending ips0" and "\<forall>t \<in> set ts. begins t"
  shows "ip_ok ips0 (\<Union> (pending ` set ts)) s \<and> length (ps_threads s) = length ts"
  using assms(1)
proof (induction rule: rtranclp_induct)
  case (step s s')
  from step.IH ip_step_ok [OF step.hyps(2) _ assms(2)] show ?case by metis
qed (use ip_start_ok [OF assms(2,3)] in \<open>simp add: ip_start_def\<close>)

text \<open>C5: whatever the order in which the threads run, at most one of them is behind the mutex; no address
  is lost or made up, so once every thread has ended the set holds the old and all the new ones; and
  every reply to \<open>GetPeers\<close> that is sent is in order, without duplicates, has all addresses known when
  the threads started and none but known ones; when the others bring no new address, it is the reply
  of the server's round taken as one step.\<close>

theorem ip_list_synchronised:
  assumes "ip_step\<^sup>*\<^sup>* (ip_start ips0 ts) s" and "ascending ips0" and "\<forall>t \<in> set ts. begins t"
  shows "(\<forall>i j. i < length ts \<and> j < length ts \<and> holds (ps_threads s ! i) \<and> holds (ps_threads s ! j) \<longrightarrow> i = j)
    \<and> ((\<forall>t \<in> set (ps_threads s). t = Learned \<or> t = Overran \<or> (\<exists>l. t = Replied l)) \<longrightarrow>
        set (ps_ips s) = set ips0 \<union> \<Union> (pending ` set ts))
    \<and> (\<forall>l. Replied l \<in> set (ps_threads s) \<longrightarrow> (\<exists>l0. l = map c_str l0 \<and> ascending l0
        \<and> set ips0 \<subseteq> set l0 \<and> set l0 \<subseteq> set ips0 \<union> \<Union> (pending ` set ts)))
    \<and> (\<forall>l nd. Replied l \<in> set (ps_threads s) \<and> \<Union> (pending ` set ts) \<subseteq> set ips0 \<and> nd_ip_list nd = ips0 \<longrightarrow>
        answer C S key body Get_Peers nd = Inr (Ip_List l, nd))"
proof -
  note ok = ip_run_ok [OF assms]
  then have len: "length (ps_threads s) = length ts" by blast
  have holds: "holds (ps_threads s ! i) \<longleftrightarrow> ps_mutex s = Some i" and th: "thread_ok ips0 (ps_ips s) (ps_threads s ! i)"
    if "i < length ts" for i using ok that by (simp_all add: ip_ok_def)
  have set_eq: "set (ps_ips s) \<union> \<Union> (pending ` set (ps_threads s)) = set ips0 \<union> \<Union> (pending ` set ts)"
    using ok by (simp add: ip_ok_def)
  have ended: "\<Union> (pending ` set (ps_threads s)) = {}"
    if "\<forall>t \<in> set (ps_threads s). t = Learned \<or> t = Overran \<or> (\<exists>l. t = Replied l)"
    using that by fastforce
  have "\<exists>l0. l = map c_str l0 \<and> ascending l0 \<and> set ips0 \<subseteq> set l0 \<and> set l0 \<subseteq> set (ps_ips s)"
    if "Replied l \<in> set (ps_threads s)" for l
  proof -
    from that len obtain i where "i < length ts" "ps_threads s ! i = Replied l" by (metis in_set_conv_nth)
    with th [of i] show ?thesis by simp
  qed
  moreover have "set (ps_ips s) \<subseteq> set ips0 \<union> \<Union> (pending ` set ts)" using set_eq by blast
  ultimately have reply: "\<exists>l0. l = map c_str l0 \<and> ascending l0 \<and> set ips0 \<subseteq> set l0
      \<and> set l0 \<subseteq> set ips0 \<union> \<Union> (pending ` set ts)" if "Replied l \<in> set (ps_threads s)" for l
    using that by (meson subset_trans)
  have "answer C S key body Get_Peers nd = Inr (Ip_List l, nd)"
    if l: "Replied l \<in> set (ps_threads s)" and "\<Union> (pending ` set ts) \<subseteq> set ips0" and nd: "nd_ip_list nd = ips0" for l nd
  proof -
    obtain l0 where l0: "l = map c_str l0" "ascending l0" "set ips0 \<subseteq> set l0"
        "set l0 \<subseteq> set ips0 \<union> \<Union> (pending ` set ts)" using reply [OF l] by blast
    with that(2) have "set l0 = set ips0" by (simp add: sup_absorb1)
    then have "l0 = ips0" using strict_sorted_equal [OF l0(2) assms(2)] by blast
    with l0(1) nd show ?thesis by (simp add: answer_def)
  qed
  then have replies: "\<forall>l nd. Replied l \<in> set (ps_threads s) \<and> \<Union> (pending ` set ts) \<subseteq> set ips0 \<and> nd_ip_list nd = ips0 \<longrightarrow>
      answer C S key body Get_Peers nd = Inr (Ip_List l, nd)" by simp
  have "\<forall>i j. i < length ts \<and> j < length ts \<and> holds (ps_threads s ! i) \<and> holds (ps_threads s ! j) \<longrightarrow> i = j"
    using holds by (metis option.inject)
  moreover have "(\<forall>t \<in> set (ps_threads s). t = Learned \<or> t = Overran \<or> (\<exists>l. t = Replied l)) \<longrightarrow>
      set (ps_ips s) = set ips0 \<union> \<Union> (pending ` set ts)"
    using ended set_eq by (metis (no_types, lifting) Un_empty_right)
  moreover have "\<forall>l. Replied l \<in> set (ps_threads s) \<longrightarrow> (\<exists>l0. l = map c_str l0 \<and> ascending l0
      \<and> set ips0 \<subseteq> set l0 \<and> set l0 \<subseteq> set ips0 \<union> \<Union> (pending ` set ts))" using reply by blast
  ultimately show ?thesis using replies by (intro conjI)
qed

lemma ip_list_synchronised_witness:
  "\<exists>s. ip_step\<^sup>*\<^sup>* (ip_start [[1]] [Count, Learn [[2]]]) s \<and> ps_threads s ! 0 = Await 1
    \<and> (\<forall>i j. i < 2 \<and> j < 2 \<and> holds (ps_threads s ! i) \<and> holds (ps_threads s ! j) \<longrightarrow> i = j)"
proof -
  let ?s = "\<lparr>ps_mutex = None, ps_ips = [[1]], ps_threads = [Await 1, Learn [[2]]]\<rparr>"
  have "ip_step (ip_start [[1]] [Count, Learn [[2]]]) ?s"
    using ip_step.move [of 0 "ip_start [[1]] [Count, Learn [[2]]]" "Await 1" None "[[1]]"] by (simp add: ip_start_def)
  then have run: "ip_step\<^sup>*\<^sup>* (ip_start [[1]] [Count, Learn [[2]]]) ?s" by (rule r_into_rtranclp)
  show ?thesis
    using ip_list_synchronised [OF run] run by (intro exI [of _ ?s]) (simp add: begins_def numeral_2_eq_2)
qed

section \<open>Progress\<close>

text \<open>How many steps a thread has left at most, when there are never more than \<open>M\<close> addresses.\<close>

fun steps_left :: "nat \<Rightarrow> ip_thread \<Rightarrow> nat" where
  "steps_left M Count = M + 3"
| "steps_left M (Await n) = M + 2"
| "steps_left M (Fill n seen) = M + 1 - length seen"
| "steps_left M (Learn new) = length new + 2"
| "steps_left M (Insert new) = length new + 1"
| "steps_left M _ = 0"

definition work :: "nat \<Rightarrow> ip_thread list \<Rightarrow> nat" where
  "work M ts = sum_list (map (steps_left M) ts)"

lemma ip_move_works:
  assumes "ip_move i m ips t = Some (t', m', ips')" and "thread_ok ips0 ips t" and "length ips \<le> M"
  shows "steps_left M t' < steps_left M t"
proof (cases t)
  case (Fill n seen)
  then have "length seen \<le> M" using assms(2,3) by simp
  with Fill assms(1) show ?thesis by (auto split: option.splits if_splits)
next
  case (Insert new)
  then show ?thesis using assms(1) by (cases new) auto
qed (use assms in \<open>auto split: if_splits\<close>)

lemma ip_step_works:
  assumes "ip_step s s'" and ok: "ip_ok ips0 news s" and M: "card (set ips0 \<union> news) \<le> M" "finite news"
  shows "work M (ps_threads s') < work M (ps_threads s)"
  using assms(1)
proof (rule ip_stepE)
  fix i t m ips
  assume i: "i < length (ps_threads s)" and mv: "ip_move i (ps_mutex s) (ps_ips s) (ps_threads s ! i) = Some (t, m, ips)"
    and s': "s' = \<lparr>ps_mutex = m, ps_ips = ips, ps_threads = (ps_threads s)[i := t]\<rparr>"
  have "ascending (ps_ips s)" "set (ps_ips s) \<subseteq> set ips0 \<union> news" using ok unfolding ip_ok_def by blast+
  then have "distinct (ps_ips s)" "card (set (ps_ips s)) \<le> card (set ips0 \<union> news)"
    using M(2) by (simp_all add: strict_sorted_iff card_mono)
  then have "length (ps_ips s) \<le> M" using M(1) by (simp add: distinct_card)
  moreover have "thread_ok ips0 (ps_ips s) (ps_threads s ! i)" using ok i by (simp add: ip_ok_def)
  ultimately have "steps_left M t < steps_left M (ps_threads s ! i)" using ip_move_works [OF mv] by blast
  then obtain d where "steps_left M (ps_threads s ! i) = Suc (steps_left M t + d)" by (rule less_natE)
  then have d: "steps_left M t + Suc d = steps_left M (ps_threads s ! i)" by simp
  show ?thesis using sum_list_map_update [OF i, of "steps_left M" t, OF d] by (simp add: work_def s')
qed

text \<open>C6: the threads neither block one another nor go on for ever: any run has a bounded number of steps,
  and when no thread can move, all have ended, unless the server has written beyond its reply.\<close>

theorem ip_list_progress:
  assumes run: "(ip_step ^^ n) (ip_start ips0 ts) s" and "ascending ips0" and "\<forall>t \<in> set ts. begins t"
  shows "n \<le> work (card (set ips0 \<union> \<Union> (pending ` set ts))) ts
    \<and> ((\<forall>s'. \<not> ip_step s s') \<longrightarrow> Overran \<in> set (ps_threads s)
        \<or> (\<forall>t \<in> set (ps_threads s). t = Learned \<or> (\<exists>l. t = Replied l)))"
proof -
  let ?news = "\<Union> (pending ` set ts)" and ?M = "card (set ips0 \<union> \<Union> (pending ` set ts))"
  have fin: "finite ?news"
  proof -
    have "finite (pending t)" for t by (cases t) simp_all
    then show ?thesis by blast
  qed
  have "n + work ?M (ps_threads s) \<le> work ?M ts \<and> ip_ok ips0 ?news s"
    using run
  proof (induction n arbitrary: s)
    case (Suc n)
    then obtain u where u: "(ip_step ^^ n) (ip_start ips0 ts) u" "ip_step u s" by auto
    with Suc.IH [OF u(1)] ip_step_ok [OF u(2) _ assms(2)] ip_step_works [OF u(2) _ order_refl fin] show ?case by fastforce
  qed (use ip_start_ok [OF assms(2,3)] in \<open>simp add: ip_start_def\<close>)
  then have n: "n \<le> work ?M ts" and ok: "ip_ok ips0 ?news s" by simp_all
  have "t = Learned \<or> (\<exists>l. t = Replied l)"
    if stuck: "\<forall>s'. \<not> ip_step s s'" and no: "Overran \<notin> set (ps_threads s)" and t: "t \<in> set (ps_threads s)" for t
  proof -
    have none: "ip_move i (ps_mutex s) (ps_ips s) (ps_threads s ! i) = None" if "i < length (ps_threads s)" for i
      using stuck ip_step.move [OF that] by (metis option.exhaust prod_cases3)
    have free: "ps_mutex s = None"
    proof (rule ccontr)
      assume "ps_mutex s \<noteq> None"
      then obtain i where i: "ps_mutex s = Some i" "i < length (ps_threads s)" using ok by (auto simp: ip_ok_def)
      with ok have "holds (ps_threads s ! i)" by (simp add: ip_ok_def)
      moreover have "ps_threads s ! i \<noteq> Overran" using no i(2) by (metis nth_mem)
      ultimately show False using none [OF i(2)]
        by (cases "ps_threads s ! i" rule: holds.cases) (auto split: option.splits elim: learn_move.elims)
    qed
    from t obtain i where i: "i < length (ps_threads s)" "ps_threads s ! i = t" by (auto simp: in_set_conv_nth)
    with ok free have "\<not> holds t" by (auto simp: ip_ok_def)
    with none [OF i(1)] i(2) free show ?thesis by (cases t) auto
  qed
  with n show ?thesis by blast
qed

lemma ip_stepI:
  "i < length ts \<Longrightarrow> ip_move i m ips (ts ! i) = Some (t, m', ips') \<Longrightarrow>
     ip_step \<lparr>ps_mutex = m, ps_ips = ips, ps_threads = ts\<rparr> \<lparr>ps_mutex = m', ps_ips = ips', ps_threads = ts[i := t]\<rparr>"
  using ip_step.move [of i "\<lparr>ps_mutex = m, ps_ips = ips, ps_threads = ts\<rparr>" t m' ips'] by simp

lemma ip_list_progress_witness:
  "\<exists>s. (ip_step ^^ 4) (ip_start [[1]] [Count]) s \<and> 4 \<le> work 1 [Count]
    \<and> (\<forall>s'. \<not> ip_step s s') \<and> (\<forall>t \<in> set (ps_threads s). t = Learned \<or> (\<exists>l. t = Replied l))"
proof -
  let ?S = "\<lambda>m t. \<lparr>ps_mutex = m, ps_ips = [[1]], ps_threads = [t]\<rparr>"
  have "ip_step (?S None Count) (?S None (Await 1))" using ip_stepI [of 0 "[Count]" None "[[1]]"] by simp
  moreover have "ip_step (?S None (Await 1)) (?S (Some 0) (Fill 1 []))"
    using ip_stepI [of 0 "[Await 1]" None "[[1]]"] by simp
  moreover have "ip_step (?S (Some 0) (Fill 1 [])) (?S (Some 0) (Fill 1 [[1]]))"
    using ip_stepI [of 0 "[Fill 1 []]" "Some 0" "[[1]]"] by (simp add: next_ip_def)
  moreover have "ip_step (?S (Some 0) (Fill 1 [[1]])) (?S None (Replied [[1]]))"
    using ip_stepI [of 0 "[Fill 1 [[1]]]" "Some 0" "[[1]]"] by (simp add: next_ip_def c_str_def)
  ultimately have "(ip_step ^^ Suc (Suc (Suc (Suc 0)))) (?S None Count) (?S None (Replied [[1]]))"
    by (intro relpowp_Suc_I2) simp_all
  then have run: "(ip_step ^^ 4) (ip_start [[1]] [Count]) (?S None (Replied [[1]]))"
    unfolding ip_start_def eval_nat_numeral BitM.simps .
  have stuck: "\<not> ip_step (?S None (Replied [[1]])) s'" for s' by (auto elim!: ip_stepE)
  show ?thesis
    using ip_list_progress [OF run] run stuck by (intro exI [of _ "?S None (Replied [[1]])"]) (simp add: begins_def)
qed

section \<open>The race\<close>





end
