(* ===== verification/Demo.thy ===== *)
theory Demo
  imports Keys Tools Socket
begin

text \<open>
  The demonstration program \<open>bin/snd.cc\<close>: it encrypts, seals and signs a message under fresh keys, undoes
  each of it, prints what it gets, and then publishes a counter for ever.
\<close>

section \<open>The program\<close>

text \<open>The loop over \<open>message.size()\<close>.\<close>

definition demo_message :: bytes where
  "demo_message = map of_nat [0..<20]"

text \<open>What is printed: a label with vectors, each as hexadecimal text, or with a truth value.\<close>

datatype item = Shown string "u8 list list" | Flag string bool

definition shown :: "sodium \<Rightarrow> string \<Rightarrow> bytes list \<Rightarrow> item" where
  "shown S label bs = Shown label (map (show_bytes S) bs)"

text \<open>The receiving ends: the flag of success, and the message as it is then.\<close>

definition demo_decrypt ::
  "sodium \<Rightarrow> encrypted_message \<Rightarrow> bytes \<Rightarrow> bytes \<Rightarrow> item list draw" where
  "demo_decrypt S enc pub priv =
     do { dec \<leftarrow> encrypted_message_of (em_enc enc);
          let (ok, dec) = decrypt S dec pub priv (em_nonce enc);
          State_Monad.return [shown S ''enc_message: '' [em_enc enc], Flag ''success: '' ok, shown S [] [em_message dec]] }"

definition demo_unseal :: "sodium \<Rightarrow> sealed_message \<Rightarrow> bytes \<Rightarrow> bytes \<Rightarrow> item list" where
  "demo_unseal S sealed pub priv =
     (let (ok, unsealed) = unseal S (sealed_message_of (sm_sealed sealed)) pub priv
      in [Flag ''success: '' ok, shown S [] [sm_message unsealed]])"

definition demo_verify :: "sodium \<Rightarrow> signed_message \<Rightarrow> bytes \<Rightarrow> item list" where
  "demo_verify S sign pub =
     (let (ok, verified) = verify_message S (signed_message_of (sg_signed sign)) pub
      in [shown S [] [sg_signed sign], Flag ''signed: '' ok, shown S [] [sg_message verified]])"

text \<open>The part before the socket: what is printed until the end or until an exception.\<close>

definition snd_demo :: "sodium \<Rightarrow> (item list \<times> unit result) draw" where
  "snd_demo S =
     do { (pub1, priv1) \<leftarrow> key_pair_new S;
          (pub2, priv2) \<leftarrow> key_pair_new S;
          let keys = [shown S [] [pub1, priv1], shown S [] [pub2, priv2], shown S [] [demo_message]];
          enc \<leftarrow> encrypted_message_new S demo_message pub1 priv2;
          case enc of Inl e \<Rightarrow> State_Monad.return (keys, Inl e)
          | Inr enc \<Rightarrow> do {
              decrypted \<leftarrow> demo_decrypt S enc pub2 priv1;
              sealed \<leftarrow> sealed_message_new S demo_message pub1;
              let unsealed = demo_unseal S sealed pub1 priv1;
              (pub3, priv3) \<leftarrow> sign_key_pair_new S;
              let out = keys @ decrypted @ unsealed @ [shown S ''sign keypair: '' [pub3, priv3]];
              State_Monad.return (case sign_message S demo_message priv3 of
                  Inl e \<Rightarrow> (out, Inl e)
                | Inr sign \<Rightarrow> (out @ demo_verify S sign pub3, Inr ())) } }"

text \<open>\<open>k\<close> rounds of the endless loop; the counter is an \<open>int\<close>.\<close>

fun snd_loop :: "zmq \<Rightarrow> nat \<Rightarrow> int \<Rightarrow> socket \<Rightarrow> (int \<times> socket) result" where
  "snd_loop Z 0 n sock = Inr (n, sock)"
| "snd_loop Z (Suc k) n sock =
     bindR (socket_send Z [of_int n] False sock) (\<lambda>sock.
     bindR (assertR (n + 1 < 2 ^ 31) SignedOverflow) (\<lambda>_. snd_loop Z k (n + 1) sock))"

definition snd_rounds :: "zmq \<Rightarrow> nat \<Rightarrow> bytes \<Rightarrow> (int \<times> socket) result" where
  "snd_rounds Z k addr = bindR (socket_new Z ZMQ_PUB addr) (snd_loop Z k 0)"

section \<open>What it shows\<close>

text \<open>The pairs a draw gives, as far as it matters.\<close>

lemma random_pair:
  assumes "random_keys_ok S"
  obtains pk sk r' where "run_state (key_pair_new S) r = ((pk, sk), r')" and "pk = box_public S sk" and "length sk = 32"
proof -
  obtain p r' where p: "run_state (key_pair_new S) r = (p, r')" by (cases "run_state (key_pair_new S) r")
  then have "p = box_keypair S (fst (run_state (draw_bytes 32) r))" by (auto simp: key_pair_new_def split: prod.splits)
  with assms have "fst p = box_public S (snd p)" "length (snd p) = 32" by (simp_all add: random_keys_ok_def)
  then show ?thesis using that [of "fst p" "snd p" r'] p by (cases p) simp
qed

lemma demo_message_length [simp]: "length demo_message = 20"
  by (simp add: demo_message_def)

lemma random_boxD:
  "random_box_ok S \<Longrightarrow> length s = 32 \<Longrightarrow> length t = 32 \<Longrightarrow> box_easy S m n (box_public S t) s = Some c \<Longrightarrow>
     length c = length m + 16 \<and> box_open_easy S c n (box_public S s) t = Some m"
  unfolding random_box_ok_def by blast

lemma random_sealD:
  assumes "random_box_ok S" and "length s = 32"
  shows "length (box_seal S m e (box_public S s)) = length m + 48"
    and "box_seal_open S (box_seal S m e (box_public S s)) (box_public S s) s = Some m"
  using assms unfolding random_box_ok_def by blast+

lemma demo_decrypts:
  assumes "random_box_ok S" and "length s = 32" and "length t = 32"
    and enc: "encrypt S nonce demo_message (box_public S t) s = Inr enc"
  shows "\<exists>r'. run_state (demo_decrypt S enc (box_public S s) t) r =
    ([shown S ''enc_message: '' [em_enc enc], Flag ''success: '' True, shown S [] [demo_message]], r')"
proof -
  obtain c where c: "box_easy S demo_message nonce (box_public S t) s = Some c"
    and e: "enc = \<lparr>em_message = demo_message, em_enc = c, em_nonce = nonce\<rparr>"
    using enc by (auto simp: encrypt_def split: option.splits)
  have "length c = 36" and "box_open_easy S c nonce (box_public S s) t = Some demo_message"
    using random_boxD [OF assms(1-3) c] by simp_all
  then show ?thesis
    by (simp add: demo_decrypt_def encrypted_message_of_def decrypt_def e Let_def split: prod.splits)
qed

lemma demo_unseals:
  "random_box_ok S \<Longrightarrow> length s = 32 \<Longrightarrow>
     demo_unseal S (seal S eph demo_message (box_public S s)) (box_public S s) s =
       [Flag ''success: '' True, shown S [] [demo_message]]"
  by (simp add: demo_unseal_def sealed_message_of_def unseal_def seal_def random_sealD Let_def)

lemma demo_verifies:
  assumes "random_sign_ok S" and "sign_keypair S r = (pk, sk)" and "sign_message S demo_message sk = Inr sg"
  shows "demo_verify S sg pk = [shown S [] [sg_signed sg], Flag ''signed: '' True, shown S [] [demo_message]]"
proof -
  obtain d where d: "sign_attached S demo_message sk = Some d"
    and sg: "sg = \<lparr>sg_message = demo_message, sg_signed = d\<rparr>"
    using assms(3) by (auto simp: sign_message_def split: option.splits)
  have "length d = length demo_message + 64 \<and> sign_open S d pk = Some demo_message"
    using assms(1,2) d unfolding random_sign_ok_def by (metis fst_conv snd_conv)
  then show ?thesis by (simp add: demo_verify_def signed_message_of_def verify_message_def sg Let_def)
qed

text \<open>The demonstration shows what it means to: whatever random numbers are drawn, the program either
  stops with an exception because libsodium refused to encrypt or to sign, or all three checks are
  printed as successful and after each of them the message that was encrypted, sealed or signed.\<close>

lemma snd_demo_succeeds:
  assumes "random_keys_ok S" and "random_box_ok S" and "random_sign_ok S"
    and run: "run_state (snd_demo S) r = ((out, res), r')"
  shows "res = Inl (Thrown ''encryption failed'') \<or> res = Inl (Thrown ''Signing failed'') \<or>
    res = Inr () \<and> (\<exists>k1 k2 k3 enc sg. let m = shown S [] [demo_message] in
      out = [shown S [] k1, shown S [] k2, m, shown S ''enc_message: '' [enc], Flag ''success: '' True, m,
        Flag ''success: '' True, m, shown S ''sign keypair: '' k3, shown S [] [sg], Flag ''signed: '' True, m])"
proof -
  obtain s1 r1 where p1: "run_state (key_pair_new S) r = ((box_public S s1, s1), r1)" "length s1 = 32"
    using random_pair [OF assms(1)] by metis
  obtain s2 r2 where p2: "run_state (key_pair_new S) r1 = ((box_public S s2, s2), r2)" "length s2 = 32"
    using random_pair [OF assms(1)] by metis
  obtain nonce r3 where n: "run_state nonce_new r2 = (nonce, r3)" by (cases "run_state nonce_new r2")
  show ?thesis
  proof (cases "encrypt S nonce demo_message (box_public S s1) s2")
    case (Inl e)
    then have "e = Thrown ''encryption failed''" by (auto simp: encrypt_def split: option.splits)
    with run Inl p1 p2 n show ?thesis by (simp add: snd_demo_def encrypted_message_new_def Let_def)
  next
    case (Inr enc)
    obtain r4 where d: "run_state (demo_decrypt S enc (box_public S s2) s1) r3 =
        ([shown S ''enc_message: '' [em_enc enc], Flag ''success: '' True, shown S [] [demo_message]], r4)"
      using demo_decrypts [OF assms(2) p2(2) p1(2) Inr] by blast
    obtain eph r5 where e: "run_state (draw_bytes 32) r4 = (eph, r5)" by (cases "run_state (draw_bytes 32) r4")
    obtain x r6 where x: "run_state (draw_bytes 32) r5 = (x, r6)" by (cases "run_state (draw_bytes 32) r5")
    obtain pk3 sk3 where k3: "sign_keypair S x = (pk3, sk3)" by (cases "sign_keypair S x")
    note steps = snd_demo_def encrypted_message_new_def sealed_message_new_def sign_key_pair_new_def Let_def
    show ?thesis
    proof (cases "sign_message S demo_message sk3")
      case (Inl e)
      then have "e = Thrown ''Signing failed''" by (auto simp: sign_message_def split: option.splits)
      with run Inl Inr p1 p2 n d \<open>run_state (draw_bytes 32) r4 = (eph, r5)\<close> x k3 show ?thesis by (simp add: steps)
    next
      case (Inr sg)
      with run \<open>encrypt S nonce demo_message (box_public S s1) s2 = Inr enc\<close> p1 p2 n d e x k3
        demo_unseals [OF assms(2) p1(2)] demo_verifies [OF assms(3) k3 Inr]
      show ?thesis by (simp add: steps) blast
    qed
  qed
qed

section \<open>The counter\<close>

lemma snd_loop_counts:
  assumes "zmq_alloc Z 1" and "\<And>q f. zmq_send Z q f"
  shows "n + k < 2 ^ 31 \<Longrightarrow> snd_loop Z k (int n) sock =
      Inr (int (n + k), sock\<lparr>sk_sent := sk_sent sock @ map (\<lambda>i. ([of_nat i], False)) [n..<n + k]\<rparr>)"
    and "n < 2 ^ 31 \<Longrightarrow> 2 ^ 31 \<le> n + k \<Longrightarrow> snd_loop Z k (int n) sock = Inl SignedOverflow"
proof (induction k arbitrary: n sock)
  case (Suc k)
  have send: "socket_send Z [x] False sock = Inr (sock\<lparr>sk_sent := sk_sent sock @ [([x], False)]\<rparr>)" for x sock
    using assms by (simp add: socket_send_def)
  {
    case 1
    have "[n..<n + Suc k] = n # [Suc n..<Suc n + k]" by (simp add: upt_conv_Cons del: upt_Suc)
    with Suc(1) [of "Suc n"] 1 show ?case
      by (simp add: send assertR_def add.commute del: upt_Suc)
  next
    case 2
    with Suc(2) [of "Suc n"] show ?case
      by (cases "Suc n < 2 ^ 31") (simp_all add: send add.commute assertR_def)
  }
qed simp_all

text \<open>On a socket that accepts everything the program publishes the numbers from 0 on, a byte each, until
  the counter no longer fits an \<open>int\<close>.\<close>

lemma snd_publishes:
  assumes "zmq_alloc Z 1" and "\<And>q f. zmq_send Z q f" and "zmq_socket Z ZMQ_PUB" and "zmq_bind Z addr"
  shows "map_sum id (\<lambda>(n, sock). (n, sk_sent sock)) (snd_rounds Z k addr) =
    (if k < 2 ^ 31 then Inr (int k, map (\<lambda>i. ([of_nat i], False)) [0..<k]) else Inl SignedOverflow)"
  using snd_loop_counts [OF assms(1,2), of 0 k] assms(3,4)
  by (simp add: snd_rounds_def socket_new_def socket_connect_def)

end
