(* ===== verification/Safe_Bytes.thy ===== *)
theory Safe_Bytes
  imports Curve
begin

text \<open>
  \<open>SafeBytes\<close> of \<open>src/curve.cc\<close> down to the memory it lives in: the vector's block with its unused
  capacity, and the blocks that are given back. The class wipes its bytes when it is destroyed and
  before it is resized; proved is that nothing it ever held is given back with a block, and that the
  operations it inherits from \<open>std::vector\<close> without overriding them break this.
\<close>

section \<open>Vectors in memory\<close>

text \<open>A cell of a block is \<open>None\<close> until the program writes to it.\<close>

type_synonym cells = "u8 option list"

record safe_bytes =
  sb_block :: cells
  sb_size :: nat

definition contents :: "safe_bytes \<Rightarrow> bytes" where
  "contents v = map the (take (sb_size v) (sb_block v))"

text \<open>\<open>SafeBytes(int)\<close> and \<open>SafeBytes(Bytes &)\<close>\<close>

definition safe_new :: "nat \<Rightarrow> safe_bytes" where
  "safe_new n = \<lparr>sb_block = replicate n (Some 0), sb_size = n\<rparr>"

definition safe_copy :: "bytes \<Rightarrow> safe_bytes" where
  "safe_copy b = \<lparr>sb_block = map Some b, sb_size = length b\<rparr>"

text \<open>\<open>sodium_memzero(&(*this)[0], size())\<close>\<close>

definition memzero :: "safe_bytes \<Rightarrow> safe_bytes" where
  "memzero v = v\<lparr>sb_block := replicate (sb_size v) (Some 0) @ drop (sb_size v) (sb_block v)\<rparr>"

text \<open>
  \<open>std::vector::resize\<close>: shrinking keeps the block, growing within the capacity writes zeros, and
  growing beyond it moves the elements to a block of at least twice the size and gives the old one
  back. The second component are the blocks given back.
\<close>

definition vector_resize :: "nat \<Rightarrow> safe_bytes \<Rightarrow> safe_bytes \<times> cells list" where
  "vector_resize n v =
     (let old = take (sb_size v) (sb_block v); added = n - sb_size v in
      if n \<le> sb_size v then (v\<lparr>sb_size := n\<rparr>, [])
      else if n \<le> length (sb_block v)
      then (v\<lparr>sb_block := old @ replicate added (Some 0) @ drop n (sb_block v), sb_size := n\<rparr>, [])
      else (\<lparr>sb_block = old @ replicate added (Some 0) @ replicate (max (sb_size v) added - added) None, sb_size = n\<rparr>,
            [sb_block v]))"

definition safe_bytes_resize :: "nat \<Rightarrow> safe_bytes \<Rightarrow> safe_bytes \<times> cells list" where
  "safe_bytes_resize n v = vector_resize n (if sb_size v \<noteq> 0 then memzero v else v)"

text \<open>The destructor, then that of the vector.\<close>

definition safe_destroy :: "safe_bytes \<Rightarrow> cells list" where
  "safe_destroy v = [sb_block (memzero v)]"

text \<open>The assignment of the class is the implicitly declared one, that of \<open>std::vector\<close>.\<close>

definition vector_assign :: "bytes \<Rightarrow> safe_bytes \<Rightarrow> safe_bytes \<times> cells list" where
  "vector_assign b v =
     (if length (sb_block v) < length b then (safe_copy b, [sb_block v])
      else (v\<lparr>sb_block := map Some b @ drop (length b) (sb_block v), sb_size := length b\<rparr>, []))"

definition write_byte :: "nat \<Rightarrow> u8 \<Rightarrow> safe_bytes \<Rightarrow> safe_bytes result" where
  "write_byte i x v =
     (if i < sb_size v then Inr (v\<lparr>sb_block := (sb_block v)[i := Some x]\<rparr>) else Inl OutOfBounds)"

text \<open>The life of an object: what is done to it, in order, collecting the blocks given back.\<close>

datatype action = Write nat u8 | Resize nat | is_assign: Assign bytes

fun act :: "action \<Rightarrow> safe_bytes \<times> cells list \<Rightarrow> (safe_bytes \<times> cells list) result" where
  "act (Write i x) (v, freed) = bindR (write_byte i x v) (\<lambda>v. Inr (v, freed))"
| "act (Resize n) (v, freed) = (let (v, bs) = safe_bytes_resize n v in Inr (v, freed @ bs))"
| "act (Assign b) (v, freed) = (let (v, bs) = vector_assign b v in Inr (v, freed @ bs))"

definition live :: "safe_bytes \<Rightarrow> action list \<Rightarrow> (safe_bytes \<times> cells list) result" where
  "live v acts = bindR (foldR act acts (v, [])) (\<lambda>(v, freed). Inr (v, freed @ safe_destroy v))"

section \<open>Nothing is left behind\<close>

definition blank :: "cells \<Rightarrow> bool" where
  "blank b \<longleftrightarrow> set b \<subseteq> {None, Some 0}"

text \<open>The bytes in use have been written, and the spare capacity is blank.\<close>

definition safe_ok :: "safe_bytes \<Rightarrow> bool" where
  "safe_ok v \<longleftrightarrow> sb_size v \<le> length (sb_block v) \<and> None \<notin> set (take (sb_size v) (sb_block v))
     \<and> blank (drop (sb_size v) (sb_block v))"

lemma blank_simps [simp]:
  "blank []" "blank (x # b) \<longleftrightarrow> (x = None \<or> x = Some 0) \<and> blank b" "blank (a @ b) \<longleftrightarrow> blank a \<and> blank b"
  "blank (replicate n None)" "blank (replicate n (Some 0))"
  by (auto simp: blank_def)

lemma blank_drop: "blank b \<Longrightarrow> blank (drop n b)"
  by (auto simp: blank_def dest: in_set_dropD)

lemma safe_ok_new: "safe_ok (safe_new n)" "safe_ok (safe_copy b)"
  by (auto simp: safe_ok_def safe_new_def safe_copy_def)

lemma memzero_ok:
  assumes "safe_ok v"
  shows "safe_ok (memzero v)" and "blank (sb_block (memzero v))" and "sb_size (memzero v) = sb_size v"
    and "contents (memzero v) = zero_bytes (contents v)"
  using assms by (auto simp: safe_ok_def memzero_def contents_def zero_bytes_def map_replicate_const min_def)

lemma blank_drop_le: "blank (drop m b) \<Longrightarrow> m \<le> n \<Longrightarrow> blank (drop n b)"
  by (metis blank_drop drop_drop le_add_diff_inverse2)

lemma vector_resize_ok:
  assumes "safe_ok v" and "vector_resize n v = (v', bs)"
    and "blank (take (sb_size v) (sb_block v))"
  shows "safe_ok v' \<and> (\<forall>b \<in> set bs. blank b)
    \<and> contents v' = take n (contents v) @ replicate (n - length (contents v)) 0"
proof -
  have all: "blank (sb_block v)" using assms(1,3) unfolding safe_ok_def
    by (metis append_take_drop_id blank_simps(3))
  have len: "length (contents v) = sb_size v" using assms(1) by (simp add: contents_def safe_ok_def)
  consider "n \<le> sb_size v" | "sb_size v < n" "n \<le> length (sb_block v)" | "length (sb_block v) < n" "sb_size v < n"
    using assms(1) unfolding safe_ok_def by linarith
  then show ?thesis
  proof cases
    case 1
    then have "v' = v\<lparr>sb_size := n\<rparr>" "bs = []" using assms(2) by (simp_all add: vector_resize_def Let_def)
    with 1 assms(1) all len show ?thesis
      by (auto simp: safe_ok_def contents_def take_map min_def blank_drop dest: set_take_subset_set_take [THEN subsetD])
  next
    case 2
    with assms all len show ?thesis
      by (auto simp: vector_resize_def Let_def safe_ok_def contents_def blank_drop)
  next
    case 3
    with assms all len show ?thesis
      by (auto simp: vector_resize_def Let_def safe_ok_def contents_def)
  qed
qed

lemma safe_bytes_resize_ok:
  assumes "safe_ok v" and "safe_bytes_resize n v = (v', bs)"
  shows "safe_ok v' \<and> (\<forall>b \<in> set bs. blank b) \<and> contents v' = replicate n 0"
proof -
  have len: "length (contents v) = sb_size v" using assms(1) by (simp add: contents_def safe_ok_def)
  show ?thesis
  proof (cases "sb_size v = 0")
    case True
    then have "contents v = []" by (simp add: contents_def)
    with True vector_resize_ok [OF assms(1), of n v' bs] assms(2) show ?thesis
      by (simp add: safe_bytes_resize_def)
  next
    case False
    note z = memzero_ok [OF assms(1)]
    have "blank (take (sb_size (memzero v)) (sb_block (memzero v)))" by (simp add: memzero_def)
    moreover have "vector_resize n (memzero v) = (v', bs)" using assms(2) False by (simp add: safe_bytes_resize_def)
    ultimately show ?thesis using vector_resize_ok [OF z(1), of n v' bs] False len z(4)
      by (simp add: zero_bytes_def map_replicate_const take_map min_def flip: replicate_add)
  qed
qed

lemma write_byte_ok:
  assumes "safe_ok v"
  shows "map_sum id contents (write_byte i x v) = vec_set (contents v) i x"
    and "write_byte i x v = Inr v' \<Longrightarrow> safe_ok v'"
proof -
  have len: "length (contents v) = sb_size v" using assms by (simp add: contents_def safe_ok_def)
  show "map_sum id contents (write_byte i x v) = vec_set (contents v) i x"
    using len by (simp add: write_byte_def vec_set_def) (simp add: contents_def take_update_swap map_update)
  show "safe_ok v'" if "write_byte i x v = Inr v'"
    using that assms set_update_subset_insert [of "take (sb_size v) (sb_block v)" i "Some x"]
    by (auto simp: write_byte_def safe_ok_def take_update_swap split: if_splits)
qed

text \<open>What the class promises: a vector of bytes whose \<open>resize\<close> leaves zeros only.\<close>

fun act_bytes :: "action \<Rightarrow> bytes \<Rightarrow> bytes result" where
  "act_bytes (Write i x) b = vec_set b i x"
| "act_bytes (Resize n) b = Inr (replicate n 0)"
| "act_bytes (Assign c) b = Inr c"

lemma acts_ok:
  "\<forall>a \<in> set acts. \<not> is_assign a \<Longrightarrow> safe_ok v \<Longrightarrow>
     map_sum id (contents \<circ> fst) (foldR act acts (v, freed)) = foldR act_bytes acts (contents v)
     \<and> (\<forall>v' freed'. foldR act acts (v, freed) = Inr (v', freed') \<longrightarrow> safe_ok v' \<and>
          ((\<forall>b \<in> set freed. blank b) \<longrightarrow> (\<forall>b \<in> set freed'. blank b)))"
proof (induction acts arbitrary: v freed)
  case (Cons a acts)
  show ?case
  proof (cases a)
    case (Write i x)
    with Cons.IH Cons.prems write_byte_ok [OF Cons.prems(2), of i x] show ?thesis
      by (cases "write_byte i x v") (auto simp flip: write_byte_ok(1))
  next
    case (Resize n)
    obtain v' bs where r: "safe_bytes_resize n v = (v', bs)" by (cases "safe_bytes_resize n v")
    from safe_bytes_resize_ok [OF Cons.prems(2) r] Cons.IH [of v' "freed @ bs"] Cons.prems(1) r Resize
    show ?thesis by auto
  qed (use Cons.prems in simp)
qed simp

text \<open>C25: a \<open>SafeBytes\<close> object holds what was written to it since the last resize and leaves nothing
  behind: written to and resized in any order, its contents are those of a vector of bytes that a
  resize to \<open>n\<close> sets to \<open>n\<close> zeros, unlike \<open>std::vector::resize\<close>, which keeps the elements, and a write
  out of range fails; and of the blocks it gives back, when it outgrows one and when it is destroyed,
  every cell is zero or one the object never wrote to.\<close>

theorem safe_bytes_wiped:
  assumes "\<forall>a \<in> set acts. \<not> is_assign a"
  shows "map_sum id (contents \<circ> fst) (live (safe_copy b) acts) = foldR act_bytes acts b
    \<and> (\<forall>v freed. live (safe_copy b) acts = Inr (v, freed) \<longrightarrow> (\<forall>block \<in> set freed. blank block))"
proof -
  have b: "contents (safe_copy b) = b" by (simp add: contents_def safe_copy_def comp_def)
  note run = acts_ok [OF assms safe_ok_new(2), of b "[]", unfolded b]
  show ?thesis
  proof (cases "foldR act acts (safe_copy b, [])")
    case (Inr r)
    obtain v freed where r: "r = (v, freed)" by (cases r)
    with run Inr have "safe_ok v" "\<forall>block \<in> set freed. blank block" by auto
    then have "\<forall>block \<in> set (freed @ safe_destroy v). blank block"
      using memzero_ok(2) by (simp add: safe_destroy_def)
    with run Inr r show ?thesis by (simp add: live_def)
  qed (use run in \<open>simp add: live_def\<close>)
qed

lemma safe_bytes_wiped_witness:
  "\<exists>v freed. live (safe_copy [7, 9]) [Write 0 5, Resize 3, Write 2 1] = Inr (v, freed)
    \<and> contents v = [0, 0, 1] \<and> length freed = 2 \<and> (\<forall>block \<in> set freed. blank block)"
  using safe_bytes_wiped [of "[Write 0 5, Resize 3, Write 2 1]" "[7, 9]"]
  by (simp add: live_def write_byte_def safe_copy_def safe_bytes_resize_def vector_resize_def memzero_def
      safe_destroy_def contents_def Let_def numeral_2_eq_2 numeral_3_eq_3)

text \<open>Assignment, which the class inherits as it is, does not wipe: a longer value gives the block
  with the old bytes back, a shorter one leaves those behind its end in the spare capacity, where the
  destructor does not reach them. So of an object that held \<open>b\<close> and was assigned \<open>c\<close> only zeros are
  given back exactly if the bytes concerned were zeros.\<close>

lemma safe_assign_leaks:
  "\<exists>v freed. live (safe_copy b) [Assign c] = Inr (v, freed) \<and> contents v = c \<and>
     ((\<forall>block \<in> set freed. blank block) \<longleftrightarrow> (\<forall>x \<in> set (if length b < length c then b else drop (length c) b). x = 0))"
  by (auto simp: live_def vector_assign_def safe_copy_def contents_def comp_def safe_destroy_def memzero_def
      blank_def drop_map)

end
