(* ===== verification/Spec2Isabelle.thy ===== *)
theory Spec2Isabelle
  imports Bech32_Distance Segwit Convert Chain_Heights Storage Node_Socket Node_Schedule Flood Gossip Connections Client Payment Word_Programs
    Races Demo Safe_Bytes Utilities
begin

text \<open>
  A verification development of pttp, a peer-to-peer transaction network in C++, with the command line
  tools that come with it.

  \<^bold>\<open>The program.\<close> A node (\<open>bin/p2p.cc\<close>) keeps the addresses of other nodes, a connection and a thread
  with a task queue for each node it talks to (\<open>inc/gtd.h\<close>), the texts it has seen, a set of hashes it
  reconciles with its peers by means of Bloom filters (\<open>inc/bloom_filter.h\<close>) and a Merkle hash
  (\<open>inc/curve.h\<close>), and a block chain with a pool of transactions (\<open>bin/p2p.cc\<close>, \<open>src/process.cc\<close>).
  Messages are Cap'n Proto structures (\<open>cap/messages.capnp\<close>) over ZeroMQ sockets (\<open>src/socket.cc\<close>),
  cryptography is libsodium behind \<open>src/curve.cc\<close>, storage RocksDB behind \<open>inc/db.h\<close>, and byte vectors
  (\<open>inc/type.h\<close>) are shown as bech32 strings (\<open>src/segwit_addr.cc\<close>, \<open>inc/convert.h\<close>).

  \<^bold>\<open>The theories.\<close> Each holds the definitions of one component, in the order and with the names of the
  code, and then what is proved of them.

  \<^item> \<open>Prelude\<close>: machine types, the errors of C++ as values (undefined behaviour, failed assertions and
    exceptions are each an error of their own), checked accesses to vectors, bits and words.
  \<^item> \<open>Std_Containers\<close>: \<open>std::set\<close> and \<open>std::map\<close> as ascending lists, so that iteration has the order of
    the code; the locales \<open>ordered_set\<close> and \<open>ordered_map\<close> are what the components rely on.
  \<^item> \<open>Byte_Buffer\<close>: \<open>inc/type.h\<close>; the locale \<open>masking\<close> is what the tools rely on of \<open>x_or\<close>.
  \<^item> \<open>Bech32\<close>, \<open>Bech32_Checksum\<close>, \<open>Bech32_Correct\<close>, \<open>Segwit\<close>, \<open>Convert\<close>: \<open>src/segwit_addr.cc\<close> and
    \<open>bytes_to_bech32\<close>; the linear algebra of the checksum, decoding of what was encoded, the buffer
    sizes under which decoding stays in bounds.
  \<^item> \<open>Bech32_Field\<close>, \<open>Bech32_Distance\<close>: the checksum as a code over the field of 32 elements; one, two
    or three wrong characters behind the separator are always found.
  \<^item> \<open>Sodium\<close>, \<open>Curve\<close>, \<open>Merkle\<close>: the parameter for libsodium with what it documents, \<open>src/curve.cc\<close>,
    and \<open>hash_vec\<close> of \<open>inc/curve.h\<close>, which computes the root of a binary tree and is as binding as
    its hash.
  \<^item> \<open>Keys\<close>: the constructors of keys, nonces and salts, with the random numbers they draw in a state
    monad, as types with a size, which the copies of three of them do not check. \<open>Safe_Bytes\<close>: the
    wiping vector of \<open>src/curve.cc\<close> down to its memory; it refines a vector whose \<open>resize\<close> sets all
    bytes to zero, and no cell that was written is given back with a byte other than zero in it.
  \<^item> \<open>Utilities\<close>: \<open>inc/util.h\<close>, \<open>inc/err.h\<close>, and the conversions of \<open>inc/type.h\<close> and \<open>inc/convert.h\<close>.
  \<^item> \<open>Bloom\<close>, \<open>Bloom_Transfer\<close>, \<open>Storage\<close>: \<open>inc/bloom_filter.h\<close> and \<open>inc/db.h\<close>; the filter is a
    membership filter (locale \<open>membership_filter\<close>), also after it was sent, and the cache is not a
    cache.
  \<^item> \<open>Gtd\<close>: \<open>inc/gtd.h\<close>, a priority queue (locale \<open>priority_queue\<close>) whose operations neither lose nor
    invent tasks and deliver them in time and in order.
  \<^item> \<open>Wire\<close>, \<open>Transactions\<close>: the messages, with the parameter for Cap'n Proto; building, checking and
    parsing transactions in \<open>src/process.cc\<close> and \<open>bin/p2p.cc\<close>, and the rule both parsers judge by.
    The field \<open>list_checks\<close> of the parameter says whether Cap'n Proto was built with its checks of list
    indices, since an index out of range throws then and reads on otherwise.
  \<^item> \<open>Chain\<close>, \<open>Chain_Heights\<close>: \<open>BlockHeader\<close> and \<open>BlockChain\<close>; the choice of transactions against the
    balances, and the heights \<open>mark_blocks\<close> assigns, with the cases in which it does not come back.
  \<^item> \<open>Payment\<close>: a payment from its creation through the parser and the pool to that choice.
  \<^item> \<open>Reconcile\<close>: \<open>SetReconsiler\<close> and \<open>BlockChainReconsiler\<close>.
  \<^item> \<open>Node\<close>, \<open>Node_Steps\<close>, \<open>Node_Exchange\<close>: the threads of \<open>bin/p2p.cc\<close>, one round of a loop to a
    definition; the relation \<open>node_step\<close> interleaves the rounds and the invariant holds in every
    reachable state; what two nodes tell each other, and how one asks another for the transactions of
    a set. \<open>Node_Schedule\<close>: the two tasks of the manager come
    back for ever, each once. \<open>Gossip\<close>: the addresses in a network of nodes come to be known exactly
    where they can.
  \<^item> \<open>Console\<close>: what each round prints, and that a text is shown once.
  \<^item> \<open>Races\<close>: the set of addresses access by access, under its mutex; the threads do not lose an address
    and end within a bounded number of steps, and the one access before the mutex makes the server
    write beyond its reply. \<open>Connections\<close>: the vector of connections in memory, which has no mutex; a
    loop over it reads memory that is gone exactly when the vector has to move.
  \<^item> \<open>Flood\<close>: a network of such nodes, in which a text typed at one of them is delivered a bounded
    number of times and reaches all that can be reached.
  \<^item> \<open>Socket\<close>, \<open>Node_Socket\<close>: \<open>src/socket.cc\<close> and the server's loop on a socket.
  \<^item> \<open>Client\<close>: \<open>bin/node.cc\<close>, with all it prints, and its session with a node.
  \<^item> \<open>Demo\<close>: \<open>bin/snd.cc\<close>, which shows the three kinds of message at work.
  \<^item> \<open>Tools\<close>: \<open>bin/enc.cc\<close>, \<open>bin/dec.cc\<close>, their variants for hexadecimal data and sealed messages;
    \<open>Word_Tools\<close>, \<open>Word_Programs\<close>: \<open>bin/wordenc.cc\<close> and \<open>bin/worddec.cc\<close>, from the words file to the output.
  \<^item> \<open>Netlink\<close>, \<open>Netlink_Correct\<close>, \<open>Netlink_Dump\<close>, \<open>Dotted\<close>: \<open>inc/estimate_outside_ip.h\<close>, byte by byte
    as it reads the kernel's dump of its routes; \<open>Snippets\<close>: the programs under \<open>snippets/\<close>, which print
    the same tables.

  \<^bold>\<open>How state corresponds.\<close> A struct is a record with a field for each member; the globals of
  \<open>bin/p2p.cc\<close> are the record \<open>node\<close>. An operation takes the state and returns it changed. Pointers to
  objects that may be missing are options; an element a map creates on access is created in the model
  too (\<open>map_index\<close>). Amounts keep the widths of the code: \<open>int64_t\<close> on the wire, cut to \<open>int\<close> by
  \<open>narrow\<close>; sums of balances fail where \<open>int64_t\<close> would overflow. A function that ends without
  \<open>return\<close> gives \<open>None\<close>, and using its result is an error. A text that goes through a C string on its
  way into or out of a message ends at its first NUL (\<open>c_str\<close>). What a thread does while it holds a mutex
  is one step, except in \<open>Races\<close> and \<open>Connections\<close>, where a step is one access.

  \<^bold>\<open>Parameters.\<close> Code that is not in the repository is an argument: the records \<open>sodium\<close>, \<open>capnp\<close>,
  \<open>rocks\<close> and \<open>zmq\<close>, the kernel's answers, the clock, random numbers and the shuffling of addresses.
  Their documented behaviour is stated by \<open>hash_lengths_ok\<close>, \<open>hash_bounded\<close>, \<open>box_ok\<close>, \<open>sign_ok\<close>,
  \<open>hex_ok\<close>, \<open>utils_ok\<close>, \<open>random_keys_ok\<close>, \<open>random_box_ok\<close>, \<open>random_sign_ok\<close>, \<open>capnp_ok\<close> and \<open>rocks_ok\<close>; a small instance of each serves the witnesses.

  \<^bold>\<open>Loops.\<close> No loop has fuel. Loops over data are structural or come with a measure; the walk of
  \<open>mark_blocks\<close> may go on for ever and is a partial function, whose termination and non-termination are
  both proved; a loop that waits for messages is a recursion over what arrives, and waiting for ever
  is the error \<open>Stuck\<close>; of the endless loop of \<open>bin/snd.cc\<close> any number of rounds is run.

  \<^bold>\<open>Not modelled.\<close> Error messages on the error stream, and the one line that tells that ZeroMQ is started;
  the library code behind the parameters; opening the database; \<open>bin/rcv.cc\<close> and \<open>bin/nodetest.cc\<close>,
  which do not compile against the present headers; the text of \<open>ZMQErr\<close>, a pointer into a string that
  is gone; \<open>snippets/get_outside_ip.cc\<close> but for its \<open>main\<close>, since it is a copy of the header; the five
  functions of \<open>BlockChain\<close> with empty bodies; code in comments.
\<close>

end
